(* ===== verification/Zeos_Prelude.thy ===== *)
theory Zeos_Prelude
  imports Main "HOL-Library.Word" "HOL-Library.Monad_Syntax"
begin

text \<open>
  Shared vocabulary of the development: the machine types of \<^verbatim>\<open>zeOS/include/types.h\<close>, the
  address-space constants of \<^verbatim>\<open>mm_address.h\<close>, the error numbers of \<^verbatim>\<open>errno.h\<close> that the
  kernel returns, bounds-checked C arrays, and the generic lemmas the components share.

  Fallible C code is modelled in the option monad. \<^term>\<open>None\<close> stands for an access the C
  program has no defined result for: a null or foreign pointer is dereferenced, an array is
  indexed out of its bounds, or an unmapped page is touched in kernel mode. Error codes the
  kernel returns on purpose are ordinary integer results.
\<close>

unbundle bit_operations_syntax

section \<open>Machine types\<close>

type_synonym Byte = "8 word"
type_synonym Word16 = "16 word"
type_synonym DWord = "32 word"

section \<open>Constants of the address space\<close>

abbreviation (input) NR_TASKS :: nat where "NR_TASKS \<equiv> 10"
abbreviation (input) KERNEL_STACK_SIZE :: nat where "KERNEL_STACK_SIZE \<equiv> 1024"
abbreviation (input) QUANTUM :: DWord where "QUANTUM \<equiv> 3"

abbreviation (input) TOTAL_PAGES :: nat where "TOTAL_PAGES \<equiv> 1024"
abbreviation (input) NUM_PAG_KERNEL :: nat where "NUM_PAG_KERNEL \<equiv> 256"
abbreviation (input) NUM_PAG_CODE :: nat where "NUM_PAG_CODE \<equiv> 8"
abbreviation (input) NUM_PAG_DATA :: nat where "NUM_PAG_DATA \<equiv> 20"
abbreviation (input) PAGE_SIZE :: DWord where "PAGE_SIZE \<equiv> 0x1000"
abbreviation (input) L_USER_START :: DWord where "L_USER_START \<equiv> 0x100000"
abbreviation (input) L_HEAP_START :: DWord where "L_HEAP_START \<equiv> 0x11C000"
abbreviation (input) PAG_LOG_INIT_CODE :: nat where "PAG_LOG_INIT_CODE \<equiv> 256"
abbreviation (input) PAG_LOG_INIT_DATA :: nat where "PAG_LOG_INIT_DATA \<equiv> 264"
abbreviation (input) USER_FIRST_PAGE :: DWord where "USER_FIRST_PAGE \<equiv> 256"
abbreviation (input) HEAP_FIRST_PAGE :: DWord where "HEAP_FIRST_PAGE \<equiv> 284"

section \<open>Error numbers\<close>

abbreviation (input) ESRCH where "ESRCH \<equiv> 3"
abbreviation (input) EAGAIN where "EAGAIN \<equiv> 11"
abbreviation (input) ENOMEM where "ENOMEM \<equiv> 12"
abbreviation (input) EFAULT where "EFAULT \<equiv> 14"
abbreviation (input) EINVAL where "EINVAL \<equiv> 22"
abbreviation (input) EDOM where "EDOM \<equiv> 33"
abbreviation (input) ENOSYS where "ENOSYS \<equiv> 38"
abbreviation (input) ENOINP where "ENOINP \<equiv> 55"

section \<open>Collections of facts\<close>

named_theorems run_simps \<open>rewriting of option-valued runs of C code\<close>

lemma bind_Some_run [run_simps]: "(Some x \<bind> f) = f x"
  by simp

lemma bind_None_run [run_simps]: "(None \<bind> f) = None"
  by simp

lemma bind_eq_SomeE:
  assumes "m \<bind> f = Some y"
  obtains x where "m = Some x" and "f x = Some y"
  using assms by (auto simp: bind_eq_Some_conv)

section \<open>C arrays with checked bounds\<close>

definition arr_get :: "'a list \<Rightarrow> int \<Rightarrow> 'a option" where
  "arr_get a i = (if 0 \<le> i \<and> i < int (length a) then Some (a ! nat i) else None)"

definition arr_set :: "'a list \<Rightarrow> int \<Rightarrow> 'a \<Rightarrow> 'a list option" where
  "arr_set a i v = (if 0 \<le> i \<and> i < int (length a) then Some (a[nat i := v]) else None)"

lemma arr_get_in [simp]: "i < length a \<Longrightarrow> arr_get a (int i) = Some (a ! i)"
  by (simp add: arr_get_def)

lemma arr_set_in [simp]: "i < length a \<Longrightarrow> arr_set a (int i) v = Some (a[i := v])"
  by (simp add: arr_set_def)

lemma arr_get_Some_iff: "arr_get a i = Some v \<longleftrightarrow> 0 \<le> i \<and> i < int (length a) \<and> v = a ! nat i"
  by (auto simp: arr_get_def)

lemma arr_set_length: "arr_set a i v = Some b \<Longrightarrow> length b = length a"
  by (auto simp: arr_set_def split: if_splits)

end
