(* ===== verification/Zeos_Circular.thy ===== *)
theory Zeos_Circular
  imports Zeos_Prelude
begin

text \<open>
  The keyboard buffer of \<^verbatim>\<open>zeOS/circular_buffer.c\<close>: eight character slots, a read and a write
  index, and the null character as the mark of a free slot. The code never counts its entries:
  a slot is occupied when it is not null, and a write goes to the write index whether or not the
  slot is free.

  \<open>cb_rep\<close> relates a buffer to the queue of characters it stands for. The locale
  \<open>bounded_fifo\<close> is the contract of the keyboard routine and of \<^verbatim>\<open>sys_get_key\<close>; it is
  interpreted on the code. The behaviour on a full buffer, outside that contract, is stated
  separately.
\<close>

section \<open>State and operations\<close>

abbreviation (input) MAX_VAL :: nat where "MAX_VAL \<equiv> 8"

record circular_buffer =
  cb_buffer :: "Byte list"
  cb_read :: int
  cb_write :: int

text \<open>The loop of \<^verbatim>\<open>circular_init\<close> that nulls every slot.\<close>

function circular_clear :: "nat \<Rightarrow> Byte list \<Rightarrow> Byte list option" where
  "circular_clear i buf =
     (if i < MAX_VAL then do {
        buf \<leftarrow> arr_set buf (int i) 0;
        circular_clear (Suc i) buf }
      else Some buf)"
  by pat_completeness auto
termination
  by (relation "measure (\<lambda>(i, buf). MAX_VAL - i)") auto

declare circular_clear.simps [simp del]

definition circular_init :: "circular_buffer \<Rightarrow> circular_buffer option" where
  "circular_init buff = do {
     buf \<leftarrow> circular_clear 0 (cb_buffer buff);
     Some (buff\<lparr>cb_read := 0, cb_write := 0, cb_buffer := buf\<rparr>) }"

definition circular_empty :: "circular_buffer \<Rightarrow> bool option" where
  "circular_empty buff = do {
     c \<leftarrow> arr_get (cb_buffer buff) (cb_read buff);
     Some (c = 0) }"

text \<open>Result of \<^verbatim>\<open>circular_read\<close>: the return value, the character stored at \<^verbatim>\<open>*rd\<close>, the buffer.\<close>

definition circular_read :: "circular_buffer \<Rightarrow> (int \<times> Byte \<times> circular_buffer) option" where
  "circular_read buff = do {
     e \<leftarrow> circular_empty buff;
     if \<not> e then do {
       rd \<leftarrow> arr_get (cb_buffer buff) (cb_read buff);
       buf \<leftarrow> arr_set (cb_buffer buff) (cb_read buff) 0;
       Some (1, rd, buff\<lparr>cb_buffer := buf, cb_read := (cb_read buff + 1) mod int MAX_VAL\<rparr>) }
     else Some (- ENOINP, 0, buff) }"

definition circular_write :: "circular_buffer \<Rightarrow> Byte \<Rightarrow> circular_buffer option" where
  "circular_write buff wr = do {
     buf \<leftarrow> arr_set (cb_buffer buff) (cb_write buff) wr;
     Some (buff\<lparr>cb_buffer := buf, cb_write := (cb_write buff + 1) mod int MAX_VAL\<rparr>) }"

section \<open>The queue a buffer stands for\<close>

definition cb_wf :: "circular_buffer \<Rightarrow> bool" where
  "cb_wf b \<longleftrightarrow> length (cb_buffer b) = MAX_VAL \<and>
     0 \<le> cb_read b \<and> cb_read b < int MAX_VAL \<and> 0 \<le> cb_write b \<and> cb_write b < int MAX_VAL"

text \<open>
  \<open>cb_slots b xs\<close>: from the read index on, the slots hold \<open>xs\<close> and then nulls. This is all
  that reading depends on. \<open>cb_rep\<close> adds that the write index points behind the last character.
\<close>

definition cb_slots :: "circular_buffer \<Rightarrow> Byte list \<Rightarrow> bool" where
  "cb_slots b xs \<longleftrightarrow> cb_wf b \<and> length xs \<le> MAX_VAL \<and> 0 \<notin> set xs \<and>
     (\<forall>k < MAX_VAL. cb_buffer b ! ((nat (cb_read b) + k) mod MAX_VAL)
        = (if k < length xs then xs ! k else 0))"

definition cb_rep :: "circular_buffer \<Rightarrow> Byte list \<Rightarrow> bool" where
  "cb_rep b xs \<longleftrightarrow> cb_slots b xs \<and> cb_write b = (cb_read b + int (length xs)) mod int MAX_VAL"

text \<open>The indices stay in range and the buffer keeps its size whatever is read or written.\<close>

lemma circular_clear_zero:
  "length buf = MAX_VAL \<Longrightarrow> i \<le> MAX_VAL \<Longrightarrow>
   circular_clear i buf = Some (take i buf @ replicate (MAX_VAL - i) 0)"
proof (induction i buf rule: circular_clear.induct)
  case (1 i buf)
  show ?case
  proof (cases "i < MAX_VAL")
    case True
    with "1.prems" have "circular_clear (Suc i) (buf[i := 0])
        = Some (take (Suc i) (buf[i := 0]) @ replicate (MAX_VAL - Suc i) 0)"
      using "1.IH" [OF True, of "buf[i := 0]"] by simp
    moreover have "take (Suc i) (buf[i := 0]) = take i buf @ [0]"
      using True "1.prems" by (simp add: take_Suc_conv_app_nth)
    moreover have "replicate (MAX_VAL - i) (0::Byte) = 0 # replicate (MAX_VAL - Suc i) 0"
      using True by (metis Suc_diff_Suc replicate_Suc)
    ultimately show ?thesis using True "1.prems" by (simp add: circular_clear.simps [of i buf])
  next
    case False
    with "1.prems" show ?thesis by (subst circular_clear.simps) simp
  qed
qed

lemma circular_init_run:
  "length (cb_buffer b) = MAX_VAL \<Longrightarrow>
   circular_init b = Some (b\<lparr>cb_read := 0, cb_write := 0, cb_buffer := replicate MAX_VAL 0\<rparr>)"
  by (simp add: circular_init_def circular_clear_zero)

lemma circular_read_run:
  "cb_wf b \<Longrightarrow> circular_read b =
     (if cb_buffer b ! nat (cb_read b) = 0 then Some (- ENOINP, 0, b)
      else Some (1, cb_buffer b ! nat (cb_read b),
        b\<lparr>cb_buffer := (cb_buffer b)[nat (cb_read b) := 0], cb_read := (cb_read b + 1) mod 8\<rparr>))"
  by (simp add: circular_read_def circular_empty_def arr_get_def arr_set_def cb_wf_def)

lemma circular_write_run:
  "cb_wf b \<Longrightarrow> circular_write b c =
     Some (b\<lparr>cb_buffer := (cb_buffer b)[nat (cb_write b) := c], cb_write := (cb_write b + 1) mod 8\<rparr>)"
  by (simp add: circular_write_def arr_set_def cb_wf_def)

lemma circular_read_wf: "cb_wf b \<Longrightarrow> circular_read b = Some (r, c, b') \<Longrightarrow> cb_wf b'"
  by (simp add: circular_read_run cb_wf_def split: if_splits) (auto simp: cb_wf_def)

lemma circular_write_wf: "cb_wf b \<Longrightarrow> circular_write b c = Some b' \<Longrightarrow> cb_wf b'"
  by (auto simp: circular_write_run) (auto simp: cb_wf_def)

lemma mod8_inj:
  assumes "i < (8::nat)" "j < 8"
  shows "(r + i) mod 8 = (r + j) mod 8 \<longleftrightarrow> i = j"
proof
  assume e: "(r + i) mod 8 = (r + j) mod 8"
  show "i = j"
  proof (cases "i \<le> j")
    case True
    then obtain s where "r + j = r + i + 8 * s" using e by (auto elim: mod_eq_nat2E)
    with assms show ?thesis by simp
  next
    case False
    then obtain s where "r + i = r + j + 8 * s" using e by (auto elim: mod_eq_nat1E)
    with assms show ?thesis by simp
  qed
qed simp

lemma cb_rep_slots: "cb_rep b xs \<Longrightarrow> cb_slots b xs"
  by (simp add: cb_rep_def)

lemma cb_slots_nth:
  "cb_slots b xs \<Longrightarrow> k < 8 \<Longrightarrow>
   cb_buffer b ! ((nat (cb_read b) + k) mod 8) = (if k < length xs then xs ! k else 0)"
  unfolding cb_slots_def by blast

lemma cb_rep_init: "length (cb_buffer b) = MAX_VAL \<Longrightarrow> \<exists>b'. circular_init b = Some b' \<and> cb_rep b' []"
  by (auto simp: circular_init_run cb_rep_def cb_slots_def cb_wf_def)

lemma cb_slots_front: "cb_slots b xs \<Longrightarrow> cb_buffer b ! nat (cb_read b) = (case xs of [] \<Rightarrow> 0 | x # _ \<Rightarrow> x)"
proof -
  assume r: "cb_slots b xs"
  then have "nat (cb_read b) mod 8 = nat (cb_read b)" by (auto simp: cb_slots_def cb_wf_def)
  with cb_slots_nth [OF r, of 0] show ?thesis by (auto split: list.split)
qed

lemma cb_slots_empty: "cb_slots b xs \<Longrightarrow> circular_empty b = Some (xs = [])"
  by (frule cb_slots_front) (auto simp: circular_empty_def arr_get_def cb_slots_def cb_wf_def split: list.splits)

lemma cb_slots_read_none: "cb_slots b [] \<Longrightarrow> circular_read b = Some (- ENOINP, 0, b)"
  by (frule cb_slots_front) (simp add: circular_read_run cb_slots_def)

lemma cb_slots_read:
  assumes "cb_slots b (x # xs)"
  shows "\<exists>b'. circular_read b = Some (1, x, b') \<and> cb_slots b' xs
    \<and> cb_read b' = (cb_read b + 1) mod 8 \<and> cb_write b' = cb_write b"
proof -
  define r where "r = nat (cb_read b)"
  let ?b = "b\<lparr>cb_buffer := (cb_buffer b)[r := 0], cb_read := (cb_read b + 1) mod 8\<rparr>"
  from assms have wf: "cb_wf b" and x: "x \<noteq> 0" and r: "cb_read b = int r" "r < 8"
    by (auto simp: cb_slots_def cb_wf_def r_def)
  have run: "circular_read b = Some (1, x, ?b)"
    using circular_read_run [OF wf] cb_slots_front [OF assms] x by (simp add: r_def)
  have next_r: "nat ((int r + 1) mod 8) = (r + 1) mod 8" by (simp add: nat_mod_distrib nat_add_distrib)
  have "cb_buffer ?b ! ((nat (cb_read ?b) + k) mod 8) = (if k < length xs then xs ! k else 0)"
    if k: "k < 8" for k
  proof (cases "k = 7")
    case True
    have "((r + 1) mod 8 + 7) mod 8 = r" using r by (simp add: mod_simps)
    then show ?thesis using True assms r wf next_r by (auto simp: cb_slots_def cb_wf_def)
  next
    case False
    then have k7: "k < 7" using k by simp
    have i: "((r + 1) mod 8 + k) mod 8 = (r + Suc k) mod 8" by (simp add: mod_simps)
    have ne: "(r + Suc k) mod 8 \<noteq> r" using mod8_inj [of "Suc k" 0 r] r k7 by simp
    have "cb_buffer b ! ((r + Suc k) mod 8) = (if Suc k < length (x # xs) then (x # xs) ! Suc k else 0)"
      using cb_slots_nth [OF assms, of "Suc k"] k7 by (simp only: r_def)
    then show ?thesis using r wf next_r i ne by (simp add: cb_wf_def)
  qed
  then have "cb_slots ?b xs"
    using assms wf by (auto simp: cb_slots_def cb_wf_def)
  with run show ?thesis by auto
qed

lemma cb_slots_write:
  assumes "cb_slots b xs" and "cb_write b = (cb_read b + int j) mod 8" and "j \<le> length xs" and "j < 8"
    and "c \<noteq> 0"
  shows "\<exists>b'. circular_write b c = Some b' \<and> cb_slots b' (if j < length xs then xs[j := c] else xs @ [c])
    \<and> cb_read b' = cb_read b \<and> cb_write b' = (cb_read b + int (Suc j)) mod 8"
proof -
  define r where "r = nat (cb_read b)"
  define w where "w = (r + j) mod 8"
  let ?b = "b\<lparr>cb_buffer := (cb_buffer b)[w := c], cb_write := (cb_write b + 1) mod 8\<rparr>"
  let ?ys = "if j < length xs then xs[j := c] else xs @ [c]"
  from assms have wf: "cb_wf b" and r: "cb_read b = int r" "r < 8"
    by (auto simp: cb_slots_def cb_wf_def r_def)
  with assms have w: "cb_write b = int w" "w < 8" by (auto simp: w_def zmod_int)
  then have run: "circular_write b c = Some ?b" using circular_write_run [OF wf] by simp
  have "cb_buffer ?b ! ((r + k) mod 8) = (if k < length ?ys then ?ys ! k else 0)"
    if k: "k < 8" for k
  proof -
    have "(r + k) mod 8 = w \<longleftrightarrow> k = j" unfolding w_def using assms(4) k by (simp add: mod8_inj)
    moreover have "cb_buffer b ! ((r + k) mod 8) = (if k < length xs then xs ! k else 0)"
      using cb_slots_nth [OF assms(1) k] by (simp only: r_def)
    ultimately show ?thesis using w wf assms(3) by (auto simp: nth_list_update cb_wf_def nth_append)
  qed
  moreover have "0 \<notin> set ?ys" using assms(1,5) set_update_subset_insert [of xs j c] by (auto simp: cb_slots_def)
  ultimately have "cb_slots ?b ?ys"
    using assms wf w r by (auto simp: cb_slots_def cb_wf_def)
  moreover have "(cb_write b + 1) mod 8 = (cb_read b + int (Suc j)) mod 8"
    using assms(2) by (simp add: mod_simps) (simp add: ac_simps)
  ultimately show ?thesis using run by auto
qed

section \<open>The contract of the buffer\<close>

text \<open>Writing a list of characters, and reading a number of times.\<close>

fun puts :: "('b \<Rightarrow> 'c \<Rightarrow> 'b option) \<Rightarrow> 'c list \<Rightarrow> 'b \<Rightarrow> 'b option" where
  "puts put [] b = Some b"
| "puts put (c # cs) b = do { b \<leftarrow> put b c; puts put cs b }"

fun gets :: "('b \<Rightarrow> ('r \<times> 'c \<times> 'b) option) \<Rightarrow> nat \<Rightarrow> 'b \<Rightarrow> (('r \<times> 'c) list \<times> 'b) option" where
  "gets get 0 b = Some ([], b)"
| "gets get (Suc n) b = do {
     (r, c, b) \<leftarrow> get b;
     (rs, b) \<leftarrow> gets get n b;
     Some ((r, c) # rs, b) }"

lemma puts_append: "puts put (xs @ ys) b = puts put xs b \<bind> puts put ys"
  by (induction xs arbitrary: b) (auto split: Option.bind_split)

locale bounded_fifo =
  fixes rep :: "'b \<Rightarrow> 'c list \<Rightarrow> bool"
    and cap :: nat
    and ok :: "'c \<Rightarrow> bool"
    and put :: "'b \<Rightarrow> 'c \<Rightarrow> 'b option"
    and get :: "'b \<Rightarrow> ('r \<times> 'c \<times> 'b) option"
    and got :: 'r
    and none :: "'r \<times> 'c"
  assumes rep_cap: "rep b xs \<Longrightarrow> length xs \<le> cap"
    and put: "rep b xs \<Longrightarrow> length xs < cap \<Longrightarrow> ok c \<Longrightarrow> \<exists>b'. put b c = Some b' \<and> rep b' (xs @ [c])"
    and get_Cons: "rep b (x # xs) \<Longrightarrow> \<exists>b'. get b = Some (got, x, b') \<and> rep b' xs"
    and get_Nil: "rep b [] \<Longrightarrow> get b = Some (fst none, snd none, b)"
begin

lemma puts_rep:
  assumes "rep b xs" and "length xs + length cs \<le> cap" and "list_all ok cs"
  shows "\<exists>b'. puts put cs b = Some b' \<and> rep b' (xs @ cs)"
  using assms
proof (induction cs arbitrary: b xs)
  case Nil
  then show ?case by simp
next
  case (Cons c cs)
  with put [of b xs c] obtain b' where "put b c = Some b'" "rep b' (xs @ [c])" by auto
  with Cons.IH [of b' "xs @ [c]"] Cons.prems show ?case by simp
qed

lemma gets_rep:
  assumes "rep b (xs @ ys)"
  shows "\<exists>b'. gets get (length xs) b = Some (map (Pair got) xs, b') \<and> rep b' ys"
  using assms
proof (induction xs arbitrary: b)
  case Nil
  then show ?case by simp
next
  case (Cons x xs)
  with get_Cons [of b x "xs @ ys"] obtain b' where "get b = Some (got, x, b')" "rep b' (xs @ ys)"
    by auto
  with Cons.IH [of b'] show ?case by auto
qed

text \<open>What is written, at most \<open>cap\<close> characters, is read back in order; then there is no input.\<close>

lemma puts_gets:
  assumes "rep b []" and "length cs \<le> cap" and "list_all ok cs"
  shows "\<exists>b1 b2. puts put cs b = Some b1 \<and> gets get (length cs) b1 = Some (map (Pair got) cs, b2)
    \<and> rep b2 [] \<and> get b2 = Some (fst none, snd none, b2)"
proof -
  from puts_rep [OF assms(1), of cs] assms obtain b1 where "puts put cs b = Some b1" "rep b1 cs" by auto
  with gets_rep [of b1 cs "[]"] get_Nil show ?thesis by auto
qed

end

interpretation kb: bounded_fifo cb_rep MAX_VAL "\<lambda>c. c \<noteq> 0" circular_write circular_read 1 "(- ENOINP, 0)"
proof unfold_locales
  fix b xs and c :: Byte
  show "cb_rep b xs \<Longrightarrow> length xs \<le> MAX_VAL" by (simp add: cb_rep_def cb_slots_def)
  show "cb_rep b [] \<Longrightarrow> circular_read b = Some (fst (- ENOINP, 0), snd (- ENOINP, 0), b)"
    by (simp add: cb_slots_read_none cb_rep_slots)
  show "\<exists>b'. circular_write b c = Some b' \<and> cb_rep b' (xs @ [c])"
    if "cb_rep b xs" "length xs < MAX_VAL" "c \<noteq> 0"
    using cb_slots_write [of b xs "length xs" c] that by (auto simp: cb_rep_def)
next
  fix b xs and x :: Byte
  assume r: "cb_rep b (x # xs)"
  from cb_slots_read [OF cb_rep_slots [OF r]] obtain b' where b': "circular_read b = Some (1, x, b')"
    "cb_slots b' xs" "cb_read b' = (cb_read b + 1) mod 8" "cb_write b' = cb_write b" by blast
  with r have "cb_rep b' xs" by (simp add: cb_rep_def mod_simps) (simp add: ac_simps)
  with b' show "\<exists>b'. circular_read b = Some (1, x, b') \<and> cb_rep b' xs" by blast
qed

section \<open>Writing to a full buffer\<close>

lemma gets_slots:
  assumes "cb_slots b xs"
  shows "\<exists>b'. gets circular_read (length xs) b = Some (map (Pair 1) xs, b') \<and> cb_slots b' []"
  using assms
proof (induction xs arbitrary: b)
  case Nil
  then show ?case by simp
next
  case (Cons x xs)
  with cb_slots_read [of b x xs] obtain b' where "circular_read b = Some (1, x, b')" "cb_slots b' xs"
    by blast
  with Cons.IH [of b'] show ?case by auto
qed

lemma circular_write_full:
  assumes "cb_rep b (x # xs)" and "length xs = 7" and "c \<noteq> 0"
  shows "\<exists>b'. circular_write b c = Some b' \<and> cb_slots b' (c # xs)
    \<and> cb_read b' = cb_read b \<and> cb_write b' = (cb_read b + 1) mod 8"
proof -
  from assms(1,2) have "cb_write b = (cb_read b + int 0) mod 8" by (simp add: cb_rep_def)
  with cb_slots_write [OF cb_rep_slots [OF assms(1)] this _ _ assms(3)] show ?thesis by simp
qed

lemma puts_over_full:
  assumes "cb_slots b xs" and "length xs = 8" and "cb_write b = (cb_read b + int j) mod 8"
    and "j + length cs \<le> 8" and "0 \<notin> set cs"
  shows "\<exists>b'. puts circular_write cs b = Some b' \<and> cb_slots b' (take j xs @ cs @ drop (j + length cs) xs)"
  using assms
proof (induction cs arbitrary: b xs j)
  case Nil
  then show ?case by simp
next
  case (Cons c cs)
  then have "j < length xs" by simp
  with cb_slots_write [of b xs j c] Cons.prems obtain b' where b': "circular_write b c = Some b'"
    "cb_slots b' (xs[j := c])" "cb_read b' = cb_read b" "cb_write b' = (cb_read b + int (Suc j)) mod 8" by auto
  with Cons.IH [of b' "xs[j := c]" "Suc j"] Cons.prems \<open>j < length xs\<close> show ?case
    by (auto simp: take_Suc_conv_app_nth drop_update_cancel)
qed

section \<open>Properties\<close>

text \<open>
  C17. First in, first out: after \<open>circular_init\<close>, any sequence of at most eight non-null
  characters written to the buffer is read back complete and in order, each read returning 1,
  and the next read returns \<open>-ENOINP\<close> with the null character.
\<close>

theorem circular_fifo:
  assumes "length (cb_buffer b) = MAX_VAL" and "length cs \<le> MAX_VAL" and "0 \<notin> set cs"
  shows "\<exists>b0 b1 b2. circular_init b = Some b0 \<and> puts circular_write cs b0 = Some b1
    \<and> gets circular_read (length cs) b1 = Some (map (Pair 1) cs, b2)
    \<and> circular_read b2 = Some (- ENOINP, 0, b2)"
proof -
  from cb_rep_init [OF assms(1)] obtain b0 where b0: "circular_init b = Some b0" "cb_rep b0 []" by blast
  from assms(3) have "list_all (\<lambda>c. c \<noteq> 0) cs" by (auto simp: list_all_iff)
  from kb.puts_gets [OF b0(2) assms(2) this] b0(1) show ?thesis by auto
qed

theorem circular_fifo_witness:
  "\<exists>b0 b1 b2. circular_init \<lparr>cb_buffer = [9,8,7,6,5,4,3,2], cb_read = 3, cb_write = 6\<rparr> = Some b0
    \<and> puts circular_write [113, 119, 101] b0 = Some b1
    \<and> gets circular_read (length [113 :: Byte, 119, 101]) b1 = Some (map (Pair 1) [113, 119, 101], b2)
    \<and> circular_read b2 = Some (- ENOINP, 0, b2)"
  by (rule circular_fifo) simp_all

text \<open>
  C32. Overflow: when \<open>8 + j\<close> characters are written to an empty buffer, the last \<open>j\<close> of them
  replace the first \<open>j\<close> in place, so reading gives the \<open>j\<close> newest characters first and the
  other ones after them (ten keys \<open>qwertyuiop\<close> are read as \<open>opertyui\<close>).
\<close>

theorem circular_overflow_order:
  assumes "length (cb_buffer b) = MAX_VAL" and "length cs = MAX_VAL + j" and "j \<le> MAX_VAL" and "0 \<notin> set cs"
  shows "\<exists>b0 b1 b2. circular_init b = Some b0 \<and> puts circular_write cs b0 = Some b1
    \<and> gets circular_read MAX_VAL b1 = Some (map (Pair 1) (drop 8 cs @ drop j (take 8 cs)), b2)"
proof -
  let ?f = "take 8 cs" and ?l = "drop 8 cs"
  have len: "length ?f = 8" "length ?l = j" using assms(2) by simp_all
  have nz: "0 \<notin> set ?f" "0 \<notin> set ?l" using assms(4) in_set_takeD in_set_dropD by metis+
  from cb_rep_init [OF assms(1)] obtain b0 where b0: "circular_init b = Some b0" "cb_rep b0 []" by blast
  from kb.puts_rep [OF b0(2), of ?f] nz(1) obtain bf where bf: "puts circular_write ?f b0 = Some bf" "cb_rep bf ?f"
    by (auto simp: list_all_iff)
  then have "cb_write bf = (cb_read bf + int 0) mod 8" using len by (simp add: cb_rep_def)
  from puts_over_full [OF cb_rep_slots [OF bf(2)] len(1) this _ nz(2)] len assms(3)
  obtain b1 where b1: "puts circular_write ?l bf = Some b1" "cb_slots b1 (?l @ drop j ?f)" by auto
  from puts_append [of circular_write ?f ?l b0] bf(1) b1(1) have "puts circular_write cs b0 = Some b1"
    by simp
  moreover have l8: "length (?l @ drop j ?f) = 8" using len assms(3) by simp
  from gets_slots [OF b1(2)] obtain b2 where "gets circular_read 8 b1 = Some (map (Pair 1) (?l @ drop j ?f), b2)"
    unfolding l8 by blast
  ultimately show ?thesis using b0(1) by blast
qed

theorem circular_overflow_order_witness:
  "\<exists>b0 b1 b2. circular_init \<lparr>cb_buffer = replicate 8 0, cb_read = 0, cb_write = 0\<rparr> = Some b0
    \<and> puts circular_write (map of_char ''qwertyuiop'') b0 = Some b1
    \<and> gets circular_read MAX_VAL b1 = Some (map (Pair 1) (drop 8 (map of_char ''qwertyuiop'')
        @ drop 2 (take 8 (map of_char ''qwertyuiop''))), b2)
    \<and> drop 8 (map of_char ''qwertyuiop'') @ drop 2 (take 8 (map of_char ''qwertyuiop''))
        = (map of_char ''opertyui'' :: Byte list)"
  using circular_overflow_order [of "\<lparr>cb_buffer = replicate 8 0, cb_read = 0, cb_write = 0\<rparr>"
      "map of_char ''qwertyuiop''" 2] by simp

text \<open>
  C33. After an overflow the buffer loses characters it has room for: from a full buffer, one
  more write, one read (which frees a slot) and one further write overwrite the oldest unread
  character \<open>y\<close>, although the freed slot is null.
\<close>

theorem circular_overflow_loses:
  assumes "cb_rep b (x # y # ys)" and "length ys = 6" and "c \<noteq> 0" and "d \<noteq> 0"
  shows "\<exists>b1 b2 b3 b4. circular_write b c = Some b1 \<and> circular_read b1 = Some (1, c, b2)
    \<and> 0 \<in> set (cb_buffer b2) \<and> circular_write b2 d = Some b3
    \<and> gets circular_read 7 b3 = Some (map (Pair 1) (d # ys), b4)"
proof -
  from circular_write_full [of b x "y # ys" c] assms obtain b1 where b1: "circular_write b c = Some b1"
    "cb_slots b1 (c # y # ys)" "cb_read b1 = cb_read b" "cb_write b1 = (cb_read b + 1) mod 8" by auto
  from cb_slots_read [OF b1(2)] obtain b2 where b2: "circular_read b1 = Some (1, c, b2)"
    "cb_slots b2 (y # ys)" "cb_read b2 = (cb_read b1 + 1) mod 8" "cb_write b2 = cb_write b1" by blast
  have "(cb_read b2 + int 7) mod 8 = cb_read b1"
    using b1(2) b2(3) by (auto simp: cb_slots_def cb_wf_def mod_simps)
  with cb_slots_nth [OF b2(2), of 7] assms(2) b2(2)
  have "cb_buffer b2 ! ((nat (cb_read b2) + 7) mod 8) = 0" "(nat (cb_read b2) + 7) mod 8 < length (cb_buffer b2)"
    by (simp_all add: cb_slots_def cb_wf_def)
  then have z: "0 \<in> set (cb_buffer b2)" by (metis nth_mem)
  have "cb_write b2 = (cb_read b2 + int 0) mod 8" using b1 b2 by simp
  from cb_slots_write [OF b2(2) this _ _ assms(4)] obtain b3 where b3: "circular_write b2 d = Some b3"
    "cb_slots b3 (d # ys)" by auto
  from gets_slots [OF b3(2)] assms(2) b1(1) b2(1) b3(1) z show ?thesis by auto
qed

theorem circular_overflow_loses_witness:
  "\<exists>b1 b2 b3 b4. circular_write \<lparr>cb_buffer = [1,2,3,4,5,6,7,8], cb_read = 0, cb_write = 0\<rparr> 9 = Some b1
    \<and> circular_read b1 = Some (1, 9, b2) \<and> 0 \<in> set (cb_buffer b2) \<and> circular_write b2 10 = Some b3
    \<and> gets circular_read 7 b3 = Some (map (Pair 1) (10 # [3, 4, 5, 6, 7, 8]), b4)"
proof (rule circular_overflow_loses [where x = 1 and y = 2])
  show "cb_rep \<lparr>cb_buffer = [1,2,3,4,5,6,7,8], cb_read = 0, cb_write = 0\<rparr> (1 # 2 # [3, 4, 5, 6, 7, 8])"
    by code_simp
qed simp_all

end
