(* ===== verification/Zeos_List.thy ===== *)
theory Zeos_List
  imports Zeos_Prelude
begin

text \<open>
  The intrusive doubly linked lists of \<^verbatim>\<open>zeOS/list.c\<close> and \<^verbatim>\<open>include/list.h\<close>, on an explicit
  store of \<^verbatim>\<open>struct list_head\<close> nodes. A pointer is \<^term>\<open>None\<close> (null) or the address of a
  node; the address type is a parameter. The operations follow the order of the reads and
  writes of the C code, so that aliasing between the list head and its neighbours (the empty
  and the one-element list) is the code's own.

  The abstraction \<open>qheap\<close> says that a store holds a family of disjoint circular lists, one
  per head, and that every other node is detached. The locale \<open>queue_store\<close> is the contract
  the scheduler relies on; it is interpreted on the code at the end of the theory.
\<close>

section \<open>The store\<close>

record 'a list_head =
  lh_next :: "'a option"
  lh_prev :: "'a option"

type_synonym 'a lheap = "'a \<Rightarrow> 'a list_head option"

definition get_next :: "'a option \<Rightarrow> 'a lheap \<Rightarrow> 'a option option" where
  "get_next p h = do { a \<leftarrow> p; n \<leftarrow> h a; Some (lh_next n) }"

definition get_prev :: "'a option \<Rightarrow> 'a lheap \<Rightarrow> 'a option option" where
  "get_prev p h = do { a \<leftarrow> p; n \<leftarrow> h a; Some (lh_prev n) }"

definition set_next :: "'a option \<Rightarrow> 'a option \<Rightarrow> 'a lheap \<Rightarrow> 'a lheap option" where
  "set_next p v h = do { a \<leftarrow> p; n \<leftarrow> h a; Some (h(a \<mapsto> n\<lparr>lh_next := v\<rparr>)) }"

definition set_prev :: "'a option \<Rightarrow> 'a option \<Rightarrow> 'a lheap \<Rightarrow> 'a lheap option" where
  "set_prev p v h = do { a \<leftarrow> p; n \<leftarrow> h a; Some (h(a \<mapsto> n\<lparr>lh_prev := v\<rparr>)) }"

section \<open>The operations of list.c\<close>

definition INIT_LIST_HEAD :: "'a option \<Rightarrow> 'a lheap \<Rightarrow> 'a lheap option" where
  "INIT_LIST_HEAD l h = do {
     h \<leftarrow> set_next l l h;
     set_prev l l h }"

text \<open>\<^verbatim>\<open>__list_add\<close>: insert \<open>new\<close> between two known consecutive entries.\<close>

definition list_add_between ::
  "'a option \<Rightarrow> 'a option \<Rightarrow> 'a option \<Rightarrow> 'a lheap \<Rightarrow> 'a lheap option" where
  "list_add_between new prv nxt h = do {
     h \<leftarrow> set_prev nxt new h;
     h \<leftarrow> set_next new nxt h;
     h \<leftarrow> set_prev new prv h;
     set_next prv new h }"

definition list_add :: "'a option \<Rightarrow> 'a option \<Rightarrow> 'a lheap \<Rightarrow> 'a lheap option" where
  "list_add new head h = do {
     n \<leftarrow> get_next head h;
     list_add_between new head n h }"

definition list_add_tail :: "'a option \<Rightarrow> 'a option \<Rightarrow> 'a lheap \<Rightarrow> 'a lheap option" where
  "list_add_tail new head h = do {
     p \<leftarrow> get_prev head h;
     list_add_between new p head h }"

text \<open>\<^verbatim>\<open>__list_del\<close>: make two entries point to each other.\<close>

definition list_del_between :: "'a option \<Rightarrow> 'a option \<Rightarrow> 'a lheap \<Rightarrow> 'a lheap option" where
  "list_del_between prv nxt h = do {
     h \<leftarrow> set_prev nxt prv h;
     set_next prv nxt h }"

definition list_del :: "'a option \<Rightarrow> 'a lheap \<Rightarrow> 'a lheap option" where
  "list_del entry h = do {
     p \<leftarrow> get_prev entry h;
     n \<leftarrow> get_next entry h;
     h \<leftarrow> list_del_between p n h;
     h \<leftarrow> set_next entry None h;
     set_prev entry None h }"

definition list_is_last :: "'a option \<Rightarrow> 'a option \<Rightarrow> 'a lheap \<Rightarrow> bool option" where
  "list_is_last l head h = do { n \<leftarrow> get_next l h; Some (n = head) }"

definition list_empty :: "'a option \<Rightarrow> 'a lheap \<Rightarrow> bool option" where
  "list_empty head h = do { n \<leftarrow> get_next head h; Some (n = head) }"

definition list_first :: "'a option \<Rightarrow> 'a lheap \<Rightarrow> 'a option option" where
  "list_first head h = get_next head h"

text \<open>
  \<^verbatim>\<open>list_for_each(pos, head)\<close>: the nodes the cursor visits. The walk over a corrupt list may
  not end, so it takes fuel; on a well-formed list of \<open>n\<close> entries, \<open>n + 1\<close> units suffice.
\<close>

fun list_walk :: "nat \<Rightarrow> 'a option \<Rightarrow> 'a option \<Rightarrow> 'a lheap \<Rightarrow> 'a list option" where
  "list_walk 0 pos head h = None"
| "list_walk (Suc fuel) pos head h =
     (if pos = head then Some []
      else do {
        a \<leftarrow> pos;
        n \<leftarrow> get_next pos h;
        xs \<leftarrow> list_walk fuel n head h;
        Some (a # xs) })"

definition list_for_each :: "nat \<Rightarrow> 'a option \<Rightarrow> 'a lheap \<Rightarrow> 'a list option" where
  "list_for_each fuel head h = do {
     n \<leftarrow> get_next head h;
     list_walk fuel n head h }"

lemmas list_op_defs =
  get_next_def get_prev_def set_next_def set_prev_def INIT_LIST_HEAD_def
  list_add_between_def list_add_def list_add_tail_def list_del_between_def list_del_def
  list_is_last_def list_empty_def list_first_def list_for_each_def

section \<open>Segments and circular lists\<close>

text \<open>\<open>edge h a b\<close>: \<open>a\<close>'s next is \<open>b\<close> and \<open>b\<close>'s prev is \<open>a\<close>.\<close>

definition edge :: "'a lheap \<Rightarrow> 'a \<Rightarrow> 'a \<Rightarrow> bool" where
  "edge h a b \<longleftrightarrow> map_option lh_next (h a) = Some (Some b) \<and> map_option lh_prev (h b) = Some (Some a)"

fun dseg :: "'a lheap \<Rightarrow> 'a \<Rightarrow> 'a list \<Rightarrow> 'a \<Rightarrow> bool" where
  "dseg h a [] b = edge h a b"
| "dseg h a (x # xs) b = (edge h a x \<and> dseg h x xs b)"

definition is_queue :: "'a lheap \<Rightarrow> 'a \<Rightarrow> 'a list \<Rightarrow> bool" where
  "is_queue h q xs \<longleftrightarrow> dseg h q xs q \<and> distinct (q # xs)"

lemma dseg_append [simp]: "dseg h a (xs @ y # ys) b \<longleftrightarrow> dseg h a xs y \<and> dseg h y ys b"
  by (induction xs arbitrary: a) auto

text \<open>A segment depends on the next field of its start, the prev field of its end and both
  fields of the nodes between them.\<close>

lemma dseg_cong:
  assumes "\<forall>x \<in> set (a # xs). map_option lh_next (h' x) = map_option lh_next (h x)"
    and "\<forall>x \<in> set (xs @ [b]). map_option lh_prev (h' x) = map_option lh_prev (h x)"
  shows "dseg h' a xs b = dseg h a xs b"
  using assms by (induction xs arbitrary: a) (auto simp: edge_def)

lemma dseg_in_dom: "dseg h a xs b \<Longrightarrow> set (a # xs @ [b]) \<subseteq> dom h"
  by (induction xs arbitrary: a) (auto simp: edge_def)

lemma dseg_next: "dseg h a xs b \<Longrightarrow> get_next (Some a) h = Some (Some (hd (xs @ [b])))"
  by (cases xs) (auto simp: edge_def get_next_def)

lemma dseg_prev: "dseg h a xs b \<Longrightarrow> get_prev (Some b) h = Some (Some (last (a # xs)))"
  by (induction xs arbitrary: a) (auto simp: edge_def get_prev_def)

lemma is_queue_frame:
  assumes "is_queue h q xs" and "\<forall>x \<in> set (q # xs). h' x = h x"
  shows "is_queue h' q xs"
  using assms dseg_cong [of q xs h' h q] by (auto simp: is_queue_def)

lemma is_queue_in_dom: "is_queue h q xs \<Longrightarrow> set (q # xs) \<subseteq> dom h"
  using dseg_in_dom [of h q xs q] by (auto simp: is_queue_def)

section \<open>What the operations do to a circular list\<close>

lemma INIT_LIST_HEAD_queue:
  assumes "q \<in> dom h"
  shows "\<exists>h'. INIT_LIST_HEAD (Some q) h = Some h' \<and> is_queue h' q [] \<and> (\<forall>x. x \<noteq> q \<longrightarrow> h' x = h x)"
  using assms by (auto simp: list_op_defs is_queue_def edge_def)

lemma list_empty_queue: "is_queue h q xs \<Longrightarrow> list_empty (Some q) h = Some (xs = [])"
  by (cases xs) (auto simp: list_op_defs is_queue_def edge_def)

lemma list_first_queue: "is_queue h q xs \<Longrightarrow> list_first (Some q) h = Some (Some (hd (xs @ [q])))"
  unfolding list_first_def is_queue_def by (blast intro: dseg_next)

lemma list_add_tail_queue:
  assumes q: "is_queue h q xs" and new: "new \<in> dom h" "new \<notin> set (q # xs)"
  shows "\<exists>h'. list_add_tail (Some new) (Some q) h = Some h' \<and> is_queue h' q (xs @ [new])
    \<and> (\<forall>x. x \<notin> set (new # q # xs) \<longrightarrow> h' x = h x)"
proof (cases xs rule: rev_cases)
  case Nil
  with q new show ?thesis by (auto simp: list_op_defs is_queue_def edge_def)
next
  case (snoc ys y)
  with q have seg: "dseg h q ys y" and e: "edge h y q" and d: "distinct (q # ys @ [y])"
    by (auto simp: is_queue_def)
  from e new obtain ny nq nn where n: "h y = Some ny" "h q = Some nq" "h new = Some nn"
    and l: "lh_next ny = Some q" "lh_prev nq = Some y" by (auto simp: edge_def)
  define h' where "h' = h(q \<mapsto> nq\<lparr>lh_prev := Some new\<rparr>,
      new \<mapsto> \<lparr>lh_next = Some q, lh_prev = Some y\<rparr>, y \<mapsto> ny\<lparr>lh_next := Some new\<rparr>)"
  have run: "list_add_tail (Some new) (Some q) h = Some h'"
    using n l new d snoc by (auto simp: list_op_defs h'_def fun_upd_twist)
  have "dseg h' q ys y"
    using seg n new d snoc by (subst dseg_cong [where h = h]) (auto simp: h'_def)
  moreover have "edge h' y new" "edge h' new q"
    using n new d snoc by (auto simp: edge_def h'_def)
  ultimately have "is_queue h' q (xs @ [new])"
    using new d snoc by (auto simp: is_queue_def)
  with run show ?thesis by (auto simp: h'_def snoc)
qed

lemma list_add_queue:
  assumes q: "is_queue h q xs" and new: "new \<in> dom h" "new \<notin> set (q # xs)"
  shows "\<exists>h'. list_add (Some new) (Some q) h = Some h' \<and> is_queue h' q (new # xs)
    \<and> (\<forall>x. x \<notin> set (new # q # xs) \<longrightarrow> h' x = h x)"
proof (cases xs)
  case Nil
  with q new show ?thesis by (auto simp: list_op_defs is_queue_def edge_def)
next
  case (Cons y ys)
  with q have seg: "dseg h y ys q" and e: "edge h q y" and d: "distinct (q # y # ys)"
    by (auto simp: is_queue_def)
  from e new obtain ny nq nn where n: "h y = Some ny" "h q = Some nq" "h new = Some nn"
    and l: "lh_next nq = Some y" "lh_prev ny = Some q" by (auto simp: edge_def)
  define h' where "h' = h(y \<mapsto> ny\<lparr>lh_prev := Some new\<rparr>,
      new \<mapsto> \<lparr>lh_next = Some y, lh_prev = Some q\<rparr>, q \<mapsto> nq\<lparr>lh_next := Some new\<rparr>)"
  have run: "list_add (Some new) (Some q) h = Some h'"
    using n l new d Cons by (auto simp: list_op_defs h'_def fun_upd_twist)
  have "dseg h' y ys q"
    using seg n new d Cons by (subst dseg_cong [where h = h]) (auto simp: h'_def)
  moreover have "edge h' q new" "edge h' new y"
    using n new d Cons by (auto simp: edge_def h'_def)
  ultimately have "is_queue h' q (new # xs)"
    using new d Cons by (auto simp: is_queue_def)
  with run show ?thesis by (auto simp: h'_def Cons)
qed

text \<open>Unlinking a node joins the segment before it and the segment after it.\<close>

lemma dseg_join:
  assumes "dseg h a ls x" and "dseg h x rs b" and "distinct (a # ls @ x # rs)"
    and "distinct (ls @ x # rs @ [b])"
    and e: "edge h' (last (a # ls)) (hd (rs @ [b]))"
    and nx: "\<forall>y. y \<noteq> x \<longrightarrow> y \<noteq> last (a # ls) \<longrightarrow> map_option lh_next (h' y) = map_option lh_next (h y)"
    and pv: "\<forall>y. y \<noteq> x \<longrightarrow> y \<noteq> hd (rs @ [b]) \<longrightarrow> map_option lh_prev (h' y) = map_option lh_prev (h y)"
  shows "dseg h' a (ls @ rs) b"
proof (cases ls rule: rev_cases; cases rs)
  assume "ls = []" "rs = []"
  with e show ?thesis by simp
next
  fix c cs assume s: "ls = []" "rs = c # cs"
  with assms have "dseg h' c cs b" by (subst dseg_cong [where h = h]) auto
  with s e show ?thesis by simp
next
  fix ls' l assume s: "ls = ls' @ [l]" "rs = []"
  with assms have "dseg h' a ls' l" by (subst dseg_cong [where h = h]) auto
  with s e show ?thesis by simp
next
  fix ls' l c cs assume s: "ls = ls' @ [l]" "rs = c # cs"
  with assms have "dseg h' a ls' l" by (subst dseg_cong [where h = h]) auto
  moreover from s assms have "dseg h' c cs b" by (subst dseg_cong [where h = h]) auto
  ultimately show ?thesis using s e by simp
qed

lemma list_del_queue:
  assumes q: "is_queue h q (ls @ x # rs)"
  shows "\<exists>h'. list_del (Some x) h = Some h' \<and> is_queue h' q (ls @ rs)
    \<and> h' x = Some \<lparr>lh_next = None, lh_prev = None\<rparr>
    \<and> (\<forall>y. y \<notin> set (q # ls @ x # rs) \<longrightarrow> h' y = h y)"
proof -
  define p n where "p = last (q # ls)" and "n = hd (rs @ [q])"
  from q have seg: "dseg h q ls x" "dseg h x rs q" and d: "distinct (q # ls @ x # rs)"
    by (auto simp: is_queue_def)
  have sub: "p \<in> set (q # ls)" "n \<in> set (q # rs)" by (auto simp: hd_append p_def n_def)
  with d have ne: "p \<noteq> x" "n \<noteq> x" by auto
  from sub is_queue_in_dom [OF q] have "p \<in> dom h" "n \<in> dom h" "x \<in> dom h" by auto
  then obtain np nn nx where h: "h p = Some np" "h n = Some nn" "h x = Some nx" by blast
  from dseg_next [OF seg(2)] dseg_prev [OF seg(1)] h
  have l: "lh_next nx = Some n" "lh_prev nx = Some p"
    unfolding p_def [symmetric] n_def [symmetric] by (auto simp: get_next_def get_prev_def)
  define h1 where "h1 = h(n \<mapsto> nn\<lparr>lh_prev := Some p\<rparr>)"
  define np' where "np' = (if p = n then nn\<lparr>lh_prev := Some p\<rparr> else np)"
  have np': "h1 p = Some np'" using h by (simp add: h1_def np'_def)
  define h' where "h' = h1(p \<mapsto> np'\<lparr>lh_next := Some n\<rparr>, x \<mapsto> \<lparr>lh_next = None, lh_prev = None\<rparr>)"
  have run: "list_del (Some x) h = Some h'"
    using h l np' ne by (auto simp: list_op_defs h'_def h1_def fun_upd_twist)
  have "edge h' p n" using h ne by (auto simp: edge_def h'_def h1_def np'_def)
  moreover have "\<forall>y. y \<noteq> x \<longrightarrow> y \<noteq> p \<longrightarrow> map_option lh_next (h' y) = map_option lh_next (h y)"
    using h by (auto simp: h'_def h1_def)
  moreover have "\<forall>y. y \<noteq> x \<longrightarrow> y \<noteq> n \<longrightarrow> map_option lh_prev (h' y) = map_option lh_prev (h y)"
    using h by (auto simp: h'_def h1_def np'_def)
  ultimately have "dseg h' q (ls @ rs) q"
    unfolding p_def n_def using seg d by (intro dseg_join [of h q ls x rs q h']) (simp_all, blast)
  then have "is_queue h' q (ls @ rs)" using d by (auto simp: is_queue_def)
  moreover have "\<forall>y. y \<notin> set (q # ls @ x # rs) \<longrightarrow> h' y = h y"
    using sub by (auto simp: h'_def h1_def)
  ultimately show ?thesis using run by (auto simp: h'_def)
qed

text \<open>The traversal macro visits exactly the entries, in order, with \<open>n + 1\<close> units of fuel.\<close>

lemma list_walk_dseg:
  assumes "dseg h a xs q" and "q \<notin> set xs" and "length xs < fuel"
  shows "list_walk fuel (Some (hd (xs @ [q]))) (Some q) h = Some xs"
  using assms
proof (induction xs arbitrary: a fuel)
  case Nil
  then show ?case by (cases fuel) auto
next
  case (Cons x xs)
  then obtain f where f: "fuel = Suc f" by (cases fuel) auto
  from Cons.prems have "dseg h x xs q" "x \<noteq> q" by auto
  with dseg_next [OF this(1)] Cons.IH [of x f] Cons.prems f show ?case by simp
qed

lemma list_for_each_queue:
  assumes "is_queue h q xs" and "length xs < fuel"
  shows "list_for_each fuel (Some q) h = Some xs"
  using assms dseg_next [of h q xs q] list_walk_dseg [of h q xs q fuel]
  by (simp add: is_queue_def list_for_each_def)

section \<open>A family of disjoint lists\<close>

definition null_node :: "'a list_head" where
  "null_node = \<lparr>lh_next = None, lh_prev = None\<rparr>"

text \<open>
  \<open>qheap H h Q\<close>: every head \<open>q \<in> H\<close> anchors the list \<open>Q q\<close>, the lists share no node, no
  head is an entry, and every node that is neither a head nor an entry is detached.
\<close>

definition qheap :: "'a set \<Rightarrow> 'a lheap \<Rightarrow> ('a \<Rightarrow> 'a list) \<Rightarrow> bool" where
  "qheap H h Q \<longleftrightarrow>
     (\<forall>q \<in> H. is_queue h q (Q q) \<and> set (Q q) \<inter> H = {}) \<and>
     (\<forall>q \<in> H. \<forall>r \<in> H. q \<noteq> r \<longrightarrow> set (Q q) \<inter> set (Q r) = {}) \<and>
     (\<forall>x \<in> dom h. x \<notin> H \<longrightarrow> (\<forall>q \<in> H. x \<notin> set (Q q)) \<longrightarrow> h x = Some null_node)"

definition detached :: "'a set \<Rightarrow> 'a lheap \<Rightarrow> ('a \<Rightarrow> 'a list) \<Rightarrow> 'a \<Rightarrow> bool" where
  "detached H h Q x \<longleftrightarrow> x \<in> dom h \<and> x \<notin> H \<and> (\<forall>q \<in> H. x \<notin> set (Q q))"

lemma qheapI:
  assumes "qheap H h Q" and "q \<in> H" and "is_queue h' q ys" and "set ys \<subseteq> insert x (set (Q q))"
    and "detached H h Q x \<or> x \<in> set (Q q)" and "x \<in> set ys \<or> h' x = Some null_node"
    and "set (Q q) \<subseteq> insert x (set ys)" and "\<forall>y. y \<notin> set (x # q # Q q) \<longrightarrow> h' y = h y"
  shows "qheap H h' (Q(q := ys))"
proof -
  have other: "is_queue h' r (Q r) \<and> set (Q r) \<inter> H = {} \<and> set (Q r) \<inter> set ys = {}"
    if "r \<in> H" "r \<noteq> q" for r
  proof -
    from that assms(1,2) have "is_queue h r (Q r)" "set (Q r) \<inter> H = {}" "set (Q r) \<inter> set (Q q) = {}"
      "set (Q q) \<inter> H = {}"
      by (auto simp: qheap_def)
    moreover from this that assms(5) have "x \<notin> set (r # Q r)" by (auto simp: detached_def)
    ultimately have d: "\<forall>y \<in> set (r # Q r). y \<notin> set (x # q # Q q)"
      using that assms(2) by (auto simp: disjoint_iff)
    with assms(8) have "is_queue h' r (Q r)"
      by (intro is_queue_frame [OF \<open>is_queue h r (Q r)\<close>]) blast
    moreover have "set (Q r) \<inter> set ys = {}" using d assms(4) by (auto simp: disjoint_iff)
    ultimately show ?thesis using \<open>set (Q r) \<inter> H = {}\<close> by blast
  qed
  have ysH: "set ys \<inter> H = {}"
    using assms(1,2,4,5) by (auto simp: qheap_def detached_def)
  have free: "h' y = Some null_node"
    if "y \<in> dom h'" "y \<notin> H" "\<forall>r \<in> H. y \<notin> set ((Q(q := ys)) r)" for y
  proof (cases "y = x")
    case True
    with that assms(2,6) show ?thesis by auto
  next
    case False
    have ys: "y \<notin> set ys" and oth: "\<forall>r \<in> H. r \<noteq> q \<longrightarrow> y \<notin> set (Q r)"
      using that(3) assms(2) by (auto split: if_splits)
    from ys False assms(2,7) that(2) have nin: "y \<notin> set (x # q # Q q)" by auto
    with oth have "\<forall>r \<in> H. y \<notin> set (Q r)" by auto
    moreover from nin assms(8) have "h' y = h y" by blast
    ultimately show ?thesis using assms(1) that(1,2) by (auto simp: qheap_def dom_def)
  qed
  show ?thesis
    unfolding qheap_def
  proof (intro conjI ballI impI)
    fix r assume "r \<in> H"
    then show "is_queue h' r ((Q(q := ys)) r)" "set ((Q(q := ys)) r) \<inter> H = {}"
      using other [of r] assms(3) ysH by (cases "r = q"; simp)+
    fix r' assume "r' \<in> H" "r \<noteq> r'"
    with \<open>r \<in> H\<close> show "set ((Q(q := ys)) r) \<inter> set ((Q(q := ys)) r') = {}"
      using other [of r] other [of r'] assms(1) by (cases "r = q"; cases "r' = q") (auto simp: qheap_def)
  qed (rule free)
qed

subsection \<open>No operation adds or removes nodes\<close>

lemma set_next_dom: "set_next p v h = Some h' \<Longrightarrow> dom h' = dom h"
  by (auto simp: set_next_def bind_eq_Some_conv split: if_splits)

lemma set_prev_dom: "set_prev p v h = Some h' \<Longrightarrow> dom h' = dom h"
  by (auto simp: set_prev_def bind_eq_Some_conv split: if_splits)

lemmas set_dom = set_next_dom set_prev_dom

lemma list_add_dom: "list_add new q h = Some h' \<Longrightarrow> dom h' = dom h"
  unfolding list_add_def list_add_between_def by (elim bind_eq_SomeE) (metis set_dom)

lemma list_add_tail_dom: "list_add_tail new q h = Some h' \<Longrightarrow> dom h' = dom h"
  unfolding list_add_tail_def list_add_between_def by (elim bind_eq_SomeE) (metis set_dom)

lemma list_del_dom: "list_del x h = Some h' \<Longrightarrow> dom h' = dom h"
  unfolding list_del_def list_del_between_def by (elim bind_eq_SomeE) (metis set_dom)

subsection \<open>The operations on the family\<close>

lemma qheap_queue: "qheap H h Q \<Longrightarrow> q \<in> H \<Longrightarrow> is_queue h q (Q q)"
  by (simp add: qheap_def)

lemma qheap_detached: "qheap H h Q \<Longrightarrow> detached H h Q x \<Longrightarrow> h x = Some null_node"
  by (auto simp: qheap_def detached_def)

lemma qheap_attached:
  assumes "qheap H h Q" and "q \<in> H" and "x \<in> set (Q q)"
  shows "\<exists>p n. h x = Some \<lparr>lh_next = Some n, lh_prev = Some p\<rparr>"
proof -
  from assms obtain ls rs where "Q q = ls @ x # rs" by (meson split_list)
  with qheap_queue [OF assms(1,2)] have s: "dseg h q ls x" "dseg h x rs q"
    by (auto simp: is_queue_def)
  obtain n where "h x = Some n" "lh_next n \<noteq> None" "lh_prev n \<noteq> None"
    using dseg_next [OF s(2)] dseg_prev [OF s(1)]
    by (auto simp: get_next_def get_prev_def bind_eq_Some_conv)
  then show ?thesis by (cases n) auto
qed

lemma qheap_add_tail:
  assumes "qheap H h Q" and "q \<in> H" and "detached H h Q x"
  shows "\<exists>h'. list_add_tail (Some x) (Some q) h = Some h' \<and> qheap H h' (Q(q := Q q @ [x]))"
proof -
  from assms have new: "x \<in> dom h" "x \<notin> set (q # Q q)" by (auto simp: detached_def)
  from list_add_tail_queue [OF qheap_queue [OF assms(1,2)] new] obtain h'
    where h': "list_add_tail (Some x) (Some q) h = Some h'" "is_queue h' q (Q q @ [x])"
      "\<forall>y. y \<notin> set (x # q # Q q) \<longrightarrow> h' y = h y" by blast
  then have "qheap H h' (Q(q := Q q @ [x]))"
    using assms by (intro qheapI [where x = x]) auto
  with h' show ?thesis by blast
qed

lemma qheap_add:
  assumes "qheap H h Q" and "q \<in> H" and "detached H h Q x"
  shows "\<exists>h'. list_add (Some x) (Some q) h = Some h' \<and> qheap H h' (Q(q := x # Q q))"
proof -
  from assms have new: "x \<in> dom h" "x \<notin> set (q # Q q)" by (auto simp: detached_def)
  from list_add_queue [OF qheap_queue [OF assms(1,2)] new] obtain h'
    where h': "list_add (Some x) (Some q) h = Some h'" "is_queue h' q (x # Q q)"
      "\<forall>y. y \<notin> set (x # q # Q q) \<longrightarrow> h' y = h y" by blast
  then have "qheap H h' (Q(q := x # Q q))"
    using assms by (intro qheapI [where x = x]) auto
  with h' show ?thesis by blast
qed

lemma qheap_del:
  assumes "qheap H h Q" and "q \<in> H" and "x \<in> set (Q q)"
  shows "\<exists>h'. list_del (Some x) h = Some h' \<and> qheap H h' (Q(q := remove1 x (Q q)))"
proof -
  from assms(3) obtain ls rs where Q: "Q q = ls @ x # rs" by (meson split_list)
  from qheap_queue [OF assms(1,2)] have iq: "is_queue h q (ls @ x # rs)" by (simp add: Q)
  then have rm: "remove1 x (Q q) = ls @ rs" by (auto simp: Q is_queue_def remove1_append)
  from list_del_queue [OF iq] obtain h'
    where h': "list_del (Some x) h = Some h'" "is_queue h' q (ls @ rs)" "h' x = Some null_node"
      "\<forall>y. y \<notin> set (q # ls @ x # rs) \<longrightarrow> h' y = h y" by (auto simp: null_node_def)
  then have "qheap H h' (Q(q := ls @ rs))"
    using assms Q by (intro qheapI [where x = x]) auto
  with h' rm show ?thesis by simp
qed

section \<open>The contract of the list module\<close>

text \<open>
  What the scheduler and the system calls rely on: named queues over a store whose nodes are
  either an entry of exactly one queue or free.
\<close>

locale queue_store =
  fixes heads :: "'a set"
    and is_empty :: "'a \<Rightarrow> 's \<Rightarrow> bool option"
    and first :: "'a \<Rightarrow> 's \<Rightarrow> 'a option option"
    and del :: "'a \<Rightarrow> 's \<Rightarrow> 's option"
    and add_tail :: "'a \<Rightarrow> 'a \<Rightarrow> 's \<Rightarrow> 's option"
    and add :: "'a \<Rightarrow> 'a \<Rightarrow> 's \<Rightarrow> 's option"
    and nodes :: "'s \<Rightarrow> 'a set"
    and holds :: "'s \<Rightarrow> ('a \<Rightarrow> 'a list) \<Rightarrow> bool"
  assumes is_empty: "holds s Q \<Longrightarrow> q \<in> heads \<Longrightarrow> is_empty q s = Some (Q q = [])"
    and first: "holds s Q \<Longrightarrow> q \<in> heads \<Longrightarrow> first q s = Some (Some (hd (Q q @ [q])))"
    and del: "holds s Q \<Longrightarrow> q \<in> heads \<Longrightarrow> x \<in> set (Q q) \<Longrightarrow>
      \<exists>s'. del x s = Some s' \<and> holds s' (Q(q := remove1 x (Q q)))"
    and add_tail: "holds s Q \<Longrightarrow> q \<in> heads \<Longrightarrow> x \<in> nodes s \<Longrightarrow> x \<notin> heads \<Longrightarrow>
      (\<forall>r \<in> heads. x \<notin> set (Q r)) \<Longrightarrow>
      \<exists>s'. add_tail x q s = Some s' \<and> holds s' (Q(q := Q q @ [x]))"
    and add: "holds s Q \<Longrightarrow> q \<in> heads \<Longrightarrow> x \<in> nodes s \<Longrightarrow> x \<notin> heads \<Longrightarrow>
      (\<forall>r \<in> heads. x \<notin> set (Q r)) \<Longrightarrow>
      \<exists>s'. add x q s = Some s' \<and> holds s' (Q(q := x # Q q))"
    and holds_distinct: "holds s Q \<Longrightarrow> q \<in> heads \<Longrightarrow> distinct (Q q)"
    and holds_disjoint: "holds s Q \<Longrightarrow> q \<in> heads \<Longrightarrow> r \<in> heads \<Longrightarrow> q \<noteq> r \<Longrightarrow> set (Q q) \<inter> set (Q r) = {}"
    and holds_nodes: "holds s Q \<Longrightarrow> q \<in> heads \<Longrightarrow> set (Q q) \<subseteq> nodes s - heads"
    and nodes_del: "del x s = Some s' \<Longrightarrow> nodes s' = nodes s"
    and nodes_add_tail: "add_tail x q s = Some s' \<Longrightarrow> nodes s' = nodes s"
    and nodes_add: "add x q s = Some s' \<Longrightarrow> nodes s' = nodes s"
begin

text \<open>Taking the first entry of a non-empty queue.\<close>

lemma pop_front:
  assumes "holds s Q" and "q \<in> heads" and "Q q = x # xs"
  shows "first q s = Some (Some x)"
    and "\<exists>s'. del x s = Some s' \<and> holds s' (Q(q := xs)) \<and> nodes s' = nodes s"
proof -
  from first [OF assms(1,2)] assms(3) show "first q s = Some (Some x)" by simp
  from del [OF assms(1,2), of x] assms(3) obtain s' where "del x s = Some s'" "holds s' (Q(q := xs))"
    by auto
  then show "\<exists>s'. del x s = Some s' \<and> holds s' (Q(q := xs)) \<and> nodes s' = nodes s"
    using nodes_del by blast
qed

text \<open>On an empty queue, the "first entry" is the head itself.\<close>

lemma first_of_empty: "holds s Q \<Longrightarrow> q \<in> heads \<Longrightarrow> Q q = [] \<Longrightarrow> first q s = Some (Some q)"
  by (simp add: first)

lemma first_is_head_iff:
  assumes "holds s Q" and "q \<in> heads"
  shows "first q s = Some (Some q) \<longleftrightarrow> Q q = []"
  using first [OF assms] holds_nodes [OF assms] assms(2) by (cases "Q q") auto

text \<open>A free node joins the back of a queue.\<close>

lemma enqueue:
  assumes "holds s Q" and "q \<in> heads" and "x \<in> nodes s" and "x \<notin> heads" and "\<forall>r \<in> heads. x \<notin> set (Q r)"
  shows "\<exists>s'. add_tail x q s = Some s' \<and> holds s' (Q(q := Q q @ [x])) \<and> nodes s' = nodes s"
  using add_tail [OF assms] nodes_add_tail by blast

lemma push_front:
  assumes "holds s Q" and "q \<in> heads" and "x \<in> nodes s" and "x \<notin> heads" and "\<forall>r \<in> heads. x \<notin> set (Q r)"
  shows "\<exists>s'. add x q s = Some s' \<and> holds s' (Q(q := x # Q q)) \<and> nodes s' = nodes s"
  using add [OF assms] nodes_add by blast

text \<open>Moving an entry from one queue to the back of another conserves the entries.\<close>

lemma requeue:
  assumes "holds s Q" and "q \<in> heads" and "r \<in> heads" and "x \<in> set (Q q)"
  shows "\<exists>s1 s2. del x s = Some s1 \<and> add_tail x r s1 = Some s2
    \<and> holds s2 ((Q(q := remove1 x (Q q)))(r := (Q(q := remove1 x (Q q))) r @ [x])) \<and> nodes s2 = nodes s"
proof -
  let ?Q1 = "Q(q := remove1 x (Q q))"
  from del [OF assms(1,2,4)] obtain s1 where s1: "del x s = Some s1" "holds s1 ?Q1" by blast
  from holds_nodes [OF assms(1,2)] assms(4) nodes_del [OF s1(1)] have x: "x \<in> nodes s1" "x \<notin> heads"
    by auto
  from holds_distinct [OF assms(1,2)] holds_disjoint [OF assms(1,2)] assms(4)
  have "\<forall>t \<in> heads. x \<notin> set (?Q1 t)" by auto
  from enqueue [OF s1(2) assms(3) x this] obtain s2 where "add_tail x r s1 = Some s2"
    "holds s2 (?Q1(r := ?Q1 r @ [x]))" "nodes s2 = nodes s1" by blast
  with s1(1) nodes_del [OF s1(1)] show ?thesis by metis
qed

end

interpretation lq: queue_store H "\<lambda>q. list_empty (Some q)" "\<lambda>q. list_first (Some q)"
  "\<lambda>x. list_del (Some x)" "\<lambda>x q. list_add_tail (Some x) (Some q)"
  "\<lambda>x q. list_add (Some x) (Some q)" dom "qheap H" for H :: "'a set"
proof unfold_locales
  fix s :: "'a lheap" and Q q assume a: "qheap H s Q" "q \<in> H"
  show "list_empty (Some q) s = Some (Q q = [])" by (rule list_empty_queue [OF qheap_queue [OF a]])
  show "list_first (Some q) s = Some (Some (hd (Q q @ [q])))"
    by (rule list_first_queue [OF qheap_queue [OF a]])
  show "distinct (Q q)" using qheap_queue [OF a] by (simp add: is_queue_def)
  show "set (Q q) \<subseteq> dom s - H" using is_queue_in_dom [OF qheap_queue [OF a]] a by (auto simp: qheap_def)
  show "\<exists>s'. list_del (Some x) s = Some s' \<and> qheap H s' (Q(q := remove1 x (Q q)))"
    if "x \<in> set (Q q)" for x using qheap_del [OF a that] .
  show "\<exists>s'. list_add_tail (Some x) (Some q) s = Some s' \<and> qheap H s' (Q(q := Q q @ [x]))"
    if "x \<in> dom s" "x \<notin> H" "\<forall>r \<in> H. x \<notin> set (Q r)" for x
    using qheap_add_tail [OF a] that by (simp add: detached_def)
  show "\<exists>s'. list_add (Some x) (Some q) s = Some s' \<and> qheap H s' (Q(q := x # Q q))"
    if "x \<in> dom s" "x \<notin> H" "\<forall>r \<in> H. x \<notin> set (Q r)" for x
    using qheap_add [OF a] that by (simp add: detached_def)
  show "set (Q q) \<inter> set (Q r) = {}" if "r \<in> H" "q \<noteq> r" for r
    using a that by (simp add: qheap_def)
qed (simp_all add: list_del_dom list_add_tail_dom list_add_dom)

section \<open>Properties\<close>

text \<open>
  C16. The list operations implement queues: on a store that holds pairwise disjoint circular lists, adding a detached
  node at the tail of one always succeeds, a walk over the list then visits the old elements and the new one
  in order, \<^verbatim>\<open>list_first\<close> gives the head and \<^verbatim>\<open>list_empty\<close> denies; deleting the node again gives back a store that holds
  the lists as they were.
\<close>
theorem list_queue:
  assumes "qheap H h Q" and "q \<in> H" and "x \<in> dom h" and "x \<notin> H" and "\<forall>r \<in> H. x \<notin> set (Q r)"
  shows "\<exists>h1 h2. list_add_tail (Some x) (Some q) h = Some h1 \<and> qheap H h1 (Q(q := Q q @ [x]))
    \<and> list_for_each (length (Q q) + 2) (Some q) h1 = Some (Q q @ [x]) \<and> list_empty (Some q) h1 = Some False
    \<and> list_first (Some q) h1 = Some (Some (hd (Q q @ [x])))
    \<and> list_del (Some x) h1 = Some h2 \<and> qheap H h2 Q \<and> list_for_each (length (Q q) + 1) (Some q) h2 = Some (Q q)"
proof -
  let ?Q = "Q(q := Q q @ [x])"
  obtain h1 where h1: "list_add_tail (Some x) (Some q) h = Some h1" "qheap H h1 ?Q"
    using lq.add_tail [OF assms(1-5)] by blast
  have "remove1 x (?Q q) = Q q" using assms(2,5) by (simp add: remove1_append)
  then have Q: "?Q(q := remove1 x (?Q q)) = Q" by simp
  have "x \<in> set (?Q q)" by simp
  from lq.del [OF h1(2) assms(2) this] obtain h2 where h2: "list_del (Some x) h1 = Some h2" "qheap H h2 Q"
    unfolding Q by blast
  note w1 = list_for_each_queue [OF qheap_queue [OF h1(2) assms(2)]] and w2 = list_for_each_queue [OF qheap_queue [OF h2(2) assms(2)]]
  have "list_for_each (length (Q q) + 2) (Some q) h1 = Some (Q q @ [x])" "list_for_each (length (Q q) + 1) (Some q) h2 = Some (Q q)"
    using w1 [of "length (Q q) + 2"] w2 [of "length (Q q) + 1"] by simp_all
  moreover have "list_empty (Some q) h1 = Some False" "list_first (Some q) h1 = Some (Some (hd (Q q @ [x])))"
    using lq.is_empty [OF h1(2) assms(2)] lq.first [OF h1(2) assms(2)] by (simp_all add: hd_append)
  ultimately show ?thesis using h1 h2 by blast
qed

theorem list_queue_witness:
  "\<exists>h1 h2. list_add_tail (Some 1) (Some 0) [0 \<mapsto> \<lparr>lh_next = Some 0, lh_prev = Some 0\<rparr>, 1 \<mapsto> null_node] = Some h1
    \<and> list_for_each 2 (Some 0) h1 = Some [1 :: nat] \<and> list_del (Some 1) h1 = Some h2 \<and> list_for_each 1 (Some 0) h2 = Some []"
proof -
  let ?h = "[0 \<mapsto> \<lparr>lh_next = Some 0, lh_prev = Some 0\<rparr>, 1 \<mapsto> null_node] :: nat lheap"
  have "qheap {0} ?h (\<lambda>_. [])"
    by (auto simp: qheap_def is_queue_def edge_def split: if_splits)
  from list_queue [OF this, of 0 1] show ?thesis by (auto simp: numeral_2_eq_2)
qed

end
