(* ===== verification/Zeos_Frames.thy ===== *)
theory Zeos_Frames
  imports Zeos_Prelude
begin

text \<open>
  The physical frame allocator of \<^verbatim>\<open>zeOS/mm.c\<close>: the byte map \<^verbatim>\<open>phys_mem\<close> with
  \<^verbatim>\<open>init_frames\<close>, \<^verbatim>\<open>alloc_frame\<close> (which scans every second frame from the first user frame on,
  "holes intended") and \<^verbatim>\<open>free_frame\<close>. The loop that reserves several frames and gives them
  back when one is missing occurs twice in \<^verbatim>\<open>sys.c\<close> (\<^verbatim>\<open>sys_fork\<close> and \<^verbatim>\<open>sys_sbrk\<close>); it is modelled
  here over any allocator, and the locale \<open>frame_allocator\<close> proves it all-or-nothing for every
  allocator that keeps the contract. The byte map is such an allocator once frame 256, which
  \<^verbatim>\<open>free_frame\<close> cannot free, is in use; from then on it is so in every state of the kernel.
\<close>

section \<open>The byte map\<close>

abbreviation (input) FREE_FRAME :: Byte where "FREE_FRAME \<equiv> 0"
abbreviation (input) USED_FRAME :: Byte where "USED_FRAME \<equiv> 1"

type_synonym frame_map = "Byte list"

text \<open>The two loops of \<^verbatim>\<open>init_frames\<close>: \<open>mark v i n\<close> is \<^verbatim>\<open>for (; i < n; i++) phys_mem[i] = v\<close>.\<close>

function mark :: "Byte \<Rightarrow> nat \<Rightarrow> nat \<Rightarrow> frame_map \<Rightarrow> frame_map option" where
  "mark v i n m = (if i < n then do { m \<leftarrow> arr_set m (int i) v; mark v (Suc i) n m } else Some m)"
  by pat_completeness auto
termination
  by (relation "measure (\<lambda>(v, i, n, m). n - i)") auto

declare mark.simps [simp del]

definition init_frames :: "frame_map \<Rightarrow> frame_map option" where
  "init_frames m = do {
     m \<leftarrow> mark FREE_FRAME 0 TOTAL_PAGES m;
     mark USED_FRAME 0 NUM_PAG_KERNEL m }"

text \<open>The loop of \<^verbatim>\<open>alloc_frame\<close>, entered at frame \<open>i\<close>.\<close>

function alloc_scan :: "nat \<Rightarrow> frame_map \<Rightarrow> (int \<times> frame_map) option" where
  "alloc_scan i m =
     (if i < TOTAL_PAGES then do {
        b \<leftarrow> arr_get m (int i);
        if b = FREE_FRAME then do {
          m \<leftarrow> arr_set m (int i) USED_FRAME;
          Some (int i, m) }
        else alloc_scan (i + 2) m }
      else Some (-1, m))"
  by pat_completeness auto
termination
  by (relation "measure (\<lambda>(i, m). TOTAL_PAGES - i)") auto

declare alloc_scan.simps [simp del]

definition alloc_frame :: "frame_map \<Rightarrow> (int \<times> frame_map) option" where
  "alloc_frame m = alloc_scan NUM_PAG_KERNEL m"

definition free_frame :: "DWord \<Rightarrow> frame_map \<Rightarrow> frame_map option" where
  "free_frame frame m =
     (if frame > 256 \<and> frame < 1024 then arr_set m (int (unat frame)) FREE_FRAME else Some m)"

section \<open>Reserving several frames\<close>

text \<open>\<^verbatim>\<open>for (int j = 0; j < i; j++) free_frame(frames[j]);\<close>\<close>

fun free_all :: "(DWord \<Rightarrow> 'm \<Rightarrow> 'm option) \<Rightarrow> int list \<Rightarrow> 'm \<Rightarrow> 'm option" where
  "free_all release [] m = Some m"
| "free_all release (f # fs) m = do { m \<leftarrow> release (word_of_int f) m; free_all release fs m }"

text \<open>
  The loop that fills \<^verbatim>\<open>frames[0..n)\<close>. The result holds the frames, or \<^term>\<open>None\<close> after the
  frames reserved so far have been released because the allocator returned a negative number.
\<close>

fun alloc_loop ::
  "('m \<Rightarrow> (int \<times> 'm) option) \<Rightarrow> (DWord \<Rightarrow> 'm \<Rightarrow> 'm option) \<Rightarrow> nat \<Rightarrow> int list \<Rightarrow> 'm
    \<Rightarrow> (int list option \<times> 'm) option" where
  "alloc_loop alloc release 0 frames m = Some (Some frames, m)"
| "alloc_loop alloc release (Suc n) frames m = do {
     (f, m) \<leftarrow> alloc m;
     if f < 0 then do {
       m \<leftarrow> free_all release frames m;
       Some (None, m) }
     else alloc_loop alloc release n (frames @ [f]) m }"

section \<open>What the byte map does\<close>

lemma mark_run:
  "n \<le> length m \<Longrightarrow> i \<le> n \<Longrightarrow> mark v i n m = Some (take i m @ replicate (n - i) v @ drop n m)"
proof (induction v i n m rule: mark.induct)
  case (1 v i n m)
  show ?case
  proof (cases "i < n")
    case True
    with "1.prems" "1.IH" [of "m[i := v]"]
    have "mark v (Suc i) n (m[i := v]) = Some (take (Suc i) (m[i := v]) @ replicate (n - Suc i) v @ drop n m)"
      by (simp add: arr_set_def)
    moreover have "take (Suc i) (m[i := v]) = take i m @ [v]"
      using True "1.prems" by (simp add: take_Suc_conv_app_nth)
    moreover have "replicate (n - i) v = v # replicate (n - Suc i) v"
      using True by (metis Suc_diff_Suc replicate_Suc)
    ultimately show ?thesis using True "1.prems" by (subst mark.simps) simp
  next
    case False
    with "1.prems" show ?thesis by (subst mark.simps) simp
  qed
qed

lemma init_frames_run:
  "length m = 1024 \<Longrightarrow> init_frames m = Some (replicate 256 1 @ replicate 768 0)"
  by (simp add: init_frames_def mark_run)

text \<open>The scan returns the first free even frame, or -1; \<open>seen\<close> is what it has passed.\<close>

definition seen :: "frame_map \<Rightarrow> nat \<Rightarrow> bool" where
  "seen m i \<longleftrightarrow> (\<forall>j. 256 \<le> j \<and> j < i \<and> even j \<longrightarrow> m ! j \<noteq> 0)"

lemma seen_start: "seen m 256"
  by (auto simp: seen_def)

lemma seen_step: "seen m i \<Longrightarrow> even i \<Longrightarrow> m ! i \<noteq> 0 \<Longrightarrow> seen m (i + 2)"
  unfolding seen_def by (metis add_2_eq_Suc' less_Suc_eq even_Suc)

lemma alloc_scan_run:
  assumes "length m = 1024" and "256 \<le> i" and "even i" and "seen m i"
  shows "(\<exists>k. 256 \<le> k \<and> k < 1024 \<and> even k \<and> m ! k = 0 \<and> seen m k
      \<and> alloc_scan i m = Some (int k, m[k := 1]))
    \<or> seen m 1024 \<and> alloc_scan i m = Some (-1, m)"
  using assms
proof (induction i m rule: alloc_scan.induct)
  case (1 i m)
  show ?case
  proof (cases "i < 1024")
    case False
    with "1.prems" have "seen m 1024" by (auto simp: seen_def)
    with False show ?thesis by (subst (2) alloc_scan.simps) simp
  next
    case i: True
    show ?thesis
    proof (cases "m ! i = 0")
      case True
      with i "1.prems" show ?thesis by (intro disjI1 exI [of _ i]) (subst alloc_scan.simps, simp)
    next
      case False
      then have step: "alloc_scan i m = alloc_scan (i + 2) m"
        using i "1.prems" by (subst alloc_scan.simps) simp
      from "1.IH" [of "m ! i"] i False "1.prems" seen_step [of m i] show ?thesis
        unfolding step by simp
    qed
  qed
qed

lemma alloc_frame_cases:
  assumes "length m = 1024"
  obtains (found) k where "256 \<le> k" "k < 1024" "even k" "m ! k = 0" "seen m k"
      "alloc_frame m = Some (int k, m[k := 1])"
  | (full) "seen m 1024" "alloc_frame m = Some (-1, m)"
  using alloc_scan_run [OF assms, of 256] seen_start unfolding alloc_frame_def by auto

lemma free_frame_run:
  "length m = 1024 \<Longrightarrow> free_frame f m = Some (if 256 < f \<and> f < 1024 then m[unat f := 0] else m)"
  by (auto simp: free_frame_def arr_set_def word_less_nat_alt uint_nat simp del: of_nat_unat)

section \<open>The contract of a frame allocator\<close>

locale frame_allocator =
  fixes alloc :: "'m \<Rightarrow> (int \<times> 'm) option"
    and release :: "DWord \<Rightarrow> 'm \<Rightarrow> 'm option"
    and inv :: "'m \<Rightarrow> bool"
    and used :: "'m \<Rightarrow> nat set"
    and pool :: "nat set"
  assumes finite_pool: "finite pool"
    and alloc: "inv m \<Longrightarrow>
      (\<exists>f m'. alloc m = Some (int f, m') \<and> f \<in> pool - used m \<and> inv m' \<and> used m' = insert f (used m))
      \<or> pool \<subseteq> used m \<and> alloc m = Some (-1, m)"
    and release: "inv m \<Longrightarrow> f \<in> pool \<Longrightarrow>
      \<exists>m'. release (word_of_int (int f)) m = Some m' \<and> inv m' \<and> used m' = used m - {f}"
begin

lemma free_all_used:
  assumes "inv m" and "set fs \<subseteq> pool"
  shows "\<exists>m'. free_all release (map int fs) m = Some m' \<and> inv m' \<and> used m' = used m - set fs"
  using assms
proof (induction fs arbitrary: m)
  case Nil
  then show ?case by simp
next
  case (Cons f fs)
  with release [of m f] obtain m' where m': "release (word_of_int (int f)) m = Some m'" "inv m'"
    "used m' = used m - {f}" by auto
  with Cons.IH [of m'] Cons.prems show ?case by auto
qed

text \<open>
  All or nothing: the loop either reserves \<open>n\<close> distinct frames that were free, or releases
  everything it had reserved and leaves the set of used frames as it was before the loop.
\<close>

lemma alloc_loop_cases:
  assumes "inv m" and "distinct fs" and "set fs \<subseteq> pool \<inter> used m"
  shows "(\<exists>gs m'. alloc_loop alloc release n (map int fs) m = Some (Some (map int (fs @ gs)), m')
      \<and> length gs = n \<and> distinct (fs @ gs) \<and> set gs \<subseteq> pool - used m
      \<and> used m' = used m \<union> set gs \<and> inv m')
    \<or> (\<exists>m'. alloc_loop alloc release n (map int fs) m = Some (None, m')
      \<and> used m' = used m - set fs \<and> inv m' \<and> card (pool - used m) < n)"
  using assms
proof (induction n arbitrary: fs m)
  case 0
  then show ?case by auto
next
  case (Suc n)
  from alloc [OF Suc.prems(1)] show ?case
  proof (elim disjE exE conjE)
    fix f m1
    assume f: "alloc m = Some (int f, m1)" "f \<in> pool - used m" "inv m1" "used m1 = insert f (used m)"
    then have pre: "distinct (fs @ [f])" "set (fs @ [f]) \<subseteq> pool \<inter> used m1" using Suc.prems by auto
    have step: "alloc_loop alloc release (Suc n) (map int fs) m
        = alloc_loop alloc release n (map int (fs @ [f])) m1" using f(1) by simp
    have "pool - used m1 = pool - used m - {f}" using f by auto
    then have card: "card (pool - used m) = Suc (card (pool - used m1))"
      using f(2) finite_pool by (simp add: card_Suc_Diff1 del: card_Diff_insert)
    from Suc.IH [OF f(3) pre] show ?thesis
    proof (elim disjE exE conjE)
      fix gs m' assume g: "alloc_loop alloc release n (map int (fs @ [f])) m1 = Some (Some (map int ((fs @ [f]) @ gs)), m')"
        "length gs = n" "distinct ((fs @ [f]) @ gs)" "set gs \<subseteq> pool - used m1"
        "used m' = used m1 \<union> set gs" "inv m'"
      then show ?thesis using f step by (intro disjI1 exI [of _ "f # gs"] exI [of _ m']) auto
    next
      fix m' assume g: "alloc_loop alloc release n (map int (fs @ [f])) m1 = Some (None, m')"
        "used m' = used m1 - set (fs @ [f])" "inv m'" "card (pool - used m1) < n"
      then show ?thesis using f step card by (intro disjI2 exI [of _ m']) auto
    qed
  next
    assume full: "pool \<subseteq> used m" "alloc m = Some (-1, m)"
    from free_all_used [of m fs] Suc.prems obtain m' where
      "free_all release (map int fs) m = Some m'" "inv m'" "used m' = used m - set fs" by auto
    moreover have "pool - used m = {}" using full(1) by blast
    then have "card (pool - used m) = 0" by (metis card.empty)
    ultimately show ?thesis using full(2) by (intro disjI2 exI [of _ m']) simp
  qed
qed

lemma alloc_loop_success:
  assumes "inv m" and "alloc_loop alloc release n [] m = Some (Some frames, m')"
  obtains fs where "frames = map int fs" "length fs = n" "distinct fs" "set fs \<subseteq> pool - used m"
    "used m' = used m \<union> set fs" "inv m'"
  using alloc_loop_cases [OF assms(1), of "[]" n] assms(2) by auto

lemma alloc_loop_failure:
  assumes "inv m" and "alloc_loop alloc release n [] m = Some (None, m')"
  shows "used m' = used m" and "inv m'" and "card (pool - used m) < n"
  using alloc_loop_cases [OF assms(1), of "[]" n] assms(2) by auto

lemma alloc_loop_returns:
  assumes "inv m"
  shows "\<exists>r m'. alloc_loop alloc release n [] m = Some (r, m')"
    and "alloc_loop alloc release n [] m = Some (r, m') \<Longrightarrow> r = None \<longleftrightarrow> card (pool - used m) < n"
proof -
  from alloc_loop_cases [OF assms, of "[]" n] show "\<exists>r m'. alloc_loop alloc release n [] m = Some (r, m')"
    by auto
  assume r: "alloc_loop alloc release n [] m = Some (r, m')"
  have "n \<le> card (pool - used m)" if "r = Some frames" for frames
  proof -
    from r that alloc_loop_success [OF assms] obtain fs where "length fs = n" "distinct fs"
      "set fs \<subseteq> pool - used m" by blast
    then show ?thesis using card_mono [of "pool - used m" "set fs"] finite_pool by (simp add: distinct_card)
  qed
  with r alloc_loop_failure(3) [OF assms] show "r = None \<longleftrightarrow> card (pool - used m) < n"
    by (cases r) (auto simp: not_less)
qed

end

section \<open>The byte map as an allocator\<close>

definition frames_ok :: "frame_map \<Rightarrow> bool" where
  "frames_ok m \<longleftrightarrow> length m = 1024 \<and> set m \<subseteq> {0, 1} \<and> m ! 256 = 1"

definition used_frames :: "frame_map \<Rightarrow> nat set" where
  "used_frames m = {f. f < length m \<and> m ! f \<noteq> 0}"

text \<open>The frames \<open>alloc_frame\<close> hands out and \<open>free_frame\<close> takes back: the even ones above 256.\<close>

definition frame_pool :: "nat set" where
  "frame_pool = {f. 256 < f \<and> f < 1024 \<and> even f}"

lemma frame_pool_256: "256 \<le> k \<Longrightarrow> k < 1024 \<Longrightarrow> even k \<Longrightarrow> k \<noteq> 256 \<Longrightarrow> k \<in> frame_pool"
  by (simp add: frame_pool_def)

interpretation fa: frame_allocator alloc_frame free_frame frames_ok used_frames frame_pool
proof unfold_locales
  show "finite frame_pool" by (simp add: frame_pool_def)
next
  fix m assume ok: "frames_ok m"
  then have len: "length m = 1024" by (simp add: frames_ok_def)
  show "(\<exists>f m'. alloc_frame m = Some (int f, m') \<and> f \<in> frame_pool - used_frames m \<and> frames_ok m'
      \<and> used_frames m' = insert f (used_frames m))
    \<or> frame_pool \<subseteq> used_frames m \<and> alloc_frame m = Some (-1, m)"
    using len
  proof (cases rule: alloc_frame_cases)
    case (found k)
    with ok have "k \<noteq> 256" by (auto simp: frames_ok_def)
    moreover have "frames_ok (m[k := 1])"
      using ok found(2) set_update_subset_insert [of m k 1] by (auto simp: frames_ok_def nth_list_update)
    moreover have "used_frames (m[k := 1]) = insert k (used_frames m)"
      using found(2) len by (auto simp: used_frames_def nth_list_update split: if_splits)
    moreover have "k \<notin> used_frames m" using found(4) by (simp add: used_frames_def)
    ultimately show ?thesis using found frame_pool_256 [of k] by blast
  next
    case full
    then show ?thesis using len by (auto simp: seen_def frame_pool_def used_frames_def)
  qed
next
  fix m f assume ok: "frames_ok m" and f: "f \<in> frame_pool"
  then have b: "256 < f" "f < 1024" and len: "length m = 1024" by (auto simp: frame_pool_def frames_ok_def)
  have "unat (word_of_int (int f) :: DWord) = f" using b by (simp add: unat_of_nat take_bit_eq_mod)
  moreover from this b have "256 < (word_of_int (int f) :: DWord)" "(word_of_int (int f) :: DWord) < 1024"
    by (simp_all add: word_less_nat_alt)
  ultimately have "free_frame (word_of_int (int f)) m = Some (m[f := 0])" using free_frame_run [OF len] by simp
  moreover have "frames_ok (m[f := 0])"
    using ok b set_update_subset_insert [of m f 0] by (auto simp: frames_ok_def nth_list_update)
  moreover have "used_frames (m[f := 0]) = used_frames m - {f}"
    using b len by (auto simp: used_frames_def nth_list_update split: if_splits)
  ultimately show "\<exists>m'. free_frame (word_of_int (int f)) m = Some m' \<and> frames_ok m'
      \<and> used_frames m' = used_frames m - {f}" by blast
qed

text \<open>Among well-formed byte maps, the set of used frames determines the map.\<close>

lemma used_frames_inj:
  assumes "frames_ok m" and "frames_ok m'" and "used_frames m = used_frames m'"
  shows "m = m'"
proof (rule nth_equalityI)
  show len: "length m = length m'" using assms by (simp add: frames_ok_def)
  fix i assume i: "i < length m"
  with len assms(1,2) have "m ! i \<in> {0, 1}" "m' ! i \<in> {0, 1}" by (auto simp: frames_ok_def subset_iff)
  moreover have "m ! i \<noteq> 0 \<longleftrightarrow> m' ! i \<noteq> 0" using assms(3) i len by (auto simp: used_frames_def)
  ultimately show "m ! i = m' ! i" by auto
qed

end
