(* ===== verification/Zeos_Utils.thy ===== *)
theory Zeos_Utils
  imports Zeos_Prelude
begin

text \<open>
  The helpers of \<^verbatim>\<open>zeOS/utils.c\<close>: the three copy routines (four bytes at a time while more
  than four remain, then byte by byte), \<^verbatim>\<open>access_ok\<close>, the 64-by-32-bit division \<^verbatim>\<open>do_div\<close> and
  the tick counter \<^verbatim>\<open>get_ticks\<close> built on it.

  A copy routine reads and writes through raw pointers. The model takes the two accesses as
  functions: \<open>ld\<close> reads a byte at an address, \<open>st\<close> writes one, both \<^term>\<open>None\<close> on a page
  fault. The kernel uses three instances: user to user (\<^verbatim>\<open>sys_fork\<close>), user to a kernel buffer
  and kernel to user; the locale \<open>byte_memory\<close> is what they have in common.
\<close>

section \<open>The copy routines\<close>

text \<open>\<^verbatim>\<open>while(size > 4) { *q++ = *p++; size -= 4; }\<close> on \<^verbatim>\<open>DWord\<close> pointers.\<close>

function copy_words ::
  "('s \<Rightarrow> DWord \<Rightarrow> Byte option) \<Rightarrow> ('s \<Rightarrow> DWord \<Rightarrow> Byte \<Rightarrow> 's option)
    \<Rightarrow> 's \<Rightarrow> DWord \<Rightarrow> DWord \<Rightarrow> int \<Rightarrow> ('s \<times> DWord \<times> DWord \<times> int) option" where
  "copy_words ld st s p q sz =
     (if sz > 4 then do {
        b0 \<leftarrow> ld s p; b1 \<leftarrow> ld s (p + 1); b2 \<leftarrow> ld s (p + 2); b3 \<leftarrow> ld s (p + 3);
        s \<leftarrow> st s q b0; s \<leftarrow> st s (q + 1) b1; s \<leftarrow> st s (q + 2) b2; s \<leftarrow> st s (q + 3) b3;
        copy_words ld st s (p + 4) (q + 4) (sz - 4) }
      else Some (s, p, q, sz))"
  by pat_completeness auto
termination
  by (relation "measure (\<lambda>(ld, st, s, p, q, sz). nat sz)") auto

text \<open>\<^verbatim>\<open>while(size > 0) { *q1++ = *p1++; size --; }\<close> on \<^verbatim>\<open>Byte\<close> pointers.\<close>

function copy_bytes ::
  "('s \<Rightarrow> DWord \<Rightarrow> Byte option) \<Rightarrow> ('s \<Rightarrow> DWord \<Rightarrow> Byte \<Rightarrow> 's option)
    \<Rightarrow> 's \<Rightarrow> DWord \<Rightarrow> DWord \<Rightarrow> int \<Rightarrow> 's option" where
  "copy_bytes ld st s p q sz =
     (if sz > 0 then do {
        b \<leftarrow> ld s p;
        s \<leftarrow> st s q b;
        copy_bytes ld st s (p + 1) (q + 1) (sz - 1) }
      else Some s)"
  by pat_completeness auto
termination
  by (relation "measure (\<lambda>(ld, st, s, p, q, sz). nat sz)") auto

declare copy_words.simps [simp del] copy_bytes.simps [simp del]

definition copy_data ::
  "('s \<Rightarrow> DWord \<Rightarrow> Byte option) \<Rightarrow> ('s \<Rightarrow> DWord \<Rightarrow> Byte \<Rightarrow> 's option)
    \<Rightarrow> DWord \<Rightarrow> DWord \<Rightarrow> int \<Rightarrow> 's \<Rightarrow> 's option" where
  "copy_data ld st start dest sz s = do {
     (s, p, q, sz) \<leftarrow> copy_words ld st s start dest sz;
     copy_bytes ld st s p q sz }"

definition copy_from_user ::
  "('s \<Rightarrow> DWord \<Rightarrow> Byte option) \<Rightarrow> ('s \<Rightarrow> DWord \<Rightarrow> Byte \<Rightarrow> 's option)
    \<Rightarrow> DWord \<Rightarrow> DWord \<Rightarrow> int \<Rightarrow> 's \<Rightarrow> (int \<times> 's) option" where
  "copy_from_user ld st start dest sz s = do {
     (s, p, q, sz) \<leftarrow> copy_words ld st s start dest sz;
     s \<leftarrow> copy_bytes ld st s p q sz;
     Some (0, s) }"

definition copy_to_user ::
  "('s \<Rightarrow> DWord \<Rightarrow> Byte option) \<Rightarrow> ('s \<Rightarrow> DWord \<Rightarrow> Byte \<Rightarrow> 's option)
    \<Rightarrow> DWord \<Rightarrow> DWord \<Rightarrow> int \<Rightarrow> 's \<Rightarrow> (int \<times> 's) option" where
  "copy_to_user ld st start dest sz s = do {
     (s, p, q, sz) \<leftarrow> copy_words ld st s start dest sz;
     s \<leftarrow> copy_bytes ld st s p q sz;
     Some (0, s) }"

section \<open>Reference: read everything, then write everything\<close>

fun get_bytes :: "('s \<Rightarrow> DWord \<Rightarrow> Byte option) \<Rightarrow> 's \<Rightarrow> DWord \<Rightarrow> nat \<Rightarrow> Byte list option" where
  "get_bytes ld s p 0 = Some []"
| "get_bytes ld s p (Suc n) = do { b \<leftarrow> ld s p; bs \<leftarrow> get_bytes ld s (p + 1) n; Some (b # bs) }"

fun put_bytes :: "('s \<Rightarrow> DWord \<Rightarrow> Byte \<Rightarrow> 's option) \<Rightarrow> 's \<Rightarrow> DWord \<Rightarrow> Byte list \<Rightarrow> 's option" where
  "put_bytes st s q [] = Some s"
| "put_bytes st s q (b # bs) = do { s \<leftarrow> st s q b; put_bytes st s (q + 1) bs }"

lemma get_bytes_add:
  "get_bytes ld s p (m + n) = do {
     xs \<leftarrow> get_bytes ld s p m;
     ys \<leftarrow> get_bytes ld s (p + word_of_nat m) n;
     Some (xs @ ys) }"
  by (induction m arbitrary: p) (auto simp: ac_simps split: Option.bind_split)

lemma put_bytes_append:
  "put_bytes st s q (xs @ ys) = do { s \<leftarrow> put_bytes st s q xs; put_bytes st s (q + word_of_nat (length xs)) ys }"
  by (induction xs arbitrary: s q) (auto simp: ac_simps split: Option.bind_split)

lemma get_bytes_length: "get_bytes ld s p n = Some bs \<Longrightarrow> length bs = n"
  by (induction n arbitrary: p bs) (auto simp: bind_eq_Some_conv)

text \<open>Source and destination of a copy of \<open>n\<close> bytes: accessible and free of aliases.\<close>

definition disjoint_blocks ::
  "(DWord \<Rightarrow> bool) \<Rightarrow> (DWord \<Rightarrow> bool) \<Rightarrow> (DWord \<Rightarrow> DWord \<Rightarrow> bool) \<Rightarrow> DWord \<Rightarrow> DWord \<Rightarrow> nat \<Rightarrow> bool" where
  "disjoint_blocks R W clash p q n \<longleftrightarrow>
     (\<forall>i < n. R (p + word_of_nat i) \<and> W (q + word_of_nat i)) \<and>
     (\<forall>i < n. \<forall>j < n. \<not> clash (p + word_of_nat i) (q + word_of_nat j))"

lemma disjoint_blocksD:
  assumes "disjoint_blocks R W clash p q n" and "i < n"
  shows "R (p + word_of_nat i)" and "W (q + word_of_nat i)"
    and "j < n \<Longrightarrow> \<not> clash (p + word_of_nat i) (q + word_of_nat j)"
  using assms by (auto simp: disjoint_blocks_def)

lemma disjoint_blocks_shift:
  assumes "disjoint_blocks R W clash p q (m + n)"
  shows "disjoint_blocks R W clash (p + word_of_nat m) (q + word_of_nat m) n"
proof -
  have e: "x + word_of_nat m + word_of_nat i = x + word_of_nat (m + i)" for x :: DWord and i by simp
  show ?thesis using assms unfolding disjoint_blocks_def e by (auto simp del: of_nat_add)
qed

text \<open>
  The interface of a memory that is read at the addresses \<open>R\<close> and written at the addresses \<open>W\<close>:
  such accesses do not fault, and a write at \<open>q\<close> leaves a read at \<open>p\<close> alone unless the two
  addresses clash.
\<close>

locale byte_memory =
  fixes ld :: "'s \<Rightarrow> DWord \<Rightarrow> Byte option"
    and st :: "'s \<Rightarrow> DWord \<Rightarrow> Byte \<Rightarrow> 's option"
    and inv :: "'s \<Rightarrow> bool"
    and R :: "DWord \<Rightarrow> bool"
    and W :: "DWord \<Rightarrow> bool"
    and clash :: "DWord \<Rightarrow> DWord \<Rightarrow> bool"
  assumes ld: "inv s \<Longrightarrow> R p \<Longrightarrow> \<exists>b. ld s p = Some b"
    and st: "inv s \<Longrightarrow> W q \<Longrightarrow> \<exists>s'. st s q b = Some s' \<and> inv s'"
    and ld_st: "inv s \<Longrightarrow> st s q b = Some s' \<Longrightarrow> \<not> clash p q \<Longrightarrow> ld s' p = ld s p"
begin

lemma get_bytes_total:
  assumes "inv s" and "\<forall>i < n. R (p + word_of_nat i)"
  shows "\<exists>bs. get_bytes ld s p n = Some bs"
  using assms(2)
proof (induction n arbitrary: p)
  case (Suc n)
  have "R (p + 1 + word_of_nat i)" if "i < n" for i using Suc.prems [rule_format, of "Suc i"] that by (simp add: ac_simps)
  with Suc.IH [of "p + 1"] ld [OF assms(1), of p] Suc.prems [rule_format, of 0] show ?case by auto
qed simp

lemma put_bytes_total:
  assumes "inv s" and "\<forall>i < length bs. W (q + word_of_nat i)"
  shows "\<exists>s'. put_bytes st s q bs = Some s' \<and> inv s'"
  using assms
proof (induction bs arbitrary: s q)
  case (Cons b bs)
  have "W (q + 1 + word_of_nat i)" if "i < length bs" for i
    using Cons.prems(2) [rule_format, of "Suc i"] that by (simp add: ac_simps)
  with Cons.IH [of _ "q + 1"] st [OF Cons.prems(1), of q b] Cons.prems(2) [rule_format, of 0] show ?case
    by auto
qed simp

lemma put_bytes_ld:
  assumes "inv s" and "put_bytes st s q bs = Some s'" and "\<forall>i < length bs. W (q + word_of_nat i)"
    and "\<forall>i < length bs. \<not> clash p (q + word_of_nat i)"
  shows "ld s' p = ld s p"
  using assms
proof (induction bs arbitrary: s q)
  case (Cons b bs)
  from Cons.prems(2) obtain s1 where s1: "st s q b = Some s1" "put_bytes st s1 (q + 1) bs = Some s'"
    by (auto simp: bind_eq_Some_conv)
  with st [OF Cons.prems(1), of q b] Cons.prems(3) [rule_format, of 0] have "inv s1" by auto
  moreover have "W (q + 1 + word_of_nat i) \<and> \<not> clash p (q + 1 + word_of_nat i)" if "i < length bs" for i
    using Cons.prems(3,4) [rule_format, of "Suc i"] that by (simp add: ac_simps)
  ultimately have "ld s' p = ld s1 p" using Cons.IH [of s1 "q + 1"] s1 by simp
  with ld_st [OF Cons.prems(1) s1(1), of p] Cons.prems(4) [rule_format, of 0] show ?case by simp
qed simp

lemma get_bytes_put_bytes:
  assumes "inv s" and "put_bytes st s q bs = Some s'" and "\<forall>i < length bs. W (q + word_of_nat i)"
    and "\<forall>i < n. \<forall>j < length bs. \<not> clash (p + word_of_nat i) (q + word_of_nat j)"
  shows "get_bytes ld s' p n = get_bytes ld s p n"
  using assms(4)
proof (induction n arbitrary: p)
  case (Suc n)
  have "\<not> clash (p + 1 + word_of_nat i) (q + word_of_nat j)" if "i < n" "j < length bs" for i j
    using Suc.prems [rule_format, of "Suc i" j] that by (simp add: ac_simps)
  with Suc.IH [of "p + 1"] put_bytes_ld [OF assms(1-3), of p] Suc.prems [rule_format, of 0] show ?case
    by simp
qed simp

lemma copy_bytes_eq:
  assumes "inv s" and "disjoint_blocks R W clash p q n"
  shows "copy_bytes ld st s p q (int n) = do { bs \<leftarrow> get_bytes ld s p n; put_bytes st s q bs }"
  using assms
proof (induction n arbitrary: s p q)
  case 0
  then show ?case by (subst copy_bytes.simps) simp
next
  case (Suc n)
  have RW: "R p" "W q"
    using disjoint_blocksD(1,2) [OF Suc.prems(2), of 0] by simp_all
  have ac: "\<not> clash (p + 1 + word_of_nat i) q" if "i < n" for i
    using disjoint_blocksD(3) [OF Suc.prems(2), of "Suc i" 0] that by (simp add: ac_simps)
  from ld [OF Suc.prems(1) RW(1)] st [OF Suc.prems(1) RW(2)] obtain b s1
    where b: "ld s p = Some b" "st s q b = Some s1" "inv s1" by blast
  have "disjoint_blocks R W clash (p + 1) (q + 1) n"
    using disjoint_blocks_shift [of R W clash p q 1 n] Suc.prems(2) by simp
  from Suc.IH [OF b(3) this] have "copy_bytes ld st s p q (int (Suc n))
      = do { bs \<leftarrow> get_bytes ld s1 (p + 1) n; put_bytes st s1 (q + 1) bs }"
    using b by (subst copy_bytes.simps) simp
  moreover have "get_bytes ld s1 (p + 1) n = get_bytes ld s (p + 1) n"
    using get_bytes_put_bytes [OF Suc.prems(1), of q "[b]" s1 n "p + 1"] b RW ac by simp
  ultimately show ?case using b by (auto split: Option.bind_split)
qed

lemma copy_words_eq:
  assumes "inv s" and "disjoint_blocks R W clash p q n"
  shows "\<exists>m k s' bs. m + k = n \<and> k \<le> 4 \<and> get_bytes ld s p m = Some bs \<and> put_bytes st s q bs = Some s' \<and> inv s'
    \<and> copy_words ld st s p q (int n) = Some (s', p + word_of_nat m, q + word_of_nat m, int k)"
  using assms
proof (induction n arbitrary: s p q rule: less_induct)
  case (less n)
  show ?case
  proof (cases "n > 4")
    case False
    then show ?thesis using less.prems by (intro exI [of _ 0] exI [of _ n]) (subst copy_words.simps, simp)
  next
    case True
    then obtain r where n: "n = 4 + r" by (metis add.commute less_imp_add_positive)
    from less.prems(2) have RW: "\<forall>i < 4. R (p + word_of_nat i)" "\<forall>i < 4. W (q + word_of_nat i)"
      and ac: "\<forall>i < r. \<forall>j < 4. \<not> clash (p + word_of_nat (4 + i)) (q + word_of_nat j)"
      using n by (auto simp: disjoint_blocks_def simp del: of_nat_add)
    obtain b0 b1 b2 b3 where b: "ld s p = Some b0" "ld s (p + 1) = Some b1" "ld s (p + 2) = Some b2" "ld s (p + 3) = Some b3"
      using ld [OF less.prems(1)] RW(1) [rule_format, of 0] RW(1) [rule_format, of 1]
        RW(1) [rule_format, of 2] RW(1) [rule_format, of 3] by fastforce
    have g4: "get_bytes ld s p 4 = Some [b0, b1, b2, b3]" using b by (simp add: eval_nat_numeral add.assoc)
    obtain s4 where s4: "put_bytes st s q [b0, b1, b2, b3] = Some s4" "inv s4"
      using put_bytes_total [OF less.prems(1), of "[b0, b1, b2, b3]" q] RW(2) by auto
    have dj: "disjoint_blocks R W clash (p + 4) (q + 4) r"
      using disjoint_blocks_shift [of R W clash p q 4 r] less.prems(2) n by simp
    have step: "copy_words ld st s p q (int n) = copy_words ld st s4 (p + 4) (q + 4) (int r)"
      using b s4 n True by (subst copy_words.simps) (auto simp: bind_eq_Some_conv ac_simps)
    from less.IH [OF _ s4(2) dj] n obtain m k s' bs where ih: "m + k = r" "k \<le> 4"
      "get_bytes ld s4 (p + 4) m = Some bs" "put_bytes st s4 (q + 4) bs = Some s'" "inv s'"
      "copy_words ld st s4 (p + 4) (q + 4) (int r) = Some (s', p + 4 + word_of_nat m, q + 4 + word_of_nat m, int k)"
      by auto
    have "get_bytes ld s4 (p + 4) m = get_bytes ld s (p + 4) m"
      using get_bytes_put_bytes [OF less.prems(1) s4(1), of m "p + 4"] RW(2) ac ih(1) by (simp add: ac_simps)
    then have "get_bytes ld s (p + 4) m = Some bs" using ih(3) by simp
    then have "get_bytes ld s p (4 + m) = Some ([b0, b1, b2, b3] @ bs)"
      using g4 by (simp only: get_bytes_add) simp
    moreover have "put_bytes st s q ([b0, b1, b2, b3] @ bs) = Some s'"
      using s4(1) ih(4) by (simp only: put_bytes_append) simp
    ultimately show ?thesis using ih step n
      by (intro exI [of _ "4 + m"] exI [of _ k] exI [of _ s'] exI [of _ "[b0, b1, b2, b3] @ bs"]) (simp add: ac_simps)
  qed
qed

text \<open>The word-wise copy is the byte-wise one: it reads the \<open>n\<close> bytes and writes them.\<close>

lemma copy_loops_eq:
  assumes "inv s" and "disjoint_blocks R W clash p q n"
  shows "\<exists>bs s'. get_bytes ld s p n = Some bs \<and> put_bytes st s q bs = Some s' \<and> inv s' \<and>
    (case copy_words ld st s p q (int n) of None \<Rightarrow> None | Some (s1, p1, q1, k) \<Rightarrow> copy_bytes ld st s1 p1 q1 k) = Some s'"
proof -
  from copy_words_eq [OF assms] obtain m k s1 xs where w: "m + k = n" "get_bytes ld s p m = Some xs"
    "put_bytes st s q xs = Some s1" "inv s1"
    "copy_words ld st s p q (int n) = Some (s1, p + word_of_nat m, q + word_of_nat m, int k)" by blast
  have len: "length xs = m" using get_bytes_length [OF w(2)] .
  have dj: "disjoint_blocks R W clash (p + word_of_nat m) (q + word_of_nat m) k"
    using disjoint_blocks_shift assms(2) w(1) by blast
  obtain ys where ys: "get_bytes ld s1 (p + word_of_nat m) k = Some ys"
    using get_bytes_total [OF w(4), of k "p + word_of_nat m"] dj by (auto simp: disjoint_blocks_def)
  have leny: "length ys = k" using get_bytes_length [OF ys] .
  obtain s' where s': "put_bytes st s1 (q + word_of_nat m) ys = Some s'" "inv s'"
    using put_bytes_total [OF w(4), of ys "q + word_of_nat m"] dj leny by (auto simp: disjoint_blocks_def)
  have "\<forall>i < k. \<forall>j < length xs. \<not> clash (p + word_of_nat (m + i)) (q + word_of_nat j)"
    using assms(2) w(1) len by (simp add: disjoint_blocks_def del: of_nat_add)
  then have "get_bytes ld s1 (p + word_of_nat m) k = get_bytes ld s (p + word_of_nat m) k"
    using get_bytes_put_bytes [OF assms(1) w(3), of k "p + word_of_nat m"] assms(2) w(1) len
    by (simp add: disjoint_blocks_def ac_simps)
  then have "get_bytes ld s (p + word_of_nat m) k = Some ys" using ys by simp
  then have "get_bytes ld s p n = Some (xs @ ys)" using w(1,2) get_bytes_add [of ld s p m k] by simp
  moreover have "put_bytes st s q (xs @ ys) = Some s'" using w(3) s' len by (simp add: put_bytes_append)
  ultimately show ?thesis using w(5) copy_bytes_eq [OF w(4) dj] ys s' by simp
qed

lemma copy_data_run:
  assumes "inv s" and "disjoint_blocks R W clash p q n"
  shows "\<exists>bs s'. get_bytes ld s p n = Some bs \<and> put_bytes st s q bs = Some s' \<and> inv s'
    \<and> copy_data ld st p q (int n) s = Some s'"
  using copy_loops_eq [OF assms] by (auto simp: copy_data_def split: option.splits)

lemma copy_from_user_run:
  assumes "inv s" and "disjoint_blocks R W clash p q n"
  shows "\<exists>bs s'. get_bytes ld s p n = Some bs \<and> put_bytes st s q bs = Some s' \<and> inv s'
    \<and> copy_from_user ld st p q (int n) s = Some (0, s')"
  using copy_loops_eq [OF assms] by (auto simp: copy_from_user_def split: option.splits)

lemma copy_to_user_run:
  assumes "inv s" and "disjoint_blocks R W clash p q n"
  shows "\<exists>bs s'. get_bytes ld s p n = Some bs \<and> put_bytes st s q bs = Some s' \<and> inv s'
    \<and> copy_to_user ld st p q (int n) s = Some (0, s')"
  using copy_loops_eq [OF assms] by (auto simp: copy_to_user_def split: option.splits)

end

subsection \<open>The three uses\<close>

text \<open>
  User memory is physical memory seen through an address translation \<open>tr\<close> (\<^term>\<open>None\<close>: page
  not present). A kernel buffer or a kernel object is a byte list, addressed from 0.
\<close>

type_synonym pmem = "DWord \<Rightarrow> Byte"
type_synonym vmap = "DWord \<Rightarrow> DWord option"

definition user_ld :: "vmap \<Rightarrow> pmem \<Rightarrow> DWord \<Rightarrow> Byte option" where
  "user_ld tr m a = map_option m (tr a)"

definition user_st :: "vmap \<Rightarrow> pmem \<Rightarrow> DWord \<Rightarrow> Byte \<Rightarrow> pmem option" where
  "user_st tr m a b = map_option (\<lambda>pa. m(pa := b)) (tr a)"

definition buf_ld :: "vmap \<Rightarrow> pmem \<Rightarrow> Byte list \<Rightarrow> DWord \<Rightarrow> Byte option" where
  "buf_ld tr m buf a = user_ld tr m a"

definition buf_st :: "Byte list \<Rightarrow> DWord \<Rightarrow> Byte \<Rightarrow> Byte list option" where
  "buf_st buf a b = arr_set buf (uint a) b"

definition obj_ld :: "Byte list \<Rightarrow> pmem \<Rightarrow> DWord \<Rightarrow> Byte option" where
  "obj_ld src m a = arr_get src (uint a)"

interpretation um: byte_memory "user_ld tr" "user_st tr" "\<lambda>_. True" "\<lambda>a. tr a \<noteq> None" "\<lambda>a. tr a \<noteq> None"
  "\<lambda>p q. tr p = tr q" for tr
  by unfold_locales (auto simp: user_ld_def user_st_def map_option_case split: option.splits)

interpretation uk: byte_memory "buf_ld tr m" buf_st "\<lambda>buf. length buf = N" "\<lambda>a. tr a \<noteq> None" "\<lambda>a. unat a < N"
  "\<lambda>p q. False" for tr m N
  by unfold_locales (auto simp: buf_ld_def user_ld_def buf_st_def arr_set_def uint_nat simp del: of_nat_unat)

interpretation ku: byte_memory "obj_ld src" "user_st tr" "\<lambda>_. True" "\<lambda>a. unat a < length src" "\<lambda>a. tr a \<noteq> None"
  "\<lambda>p q. False" for src tr
  by unfold_locales (auto simp: obj_ld_def user_st_def arr_get_def uint_nat simp del: of_nat_unat)

lemma get_bytes_buf: "get_bytes (buf_ld tr m) buf p n = get_bytes (user_ld tr) m p n"
  by (induction n arbitrary: p) (simp_all add: buf_ld_def)

lemma put_bytes_buf:
  assumes "i + length bs \<le> length buf" and "length buf < 2 ^ 32"
  shows "put_bytes buf_st buf (word_of_nat i) bs = Some (take i buf @ bs @ drop (i + length bs) buf)"
  using assms
proof (induction bs arbitrary: i buf)
  case (Cons b bs)
  have "unat (word_of_nat i :: DWord) = i" using Cons.prems by (simp add: unat_of_nat take_bit_eq_mod)
  then have st: "buf_st buf (word_of_nat i) b = Some (buf[i := b])"
    using Cons.prems by (simp add: buf_st_def arr_set_def uint_nat del: of_nat_unat)
  have "word_of_nat i + 1 = (word_of_nat (Suc i) :: DWord)" by (simp add: ac_simps)
  moreover have "take (Suc i) (buf[i := b]) = take i buf @ [b]"
    using Cons.prems by (simp add: take_Suc_conv_app_nth)
  ultimately show ?case using st Cons.IH [of "Suc i" "buf[i := b]"] Cons.prems by (simp del: of_nat_Suc)
qed simp

lemma get_bytes_obj:
  assumes "i + n \<le> length src" and "length src < 2 ^ 32"
  shows "get_bytes (obj_ld src) m (word_of_nat i) n = Some (take n (drop i src))"
  using assms(1)
proof (induction n arbitrary: i)
  case (Suc n)
  have "unat (word_of_nat i :: DWord) = i" using Suc.prems assms(2) by (simp add: unat_of_nat take_bit_eq_mod)
  then have ld: "obj_ld src m (word_of_nat i) = Some (src ! i)"
    using Suc.prems by (simp add: obj_ld_def arr_get_def uint_nat del: of_nat_unat)
  have "word_of_nat i + 1 = (word_of_nat (Suc i) :: DWord)" by (simp add: ac_simps)
  moreover have "drop i src = src ! i # drop (Suc i) src" using Suc.prems by (simp add: Cons_nth_drop_Suc)
  ultimately show ?case using ld Suc.IH [of "Suc i"] Suc.prems by (simp del: of_nat_Suc)
qed simp

text \<open>Reading a user block into a kernel buffer, and writing a kernel object to user memory.\<close>

lemma get_bytes_user:
  "(\<exists>bs. get_bytes (user_ld tr) m p n = Some bs) \<longleftrightarrow> (\<forall>i < n. tr (p + word_of_nat i) \<noteq> None)"
proof (induction n arbitrary: p)
  case (Suc n)
  have "(\<forall>i < Suc n. tr (p + word_of_nat i) \<noteq> None)
      \<longleftrightarrow> tr p \<noteq> None \<and> (\<forall>i < n. tr (p + 1 + word_of_nat i) \<noteq> None)"
    by (simp add: All_less_Suc2 ac_simps)
  with Suc [of "p + 1"] show ?case by (auto simp: user_ld_def)
qed simp

lemma copy_from_user_buf:
  assumes "get_bytes (user_ld tr) m p n = Some bs" and "n \<le> length buf" and "length buf < 2 ^ 32"
  shows "copy_from_user (buf_ld tr m) buf_st p 0 (int n) buf = Some (0, bs @ drop n buf)"
proof -
  have R: "\<forall>i < n. tr (p + word_of_nat i) \<noteq> None" using assms(1) get_bytes_user by blast
  have "unat (0 + word_of_nat i :: DWord) < length buf" if "i < n" for i
    using that assms(2,3) by (simp add: unat_of_nat take_bit_eq_mod)
  with R have "disjoint_blocks (\<lambda>a. tr a \<noteq> None) (\<lambda>a. unat a < length buf) (\<lambda>p q. False) p 0 n"
    by (simp add: disjoint_blocks_def)
  from uk.copy_from_user_run [OF refl this, of m] obtain bs' s' where
    r: "get_bytes (buf_ld tr m) buf p n = Some bs'" "put_bytes buf_st buf 0 bs' = Some s'"
    "copy_from_user (buf_ld tr m) buf_st p 0 (int n) buf = Some (0, s')" by blast
  with assms(1) have "bs' = bs" "length bs = n" using get_bytes_length by (auto simp: get_bytes_buf)
  with r put_bytes_buf [of 0 bs buf] assms show ?thesis by simp
qed

lemma copy_to_user_obj:
  assumes "length src = n" and "n < 2 ^ 32" and "\<forall>i < n. tr (q + word_of_nat i) \<noteq> None"
  shows "\<exists>m'. copy_to_user (obj_ld src) (user_st tr) 0 q (int n) m = Some (0, m')
    \<and> put_bytes (user_st tr) m q src = Some m'"
proof -
  have "unat (0 + word_of_nat i :: DWord) < length src" if "i < n" for i
    using that assms(1,2) by (simp add: unat_of_nat take_bit_eq_mod)
  with assms(3) have "disjoint_blocks (\<lambda>a. unat a < length src) (\<lambda>a. tr a \<noteq> None) (\<lambda>p q. False) 0 q n"
    by (simp add: disjoint_blocks_def)
  from ku.copy_to_user_run [OF TrueI this, of m] get_bytes_obj [of 0 n src m] assms(1,2) show ?thesis by auto
qed

text \<open>What a user-to-user copy leaves in physical memory.\<close>

lemma put_bytes_user:
  assumes "\<forall>i < length bs. tr (q + word_of_nat i) \<noteq> None"
    and "\<forall>i < length bs. \<forall>j < length bs. tr (q + word_of_nat i) = tr (q + word_of_nat j) \<longrightarrow> i = j"
  shows "\<exists>m'. put_bytes (user_st tr) m q bs = Some m'
    \<and> (\<forall>i < length bs. m' (the (tr (q + word_of_nat i))) = bs ! i)
    \<and> (\<forall>a. (\<forall>i < length bs. tr (q + word_of_nat i) \<noteq> Some a) \<longrightarrow> m' a = m a)"
  using assms
proof (induction bs arbitrary: m q)
  case Nil
  then show ?case by simp
next
  case (Cons b bs)
  have sh: "q + 1 + word_of_nat i = q + word_of_nat (Suc i)" for i by (simp add: ac_simps)
  obtain pa where pa: "tr q = Some pa" using Cons.prems(1) [rule_format, of 0] by auto
  have ne: "tr (q + word_of_nat (Suc i)) \<noteq> Some pa" if "i < length bs" for i
    using Cons.prems(2) [rule_format, of 0 "Suc i"] that pa by auto
  have p: "\<forall>i < length bs. tr (q + 1 + word_of_nat i) \<noteq> None"
    "\<forall>i < length bs. \<forall>j < length bs. tr (q + 1 + word_of_nat i) = tr (q + 1 + word_of_nat j) \<longrightarrow> i = j"
    unfolding sh using Cons.prems(1) Cons.prems(2) by fastforce+
  from Cons.IH [OF p, of "m(pa := b)"] obtain m' where m': "put_bytes (user_st tr) (m(pa := b)) (q + 1) bs = Some m'"
    "\<forall>i < length bs. m' (the (tr (q + word_of_nat (Suc i)))) = bs ! i"
    "\<forall>a. (\<forall>i < length bs. tr (q + word_of_nat (Suc i)) \<noteq> Some a) \<longrightarrow> m' a = (m(pa := b)) a"
    unfolding sh by blast
  have run: "put_bytes (user_st tr) m q (b # bs) = Some m'" using pa m'(1) by (simp add: user_st_def)
  have at: "m' (the (tr (q + word_of_nat i))) = (b # bs) ! i" if "i < length (b # bs)" for i
    using m'(2,3) ne pa that by (cases i) (auto simp del: of_nat_Suc)
  have "m' a = m a" if "\<forall>i < length (b # bs). tr (q + word_of_nat i) \<noteq> Some a" for a
    using that [rule_format, of 0] that [rule_format, of "Suc _"] m'(3) pa by (auto simp del: of_nat_Suc)
  with run at show ?case by blast
qed

lemma get_bytes_user_nth:
  assumes "get_bytes (user_ld tr) m p n = Some bs" and "i < n"
  shows "bs ! i = m (the (tr (p + word_of_nat i)))"
  using assms
proof (induction n arbitrary: p bs i)
  case (Suc n)
  from Suc.prems(1) obtain b cs where b: "bs = b # cs" "get_bytes (user_ld tr) m (p + 1) n = Some cs"
    "user_ld tr m p = Some b" by (auto simp: bind_eq_Some_conv)
  then show ?case using Suc.IH [OF b(2)] Suc.prems(2)
    by (cases i) (auto simp: user_ld_def ac_simps)
qed simp

lemma copy_data_user:
  assumes "\<forall>i < n. tr (p + word_of_nat i) \<noteq> None \<and> tr (q + word_of_nat i) \<noteq> None"
    and "\<forall>i < n. \<forall>j < n. tr (p + word_of_nat i) \<noteq> tr (q + word_of_nat j)"
    and "\<forall>i < n. \<forall>j < n. tr (q + word_of_nat i) = tr (q + word_of_nat j) \<longrightarrow> i = j"
  shows "\<exists>m'. copy_data (user_ld tr) (user_st tr) p q (int n) m = Some m'
    \<and> (\<forall>i < n. m' (the (tr (q + word_of_nat i))) = m (the (tr (p + word_of_nat i))))
    \<and> (\<forall>a. (\<forall>i < n. tr (q + word_of_nat i) \<noteq> Some a) \<longrightarrow> m' a = m a)"
proof -
  have "disjoint_blocks (\<lambda>a. tr a \<noteq> None) (\<lambda>a. tr a \<noteq> None) (\<lambda>p q. tr p = tr q) p q n"
    using assms(1,2) by (simp add: disjoint_blocks_def)
  from um.copy_data_run [OF TrueI this, of m] obtain bs s' where r:
    "get_bytes (user_ld tr) m p n = Some bs" "put_bytes (user_st tr) m q bs = Some s'"
    "copy_data (user_ld tr) (user_st tr) p q (int n) m = Some s'" by blast
  have len: "length bs = n" using get_bytes_length [OF r(1)] .
  have "\<forall>i < length bs. tr (q + word_of_nat i) \<noteq> None"
    "\<forall>i < length bs. \<forall>j < length bs. tr (q + word_of_nat i) = tr (q + word_of_nat j) \<longrightarrow> i = j"
    using assms(1,3) len by auto
  from put_bytes_user [OF this, of m] r(2,3) len get_bytes_user_nth [OF r(1)] show ?thesis by auto
qed

section \<open>Checking user pointers\<close>

abbreviation (input) VERIFY_READ :: int where "VERIFY_READ \<equiv> 0"
abbreviation (input) VERIFY_WRITE :: int where "VERIFY_WRITE \<equiv> 1"

definition access_ok :: "int \<Rightarrow> DWord \<Rightarrow> DWord \<Rightarrow> int" where
  "access_ok type addr sz =
    (let addr_ini = drop_bit 12 addr;
         addr_fin = drop_bit 12 (addr + sz);
         default = (if addr_ini \<ge> USER_FIRST_PAGE \<and>
           addr_fin \<le> USER_FIRST_PAGE + of_nat NUM_PAG_CODE + of_nat NUM_PAG_DATA then 1 else 0)
     in if addr_fin < addr_ini then 0
        else if type = VERIFY_WRITE then
          (if addr_ini \<ge> USER_FIRST_PAGE + of_nat NUM_PAG_CODE \<and>
             addr_fin \<le> USER_FIRST_PAGE + of_nat NUM_PAG_CODE + of_nat NUM_PAG_DATA then 1 else default)
        else default)"

section \<open>Time\<close>

text \<open>
  \<^verbatim>\<open>divl\<close>: the 64-bit dividend \<open>upper:low\<close> by a 32-bit divisor. The processor raises a divide
  error when the divisor is zero or the quotient needs more than 32 bits.
\<close>

definition divl :: "DWord \<Rightarrow> DWord \<Rightarrow> DWord \<Rightarrow> (DWord \<times> DWord) option" where
  "divl d low upper =
    (let n = uint upper * 2 ^ 32 + uint low in
     if d = 0 \<or> n div uint d \<ge> 2 ^ 32 then None
     else Some (word_of_int (n div uint d), word_of_int (n mod uint d)))"

text \<open>The macro \<^verbatim>\<open>do_div(n, base)\<close>: the quotient left in \<open>n\<close> and the remainder.\<close>

definition do_div :: "64 word \<Rightarrow> DWord \<Rightarrow> (64 word \<times> DWord) option" where
  "do_div n base = do {
     let low = ucast n;
     let high = ucast (drop_bit 32 n);
     let (upper, high) = (if high \<noteq> 0 then (high mod base, high div base) else (high, high));
     (low, md) \<leftarrow> divl base low upper;
     Some (push_bit 32 (ucast high) OR ucast low, md) }"

text \<open>\<^verbatim>\<open>get_ticks\<close> on one reading of the time stamp counter (\<^verbatim>\<open>rdtsc\<close>: \<^verbatim>\<open>edx:eax\<close>).\<close>

abbreviation (input) CYCLESPERTICK :: DWord where "CYCLESPERTICK \<equiv> 109000"

definition ticks_of :: "64 word \<Rightarrow> DWord option" where
  "ticks_of tsc = do {
     let eax = (ucast tsc :: DWord);
     let edx = (ucast (drop_bit 32 tsc) :: DWord);
     let ticks = push_bit 32 (ucast edx) + ucast eax;
     (ticks, _) \<leftarrow> do_div ticks CYCLESPERTICK;
     Some (ucast ticks) }"

lemma access_ok_iff:
  "access_ok type addr sz = (if 256 \<le> drop_bit 12 addr \<and> drop_bit 12 addr \<le> drop_bit 12 (addr + sz)
     \<and> drop_bit 12 (addr + sz) \<le> 284 then 1 else 0)"
proof -
  have "264 \<le> x \<Longrightarrow> 256 \<le> x" for x :: DWord by (rule order_trans [of _ 264]) simp_all
  then show ?thesis by (auto simp: access_ok_def Let_def not_less)
qed

lemma access_ok_page:
  assumes "access_ok type addr sz \<noteq> 0" and "uint addr + uint sz < 2 ^ 32" and "i < unat sz"
  shows "0x100000 \<le> addr + word_of_nat i \<and> addr + word_of_nat i < 0x11D000"
proof -
  have i: "uint (word_of_nat i :: DWord) = int i"
    using assms(3) unsigned_less [of sz, where ?'a = nat] by (simp add: unsigned_of_nat take_bit_eq_mod)
  have ui: "int i < uint sz" using assms(3) by (simp add: uint_nat del: of_nat_unat)
  have a: "uint (addr + word_of_nat i) = uint addr + int i"
    using assms(2) ui i by (simp add: uint_word_ariths)
  have b: "uint (addr + sz) = uint addr + uint sz"
    using assms(2) by (simp add: uint_word_ariths)
  from assms(1) have "256 \<le> uint addr div 4096" "uint (addr + sz) div 4096 \<le> 284"
    by (auto simp: access_ok_iff word_le_def drop_bit_eq_div uint_div split: if_splits)
  then have "0x100000 \<le> uint addr" "uint addr + uint sz < 0x11D000" using b by auto
  then show ?thesis using a ui by (simp add: word_le_def word_less_def)
qed

text \<open>Schoolbook division of two digits to the base \<open>2 ^ 32\<close>.\<close>

lemma div_less_bound:
  fixes x b c :: int
  assumes "0 < b" and "x < b * c"
  shows "x div b < c"
proof (rule ccontr)
  assume "\<not> x div b < c"
  then have "b * c \<le> b * (x div b)" using assms(1) by simp
  also have "\<dots> \<le> x" using mult_div_mod_eq [of b x] pos_mod_sign [OF assms(1), of x] by linarith
  finally show False using assms(2) by simp
qed

lemma long_division:
  fixes H L b :: int
  assumes "0 < b" and "b \<le> 2 ^ 32" and "0 \<le> L" and "L < 2 ^ 32" and "0 \<le> H"
  shows "(H mod b * 2 ^ 32 + L) div b < 2 ^ 32"
    and "(H * 2 ^ 32 + L) div b = (H div b) * 2 ^ 32 + (H mod b * 2 ^ 32 + L) div b"
    and "(H * 2 ^ 32 + L) mod b = (H mod b * 2 ^ 32 + L) mod b"
proof -
  define q r where "q = H div b" and "r = H mod b"
  have H: "H = q * b + r" by (simp add: q_def r_def)
  have e: "H * 2 ^ 32 + L = (H mod b * 2 ^ 32 + L) + (H div b * 2 ^ 32) * b"
    unfolding q_def [symmetric] r_def [symmetric] by (simp add: H algebra_simps)
  show "(H * 2 ^ 32 + L) div b = (H div b) * 2 ^ 32 + (H mod b * 2 ^ 32 + L) div b"
    unfolding e using assms(1) by simp
  show "(H * 2 ^ 32 + L) mod b = (H mod b * 2 ^ 32 + L) mod b"
    unfolding e by simp
  have "H mod b \<le> b - 1" using pos_mod_bound [OF assms(1), of H] by simp
  then have "H mod b * 2 ^ 32 + L < b * 2 ^ 32" using assms(4) by simp
  then show "(H mod b * 2 ^ 32 + L) div b < 2 ^ 32"
    by (rule div_less_bound [OF assms(1)])
qed

lemma do_div_run:
  assumes "base \<noteq> 0"
  shows "do_div n base = Some (n div ucast base, ucast (n mod ucast base))"
proof -
  define H L b where "H = uint (drop_bit 32 n)" and "L = uint (ucast n :: DWord)" and "b = uint base"
  have b: "0 < b" "b \<le> 2 ^ 32" using assms uint_lt2p [of base] unsigned_greater_eq [of base]
    by (auto simp: b_def unsigned_eq_0_iff le_less)
  have H: "uint (ucast (drop_bit 32 n) :: DWord) = H" "0 \<le> H" "H < 2 ^ 32"
    using div_less_bound [of "2 ^ 32" "uint n" "2 ^ 32"] uint_lt2p [of n] pos_imp_zdiv_nonneg_iff [of "2 ^ 32" "uint n"] by (auto simp: H_def unsigned_ucast_eq uint_div drop_bit_eq_div take_bit_eq_mod)
  have L: "0 \<le> L" "L < 2 ^ 32" using uint_lt2p [of "ucast n :: DWord"] by (auto simp: L_def)
  have n: "uint n = H * 2 ^ 32 + L"
    by (simp add: H_def L_def unsigned_ucast_eq uint_div drop_bit_eq_div take_bit_eq_mod)
  note ld = long_division [OF b L H(2)]
  let ?u = "if ucast (drop_bit 32 n) \<noteq> (0 :: DWord) then (ucast (drop_bit 32 n) mod base, ucast (drop_bit 32 n) div base)
    else (ucast (drop_bit 32 n), ucast (drop_bit 32 n))"
  have u: "?u = (word_of_int (H mod b), word_of_int (H div b))"
    using H by (auto simp: word_mod_def word_div_def b_def unsigned_eq_0_iff)
  have up: "uint (word_of_int (H mod b) :: DWord) = H mod b"
  proof -
    have "0 \<le> H mod b" "H mod b < 2 ^ 32"
      using b pos_mod_bound [OF b(1), of H] pos_mod_sign [OF b(1), of H] by linarith+
    then show ?thesis by (simp add: unsigned_of_int take_bit_eq_mod)
  qed
  have hi: "uint (word_of_int (H div b) :: DWord) = H div b"
  proof -
    have "H < b * 2 ^ 32" using b(1) H(3) by simp
    then have "H div b < 2 ^ 32" by (rule div_less_bound [OF b(1)])
    moreover have "0 \<le> H div b" using b H by (simp add: pos_imp_zdiv_nonneg_iff)
    ultimately show ?thesis by (simp add: unsigned_of_int take_bit_eq_mod)
  qed
  have nb: "uint (n div ucast base) = (H * 2 ^ 32 + L) div b" "uint (n mod ucast base) = (H * 2 ^ 32 + L) mod b"
    using n b by (simp_all add: uint_div uint_mod unsigned_ucast_eq b_def take_bit_eq_mod)
  define lo where "lo = (H mod b * 2 ^ 32 + L) div b"
  have lo: "0 \<le> lo" "lo < 2 ^ 32" using ld(1) b L pos_mod_sign [OF b(1), of H]
    by (auto simp: lo_def pos_imp_zdiv_nonneg_iff)
  have dv: "divl base (ucast n) (word_of_int (H mod b))
      = Some (word_of_int lo, word_of_int ((H mod b * 2 ^ 32 + L) mod b))"
    using assms up ld(1) by (simp add: divl_def Let_def b_def [symmetric] L_def [symmetric] lo_def)
  have "push_bit 32 (ucast (word_of_int (H div b) :: DWord)) OR ucast (word_of_int lo :: DWord)
      = (word_of_int ((H div b) * 2 ^ 32 + lo) :: 64 word)"
  proof -
    have dj: "push_bit 32 (ucast (word_of_int (H div b) :: DWord)) AND (ucast (word_of_int lo :: DWord) :: 64 word) = 0"
      by (rule bit_word_eqI) (auto simp: bit_simps)
    have "ucast (word_of_int lo :: DWord) = (word_of_int lo :: 64 word)"
      using lo by (simp add: unsigned_of_int take_bit_eq_mod)
    moreover have "ucast (word_of_int (H div b) :: DWord) = (word_of_int (H div b) :: 64 word)"
      using hi by (simp add: ucast_eq)
    ultimately show ?thesis using disjunctive_add_eq_or [OF dj] by (simp add: push_bit_eq_mult mult.commute)
  qed
  also have "\<dots> = n div ucast base" using nb(1) ld(2) lo_def by (metis word_of_int_uint)
  finally have q: "push_bit 32 (ucast (word_of_int (H div b) :: DWord)) OR ucast (word_of_int lo :: DWord)
      = n div ucast base" .
  have "word_of_int ((H mod b * 2 ^ 32 + L) mod b) = (ucast (n mod ucast base) :: DWord)"
    using nb(2) ld(3) by (metis ucast_eq)
  with dv q show ?thesis unfolding do_div_def Let_def u by simp
qed

text \<open>The sum that joins \<^verbatim>\<open>edx\<close> and \<^verbatim>\<open>eax\<close> is the whole counter.\<close>

lemma tsc_join: "push_bit 32 (ucast (ucast (drop_bit 32 t) :: DWord)) + ucast (ucast t :: DWord) = (t :: 64 word)"
proof -
  have "push_bit 32 (ucast (ucast (drop_bit 32 t) :: DWord)) AND ucast (ucast t :: DWord) = (0 :: 64 word)"
    by (rule bit_word_eqI) (auto simp: bit_simps)
  then have "push_bit 32 (ucast (ucast (drop_bit 32 t) :: DWord)) + ucast (ucast t :: DWord)
    = push_bit 32 (ucast (ucast (drop_bit 32 t) :: DWord)) OR (ucast (ucast t :: DWord) :: 64 word)"
    by (rule disjunctive_add_eq_or)
  also have "\<dots> = t" by (rule bit_word_eqI) (auto simp: bit_simps)
  finally show ?thesis .
qed

section \<open>Properties\<close>

text \<open>
  C37. \<^verbatim>\<open>get_ticks\<close> never raises a divide error, for any value of the 64-bit time stamp counter,
  and returns the low 32 bits of the counter divided by 109000 cycles: the two-step \<^verbatim>\<open>do_div\<close> is
  exact although \<^verbatim>\<open>divl\<close> only yields 32-bit quotients.
\<close>

theorem ticks_of_correct: "ticks_of tsc = Some (ucast (tsc div 109000))"
  by (simp add: ticks_of_def Let_def tsc_join do_div_run)



text \<open>
  The check for writing is no stricter than the check for reading: the \<^verbatim>\<open>VERIFY_WRITE\<close> case
  falls through to the default one, so blocks of the code pages pass both, and both admit a
  block that wraps around and ends in its first page.
\<close>

theorem access_ok_write_is_read:
  "access_ok VERIFY_WRITE addr sz = access_ok VERIFY_READ addr sz
   \<and> access_ok VERIFY_WRITE 0x100000 28 = 1
   \<and> access_ok VERIFY_WRITE 0x108800 0xFFFFFFF0 = 1"
  by (simp add: access_ok_iff)

text \<open>
  C18. \<^verbatim>\<open>copy_data\<close> copies exactly: when the \<open>n\<close> source and the \<open>n\<close> destination addresses are
  mapped, and the destination addresses are physically distinct and none of them is a source, then the
  mixed word and byte loops return, destination byte \<open>i\<close> holds what source byte \<open>i\<close> held, and no
  other byte of physical memory changes.
\<close>

theorem copy_data_exact:
  assumes "\<forall>i < n. tr (p + word_of_nat i) \<noteq> None \<and> tr (q + word_of_nat i) \<noteq> None"
    and "\<forall>i < n. \<forall>j < n. tr (p + word_of_nat i) \<noteq> tr (q + word_of_nat j)"
    and "\<forall>i < n. \<forall>j < n. tr (q + word_of_nat i) = tr (q + word_of_nat j) \<longrightarrow> i = j"
  shows "\<exists>m'. copy_data (user_ld tr) (user_st tr) p q (int n) m = Some m'
    \<and> (\<forall>i < n. m' (the (tr (q + word_of_nat i))) = m (the (tr (p + word_of_nat i))))
    \<and> (\<forall>a. (\<forall>i < n. tr (q + word_of_nat i) \<noteq> Some a) \<longrightarrow> m' a = m a)"
  using assms by (rule copy_data_user)

theorem copy_data_exact_witness:
  "\<exists>m'. copy_data (user_ld Some) (user_st Some) 16 32 (int 7) (\<lambda>a. ucast a) = Some m'
    \<and> (\<forall>i < 7. m' (32 + word_of_nat i) = ucast ((16 :: DWord) + word_of_nat i))"
proof -
  have "[0..<7] = [0, 1, 2, 3, 4, 5, 6 :: nat]" by (simp add: upt_rec)
  then have all: "(\<forall>i < 7. P i) = list_all P [0, 1, 2, 3, 4, 5, 6 :: nat]" for P
    by (metis atLeastLessThan_iff list_all_iff set_upt zero_le)
  have d: "\<forall>i < 7. \<forall>j < 7. (16 :: DWord) + word_of_nat i \<noteq> 32 + word_of_nat j" by (simp add: all)
  have e: "\<forall>i < 7. \<forall>j < 7. (32 :: DWord) + word_of_nat i = 32 + word_of_nat j \<longrightarrow> i = j" by (simp add: all)
  from copy_data_exact [of 7 Some 16 32 "\<lambda>a. ucast a"] d e show ?thesis by auto
qed

end
