(* ===== verification/Zeos_MM.thy ===== *)
theory Zeos_MM
  imports Zeos_Frames Zeos_Utils
begin

text \<open>
  Paging as \<^verbatim>\<open>zeOS/mm.c\<close> sets it up: page-table entries as 32-bit words with the bit fields of
  \<^verbatim>\<open>types.h\<close>, the static arrays \<^verbatim>\<open>dir_pages\<close> and \<^verbatim>\<open>pagusr_table\<close>, the operations on single
  entries, the initialisation loops, and the address translation of the processor over them.

  A \<^verbatim>\<open>page_table_entry *\<close> is an address. \<^verbatim>\<open>PT[page]\<close> is the word at \<open>PT + 4 * page\<close> modulo
  \<open>2 ^ 32\<close>; it is defined when it falls inside \<^verbatim>\<open>pagusr_table\<close>, in whichever of the ten tables
  (the code never checks \<open>page\<close>, and the tables are contiguous).
\<close>

section \<open>Page-table entries\<close>

definition pte_present :: "DWord \<Rightarrow> bool" where "pte_present e = bit e 0"
definition pte_rw :: "DWord \<Rightarrow> bool" where "pte_rw e = bit e 1"
definition pte_user :: "DWord \<Rightarrow> bool" where "pte_user e = bit e 2"
definition pte_pbase :: "DWord \<Rightarrow> DWord" where "pte_pbase e = drop_bit 12 e"

definition with_present :: "DWord \<Rightarrow> DWord" where "with_present e = e OR 1"
definition with_rw :: "DWord \<Rightarrow> DWord" where "with_rw e = e OR 2"
definition with_user :: "DWord \<Rightarrow> DWord" where "with_user e = e OR 4"

text \<open>Assigning the 20-bit field \<^verbatim>\<open>pbase_addr\<close> drops the upper bits of the value.\<close>

definition with_pbase :: "DWord \<Rightarrow> DWord \<Rightarrow> DWord" where
  "with_pbase f e = take_bit 12 e OR push_bit 12 f"

section \<open>The memory state\<close>

record mm =
  phys_mem :: frame_map
  dir_pages :: "nat \<Rightarrow> nat \<Rightarrow> DWord"
  pagusr_table :: "nat \<Rightarrow> DWord"
  pagusr_base :: DWord
  ram :: pmem
  cr3 :: "nat option"

abbreviation (input) PT_ENTRIES :: nat where "PT_ENTRIES \<equiv> NR_TASKS * TOTAL_PAGES"

definition pte_slot :: "mm \<Rightarrow> DWord \<Rightarrow> DWord \<Rightarrow> nat" where
  "pte_slot m PT page = unat (PT + 4 * page - pagusr_base m) div 4"

definition pt_read :: "mm \<Rightarrow> DWord \<Rightarrow> DWord \<Rightarrow> DWord option" where
  "pt_read m PT page =
     (let k = pte_slot m PT page in if k < PT_ENTRIES then Some (pagusr_table m k) else None)"

definition pt_write :: "DWord \<Rightarrow> DWord \<Rightarrow> DWord \<Rightarrow> mm \<Rightarrow> mm option" where
  "pt_write PT page e m =
     (let k = pte_slot m PT page in
      if k < PT_ENTRIES then Some (m\<lparr>pagusr_table := (pagusr_table m)(k := e)\<rparr>) else None)"

definition pt_update :: "DWord \<Rightarrow> DWord \<Rightarrow> (DWord \<Rightarrow> DWord) \<Rightarrow> mm \<Rightarrow> mm option" where
  "pt_update PT page f m = do { e \<leftarrow> pt_read m PT page; pt_write PT page (f e) m }"

text \<open>\<^verbatim>\<open>get_PT\<close>: the address in the first entry of a page directory (a row of \<^verbatim>\<open>dir_pages\<close>).\<close>

definition dir_PT :: "mm \<Rightarrow> nat option \<Rightarrow> DWord option" where
  "dir_PT m dir = do {
     row \<leftarrow> dir;
     if row < NR_TASKS then Some (push_bit 12 (pte_pbase (dir_pages m row 0))) else None }"

section \<open>Operations on one entry\<close>

definition set_ss_pag :: "DWord \<Rightarrow> DWord \<Rightarrow> DWord \<Rightarrow> mm \<Rightarrow> mm option" where
  "set_ss_pag PT page frame m = do {
     m \<leftarrow> pt_write PT page 0 m;
     m \<leftarrow> pt_update PT page (with_pbase frame) m;
     m \<leftarrow> pt_update PT page with_user m;
     m \<leftarrow> pt_update PT page with_rw m;
     pt_update PT page with_present m }"

definition del_ss_pag :: "DWord \<Rightarrow> DWord \<Rightarrow> mm \<Rightarrow> mm option" where
  "del_ss_pag PT logical_page m = pt_write PT logical_page 0 m"

definition get_frame :: "mm \<Rightarrow> DWord \<Rightarrow> DWord \<Rightarrow> DWord option" where
  "get_frame m PT logical_page = map_option pte_pbase (pt_read m PT logical_page)"

text \<open>The byte map inside the memory state.\<close>

definition mm_alloc_frame :: "mm \<Rightarrow> (int \<times> mm) option" where
  "mm_alloc_frame m = do { (f, pm) \<leftarrow> alloc_frame (phys_mem m); Some (f, m\<lparr>phys_mem := pm\<rparr>) }"

definition mm_free_frame :: "DWord \<Rightarrow> mm \<Rightarrow> mm option" where
  "mm_free_frame f m = do { pm \<leftarrow> free_frame f (phys_mem m); Some (m\<lparr>phys_mem := pm\<rparr>) }"

section \<open>Initialisation\<close>

text \<open>The body of the loop of \<^verbatim>\<open>init_dir_pages\<close> on the first entry of directory \<open>i\<close>.\<close>

definition dir_entry :: "mm \<Rightarrow> nat \<Rightarrow> DWord" where
  "dir_entry m i =
     with_present (with_rw (with_user
       (with_pbase (drop_bit 12 (pagusr_base m + 4096 * word_of_nat i)) 0)))"

function init_dirs :: "nat \<Rightarrow> mm \<Rightarrow> mm" where
  "init_dirs i m =
     (if i < NR_TASKS
      then init_dirs (Suc i) (m\<lparr>dir_pages := (dir_pages m)(i := (dir_pages m i)(0 := dir_entry m i))\<rparr>)
      else m)"
  by pat_completeness auto
termination
  by (relation "measure (\<lambda>(i, m). NR_TASKS - i)") auto

declare init_dirs.simps [simp del]

definition init_dir_pages :: "mm \<Rightarrow> mm" where
  "init_dir_pages m = init_dirs 0 m"

text \<open>The two inner loops of \<^verbatim>\<open>init_table_pages\<close> on table \<open>j\<close>, from entry \<open>i\<close> on.\<close>

function reset_table :: "nat \<Rightarrow> nat \<Rightarrow> mm \<Rightarrow> mm" where
  "reset_table j i m =
     (if i < TOTAL_PAGES
      then reset_table j (Suc i) (m\<lparr>pagusr_table := (pagusr_table m)(TOTAL_PAGES * j + i := 0)\<rparr>)
      else m)"
  by pat_completeness auto
termination
  by (relation "measure (\<lambda>(j, i, m). TOTAL_PAGES - i)") auto

declare reset_table.simps [simp del]

function kernel_table :: "nat \<Rightarrow> nat \<Rightarrow> mm \<Rightarrow> mm" where
  "kernel_table j i m =
     (if i < NUM_PAG_KERNEL
      then kernel_table j (Suc i)
        (m\<lparr>pagusr_table := (pagusr_table m)(TOTAL_PAGES * j + i :=
          with_present (with_rw (with_pbase (word_of_nat i) (pagusr_table m (TOTAL_PAGES * j + i)))))\<rparr>)
      else m)"
  by pat_completeness auto
termination
  by (relation "measure (\<lambda>(j, i, m). NUM_PAG_KERNEL - i)") auto

declare kernel_table.simps [simp del]

function init_tables :: "nat \<Rightarrow> mm \<Rightarrow> mm" where
  "init_tables j m =
     (if j < NR_TASKS then init_tables (Suc j) (kernel_table j 1 (reset_table j 0 m)) else m)"
  by pat_completeness auto
termination
  by (relation "measure (\<lambda>(j, m). NR_TASKS - j)") auto

declare init_tables.simps [simp del]

definition init_table_pages :: "mm \<Rightarrow> mm" where
  "init_table_pages m = init_tables 0 m"

text \<open>
  \<^verbatim>\<open>set_user_pages\<close>: the loops over the code pages (read-only) and the data pages of the first
  process. The result of \<^verbatim>\<open>alloc_frame\<close> is stored without a check.
\<close>

function map_code_pages :: "DWord \<Rightarrow> nat \<Rightarrow> mm \<Rightarrow> mm option" where
  "map_code_pages PT pag m =
     (if pag < NUM_PAG_CODE then do {
        let p = word_of_nat (PAG_LOG_INIT_CODE + pag);
        (new_ph_pag, m) \<leftarrow> mm_alloc_frame m;
        m \<leftarrow> pt_write PT p 0 m;
        m \<leftarrow> pt_update PT p (with_pbase (word_of_int new_ph_pag)) m;
        m \<leftarrow> pt_update PT p with_user m;
        m \<leftarrow> pt_update PT p with_present m;
        map_code_pages PT (Suc pag) m }
      else Some m)"
  by pat_completeness auto
termination
  by (relation "measure (\<lambda>(PT, pag, m). NUM_PAG_CODE - pag)") auto

declare map_code_pages.simps [simp del]

function map_data_pages :: "DWord \<Rightarrow> nat \<Rightarrow> mm \<Rightarrow> mm option" where
  "map_data_pages PT pag m =
     (if pag < NUM_PAG_DATA then do {
        let p = word_of_nat (PAG_LOG_INIT_DATA + pag);
        (new_ph_pag, m) \<leftarrow> mm_alloc_frame m;
        m \<leftarrow> pt_write PT p 0 m;
        m \<leftarrow> pt_update PT p (with_pbase (word_of_int new_ph_pag)) m;
        m \<leftarrow> pt_update PT p with_user m;
        m \<leftarrow> pt_update PT p with_rw m;
        m \<leftarrow> pt_update PT p with_present m;
        map_data_pages PT (Suc pag) m }
      else Some m)"
  by pat_completeness auto
termination
  by (relation "measure (\<lambda>(PT, pag, m). NUM_PAG_DATA - pag)") auto

declare map_data_pages.simps [simp del]

definition set_user_pages :: "nat option \<Rightarrow> mm \<Rightarrow> mm option" where
  "set_user_pages dir m = do {
     process_PT \<leftarrow> dir_PT m dir;
     m \<leftarrow> map_code_pages process_PT 0 m;
     map_data_pages process_PT 0 m }"

function free_data_pages :: "DWord \<Rightarrow> nat \<Rightarrow> mm \<Rightarrow> mm option" where
  "free_data_pages PT pag m =
     (if pag < NUM_PAG_DATA then do {
        e \<leftarrow> pt_read m PT (word_of_nat (PAG_LOG_INIT_DATA + pag));
        m \<leftarrow> mm_free_frame (pte_pbase e) m;
        m \<leftarrow> pt_write PT (word_of_nat (PAG_LOG_INIT_DATA + pag)) 0 m;
        free_data_pages PT (Suc pag) m }
      else Some m)"
  by pat_completeness auto
termination
  by (relation "measure (\<lambda>(PT, pag, m). NUM_PAG_DATA - pag)") auto

declare free_data_pages.simps [simp del]

definition free_user_pages :: "nat option \<Rightarrow> mm \<Rightarrow> mm option" where
  "free_user_pages dir m = do {
     process_PT \<leftarrow> dir_PT m dir;
     free_data_pages process_PT 0 m }"

section \<open>Address translation\<close>

text \<open>
  What the processor does with an access in kernel mode when paging is on: only the present
  bits are checked. Every access reads the tables; \<^verbatim>\<open>Zeos_TLB\<close> says when the processor's cache makes no difference.
\<close>

definition page_entry :: "mm \<Rightarrow> DWord \<Rightarrow> DWord option" where
  "page_entry m va = do {
     row \<leftarrow> cr3 m;
     let pde = dir_pages m row (unat (drop_bit 22 va));
     if pte_present pde then pt_read m (push_bit 12 (pte_pbase pde)) (take_bit 10 (drop_bit 12 va)) else None }"

definition translate :: "mm \<Rightarrow> vmap" where
  "translate m va = do {
     e \<leftarrow> page_entry m va;
     if pte_present e then Some (push_bit 12 (pte_pbase e) OR take_bit 12 va) else None }"

section \<open>Facts about entries\<close>

definition user_pte :: "DWord \<Rightarrow> DWord" where
  "user_pte f = push_bit 12 f OR 7"

lemmas pte_defs = pte_present_def pte_rw_def pte_user_def pte_pbase_def
  with_present_def with_rw_def with_user_def with_pbase_def user_pte_def

lemma user_pte_fields [simp]:
  "pte_present (user_pte f)" "pte_rw (user_pte f)" "pte_user (user_pte f)"
  by (auto simp: pte_defs bit_simps)

lemma pte_pbase_user_pte [simp]: "pte_pbase (user_pte f) = take_bit 20 f"
proof (rule bit_word_eqI)
  fix n assume n: "n < LENGTH(32)"
  have "\<not> bit (7 :: DWord) (12 + n)" by (cases "n < 20") (auto simp: bit_numeral_rec numeral_eq_Suc bit_simps)
  then show "bit (pte_pbase (user_pte f)) n = bit (take_bit 20 f) n"
    using n by (auto simp: pte_defs bit_simps)
qed

lemma pte_zero [simp]: "\<not> pte_present 0" "\<not> pte_rw 0" "\<not> pte_user 0" "pte_pbase 0 = 0"
  by (simp_all add: pte_defs)

lemma user_pte_build: "with_present (with_rw (with_user (with_pbase f 0))) = user_pte f"
  by (simp add: pte_defs or.assoc)

section \<open>Well-formed tables\<close>

definition row_PT :: "mm \<Rightarrow> nat \<Rightarrow> DWord" where
  "row_PT m r = pagusr_base m + 4096 * word_of_nat r"

definition tables_ok :: "mm \<Rightarrow> bool" where
  "tables_ok m \<longleftrightarrow> take_bit 12 (pagusr_base m) = 0 \<and> uint (pagusr_base m) + 40960 \<le> 2 ^ 32 \<and>
     (\<forall>r < 10. dir_pages m r 0 = dir_entry m r \<and> (\<forall>k. 0 < k \<and> k < 1024 \<longrightarrow> \<not> pte_present (dir_pages m r k)))"

lemma dir_entry_PT:
  assumes "take_bit 12 (pagusr_base m) = 0"
  shows "push_bit 12 (pte_pbase (dir_entry m r)) = row_PT m r"
proof -
  define b where "b = drop_bit 12 (pagusr_base m)"
  have "push_bit 12 b + take_bit 12 (pagusr_base m) = pagusr_base m"
    unfolding b_def by (rule bits_ident)
  then have "pagusr_base m = push_bit 12 b" using assms by simp
  then have "row_PT m r = push_bit 12 (b + word_of_nat r)"
    by (simp add: row_PT_def push_bit_eq_mult algebra_simps)
  then have t: "take_bit 12 (row_PT m r) = 0" by (simp add: take_bit_push_bit)
  have "push_bit 12 (pte_pbase (dir_entry m r)) = push_bit 12 (take_bit 20 (drop_bit 12 (row_PT m r)))"
    by (simp add: dir_entry_def user_pte_build row_PT_def)
  also have "\<dots> = push_bit 12 (drop_bit 12 (row_PT m r))"
    by (rule bit_word_eqI) (auto simp: bit_simps)
  also have "\<dots> = row_PT m r" using bits_ident [of 12 "row_PT m r"] t by simp
  finally show ?thesis .
qed

lemma dir_PT_run: "tables_ok m \<Longrightarrow> r < 10 \<Longrightarrow> dir_PT m (Some r) = Some (row_PT m r)"
  by (simp add: dir_PT_def tables_ok_def dir_entry_PT)

lemma pte_slot_row:
  assumes "1024 * r + unat page < 10240"
  shows "pte_slot m (row_PT m r) page = 1024 * r + unat page"
proof -
  have "row_PT m r + 4 * page - pagusr_base m = word_of_nat (4096 * r + 4 * unat page)"
    by (simp add: row_PT_def)
  then have "unat (row_PT m r + 4 * page - pagusr_base m) = 4096 * r + 4 * unat page"
    using assms by (simp add: unat_of_nat take_bit_eq_mod del: of_nat_add of_nat_mult)
  then show ?thesis by (simp add: pte_slot_def)
qed

lemma pte_slot_upd [simp]: "pte_slot (m\<lparr>pagusr_table := t\<rparr>) = pte_slot m"
  by (intro ext) (simp add: pte_slot_def)

lemma pt_read_row:
  "1024 * r + unat page < 10240 \<Longrightarrow> pt_read m (row_PT m r) page = Some (pagusr_table m (1024 * r + unat page))"
  by (simp add: pt_read_def pte_slot_row)

lemma pt_write_row:
  "1024 * r + unat page < 10240 \<Longrightarrow>
   pt_write (row_PT m r) page e m = Some (m\<lparr>pagusr_table := (pagusr_table m)(1024 * r + unat page := e)\<rparr>)"
  by (simp add: pt_write_def pte_slot_row)

lemma set_ss_pag_slot:
  "pte_slot m PT page < 10240 \<Longrightarrow>
   set_ss_pag PT page f m = Some (m\<lparr>pagusr_table := (pagusr_table m)(pte_slot m PT page := user_pte f)\<rparr>)"
  by (simp add: set_ss_pag_def pt_write_def pt_update_def pt_read_def user_pte_build)

lemma set_ss_pag_row:
  "1024 * r + unat page < 10240 \<Longrightarrow>
   set_ss_pag (row_PT m r) page f m
     = Some (m\<lparr>pagusr_table := (pagusr_table m)(1024 * r + unat page := user_pte f)\<rparr>)"
  by (simp add: set_ss_pag_slot pte_slot_row)

lemma del_ss_pag_row:
  "1024 * r + unat page < 10240 \<Longrightarrow>
   del_ss_pag (row_PT m r) page m = Some (m\<lparr>pagusr_table := (pagusr_table m)(1024 * r + unat page := 0)\<rparr>)"
  by (simp add: del_ss_pag_def pt_write_row)

lemma get_frame_row:
  "1024 * r + unat page < 10240 \<Longrightarrow>
   get_frame m (row_PT m r) page = Some (pte_pbase (pagusr_table m (1024 * r + unat page)))"
  by (simp add: get_frame_def pt_read_row)

lemma row_PT_upd [simp]:
  "row_PT (m\<lparr>pagusr_table := t\<rparr>) = row_PT m" "row_PT (m\<lparr>phys_mem := pm\<rparr>) = row_PT m"
  "row_PT (m\<lparr>ram := rm\<rparr>) = row_PT m" "row_PT (m\<lparr>cr3 := c\<rparr>) = row_PT m"
  by (auto simp: row_PT_def fun_eq_iff)

lemma tables_ok_upd [simp]:
  "tables_ok (m\<lparr>pagusr_table := t\<rparr>) = tables_ok m" "tables_ok (m\<lparr>phys_mem := pm\<rparr>) = tables_ok m"
  "tables_ok (m\<lparr>ram := rm\<rparr>) = tables_ok m" "tables_ok (m\<lparr>cr3 := c\<rparr>) = tables_ok m"
  by (auto simp: tables_ok_def dir_entry_def)

text \<open>The translation on well-formed tables: one table of 1024 entries, no second directory entry.\<close>

lemma page_entry_run:
  assumes "tables_ok m" and "cr3 m = Some r" and "r < 10" and "drop_bit 22 va = 0"
  shows "page_entry m va = Some (pagusr_table m (1024 * r + unat (drop_bit 12 va)))"
proof -
  have tb: "take_bit 10 (drop_bit 12 va) = drop_bit 12 va"
  proof (rule bit_word_eqI)
    fix n
    have "\<not> bit (drop_bit 22 va) (n - 10)" by (simp add: assms(4))
    then have "n \<ge> 10 \<Longrightarrow> \<not> bit va (12 + n)" by (simp add: bit_simps)
    then show "bit (take_bit 10 (drop_bit 12 va)) n = bit (drop_bit 12 va) n"
      by (cases "n < 10") (auto simp: bit_simps)
  qed
  then have "unat (take_bit 10 (drop_bit 12 va)) < 1024"
    using take_bit_nat_less_exp [of 10 "unat (drop_bit 12 va)"] by (simp only: unsigned_take_bit_eq [symmetric]) simp
  then have lt: "1024 * r + unat (take_bit 10 (drop_bit 12 va)) < 10240" using assms(3) by simp
  from assms have d: "dir_pages m r 0 = dir_entry m r" "take_bit 12 (pagusr_base m) = 0" by (auto simp: tables_ok_def)
  have "pte_present (dir_entry m r)" by (simp add: dir_entry_def user_pte_build)
  then show ?thesis
    using assms(4) d assms(2) pt_read_row [OF lt, of m] tb by (simp add: page_entry_def dir_entry_PT Let_def)
qed

lemma translate_run:
  assumes "tables_ok m" and "cr3 m = Some r" and "r < 10"
  shows "translate m va = (if drop_bit 22 va = 0 then
      let e = pagusr_table m (1024 * r + unat (drop_bit 12 va)) in
      if pte_present e then Some (push_bit 12 (pte_pbase e) OR take_bit 12 va) else None else None)"
proof (cases "drop_bit 22 va = 0")
  case True
  then show ?thesis using page_entry_run [OF assms] by (simp add: translate_def Let_def)
next
  case False
  have "unat (drop_bit 22 va) \<noteq> 0" using False by (simp only: unsigned_eq_0_iff) simp
  moreover have "unat (drop_bit 22 va) < 1024" using unsigned_less [of va, where ?'a = nat]
    by (simp add: unat_div drop_bit_eq_div less_mult_imp_div_less)
  ultimately have "page_entry m va = None" using assms by (auto simp: page_entry_def tables_ok_def Let_def)
  then show ?thesis using False by (simp add: translate_def)
qed

section \<open>The tables after initialisation\<close>

definition kernel_pte :: "DWord \<Rightarrow> DWord" where
  "kernel_pte f = push_bit 12 f OR 3"

lemma init_dirs_run:
  "init_dirs i m = m\<lparr>dir_pages := \<lambda>r k. if i \<le> r \<and> r < 10 \<and> k = 0 then dir_entry m r else dir_pages m r k\<rparr>"
proof (induction i m rule: init_dirs.induct)
  case (1 i m)
  show ?case
  proof (cases "i < 10")
    case True
    show ?thesis
      by (subst init_dirs.simps, simp only: True if_True "1.IH" [OF True], intro mm.equality) (use True in \<open>auto simp: dir_entry_def fun_eq_iff\<close>)
  next
    case False
    show ?thesis by (subst init_dirs.simps, simp only: False if_False, intro mm.equality) (use False in \<open>auto simp: fun_eq_iff\<close>)
  qed
qed

lemma reset_table_run:
  "reset_table j i m = m\<lparr>pagusr_table := \<lambda>k. if 1024 * j + i \<le> k \<and> k < 1024 * j + 1024 then 0 else pagusr_table m k\<rparr>"
proof (induction j i m rule: reset_table.induct)
  case (1 j i m)
  show ?case
  proof (cases "i < 1024")
    case True
    show ?thesis
      by (subst reset_table.simps, simp only: True if_True "1.IH" [OF True], intro mm.equality) (use True in \<open>auto simp: fun_eq_iff\<close>)
  next
    case False
    show ?thesis by (subst reset_table.simps, simp only: False if_False, intro mm.equality) (use False in \<open>auto simp: fun_eq_iff\<close>)
  qed
qed

lemma kernel_table_run:
  "kernel_table j i m = m\<lparr>pagusr_table := \<lambda>k. if 1024 * j + i \<le> k \<and> k < 1024 * j + 256
     then with_present (with_rw (with_pbase (word_of_nat (k - 1024 * j)) (pagusr_table m k))) else pagusr_table m k\<rparr>"
proof (induction j i m rule: kernel_table.induct)
  case (1 j i m)
  show ?case
  proof (cases "i < 256")
    case True
    show ?thesis
      by (subst kernel_table.simps, simp only: True if_True "1.IH" [OF True], intro mm.equality) (use True in \<open>auto simp: fun_eq_iff\<close>)
  next
    case False
    show ?thesis by (subst kernel_table.simps, simp only: False if_False, intro mm.equality) (use False in \<open>auto simp: fun_eq_iff\<close>)
  qed
qed

definition boot_entry :: "nat \<Rightarrow> DWord" where
  "boot_entry p = (if 1 \<le> p \<and> p < 256 then kernel_pte (word_of_nat p) else 0)"

lemma kernel_pte_build: "with_present (with_rw (with_pbase f 0)) = kernel_pte f"
  by (simp add: pte_defs kernel_pte_def or.assoc)

lemma init_tables_run:
  "init_tables j m = m\<lparr>pagusr_table := \<lambda>k. if 1024 * j \<le> k \<and> k < 10240 then boot_entry (k mod 1024)
     else pagusr_table m k\<rparr>"
proof (induction j m rule: init_tables.induct)
  case (1 j m)
  show ?case
  proof (cases "j < 10")
    case True
    have md: "k mod 1024 = k - 1024 * j" if "1024 * j \<le> k" "k < 1024 * j + 1024" for k
      using that by (metis add_diff_inverse_nat mod_less mod_mult_self4 nat_add_left_cancel_less not_less mult.commute)
    show ?thesis
      by (subst init_tables.simps, simp only: True if_True "1.IH" [OF True], intro mm.equality)
        (use True md in \<open>auto simp: kernel_table_run reset_table_run kernel_pte_build boot_entry_def fun_eq_iff\<close>)
  next
    case False
    show ?thesis by (subst init_tables.simps, simp only: False if_False, intro mm.equality) (use False in \<open>auto simp: fun_eq_iff\<close>)
  qed
qed

text \<open>The first process gets the frames 256, 258, and so on, in the order of its pages.\<close>

definition boot_map :: "nat \<Rightarrow> frame_map" where
  "boot_map n = map (\<lambda>i. if i < 256 \<or> even i \<and> i < 256 + 2 * n then 1 else 0) [0..<1024]"

lemma boot_map_props [simp]: "length (boot_map n) = 1024"
  "i < 1024 \<Longrightarrow> boot_map n ! i = (if i < 256 \<or> even i \<and> i < 256 + 2 * n then 1 else 0)"
  by (simp_all add: boot_map_def)

lemma init_frames_boot: "length m = 1024 \<Longrightarrow> init_frames m = Some (boot_map 0)"
  by (auto simp: init_frames_run list_eq_iff_nth_eq nth_append)

lemma alloc_frame_boot:
  assumes "n < 384"
  shows "alloc_frame (boot_map n) = Some (256 + 2 * int n, boot_map (Suc n))"
  using boot_map_props(1) [of n]
proof (cases rule: alloc_frame_cases)
  case (found k)
  then have k: "256 + 2 * n \<le> k" by (auto split: if_splits)
  have "\<not> 256 + 2 * n < k"
  proof
    assume "256 + 2 * n < k"
    with found(5) have "boot_map n ! (256 + 2 * n) \<noteq> 0" by (simp add: seen_def)
    then show False using assms by simp
  qed
  with k have "k = 256 + 2 * n" by simp
  moreover have "(boot_map n)[256 + 2 * n := 1] = boot_map (Suc n)"
  proof (rule nth_equalityI)
    fix i assume i: "i < length ((boot_map n)[256 + 2 * n := 1])"
    have "even i \<Longrightarrow> i < 256 + 2 * Suc n \<longleftrightarrow> i < 256 + 2 * n \<or> i = 256 + 2 * n" by presburger
    then show "(boot_map n)[256 + 2 * n := 1] ! i = boot_map (Suc n) ! i"
      using i by (cases "i = 256 + 2 * n") auto
  qed simp
  ultimately show ?thesis using found(6) by simp
next
  case full
  from full(1) [unfolded seen_def, rule_format, of "256 + 2 * n"] assms show ?thesis by simp
qed

definition user_ro_pte :: "DWord \<Rightarrow> DWord" where
  "user_ro_pte f = push_bit 12 f OR 5"

lemma user_ro_pte_build: "with_present (with_user (with_pbase f 0)) = user_ro_pte f"
  by (simp add: pte_defs user_ro_pte_def or.assoc)

lemma unat_page: "n < 1024 \<Longrightarrow> unat (word_of_nat n :: DWord) = n"
  by (simp add: unat_of_nat take_bit_eq_mod)

lemma map_code_run:
  assumes "r < 10" and "phys_mem m = boot_map pag" and "pag \<le> 8"
  shows "map_code_pages (row_PT m r) pag m = Some (m\<lparr>phys_mem := boot_map 8,
     pagusr_table := \<lambda>k. if 1024 * r + 256 + pag \<le> k \<and> k < 1024 * r + 264
       then user_ro_pte (256 + 2 * word_of_nat (k - (1024 * r + 256))) else pagusr_table m k\<rparr>)"
  using assms
proof (induction "8 - pag" arbitrary: pag m)
  case 0
  then show ?case by (subst map_code_pages.simps) (auto simp: fun_eq_iff intro!: mm.equality)
next
  case (Suc n)
  have lt: "pag < 8" using Suc.hyps(2) by simp
  define f where "f = (256 + 2 * word_of_nat pag :: DWord)"
  define m1 where "m1 = m\<lparr>phys_mem := boot_map (Suc pag),
    pagusr_table := (pagusr_table m)(1024 * r + (256 + pag) := user_ro_pte f)\<rparr>"
  have pg: "unat (word_of_nat (256 + pag) :: DWord) = 256 + pag" using Suc.hyps(2) by (intro unat_page) simp
  have slot: "pte_slot m' (row_PT m r) (word_of_nat (256 + pag)) = 1024 * r + (256 + pag)"
    if "pagusr_base m' = pagusr_base m" for m'
    using pte_slot_row [of r "word_of_nat (256 + pag)" m] that Suc.hyps(2) Suc.prems(1)
    unfolding pg by (simp add: pte_slot_def del: of_nat_add)
  have fw: "word_of_int (256 + 2 * int pag) = f" by (simp add: f_def)
  have "map_code_pages (row_PT m r) pag m = map_code_pages (row_PT m1 r) (Suc pag) m1"
    using lt Suc.prems alloc_frame_boot [of pag] slot fw
    by (subst map_code_pages.simps)
      (simp add: mm_alloc_frame_def pt_write_def pt_update_def pt_read_def user_ro_pte_build m1_def Let_def row_PT_def
        del: of_nat_add)
  also have "\<dots> = Some (m1\<lparr>phys_mem := boot_map 8,
     pagusr_table := \<lambda>k. if 1024 * r + 256 + Suc pag \<le> k \<and> k < 1024 * r + 264
       then user_ro_pte (256 + 2 * word_of_nat (k - (1024 * r + 256))) else pagusr_table m1 k\<rparr>)"
    using Suc.hyps(2) Suc.prems by (intro Suc.hyps(1)) (auto simp: m1_def)
  finally show ?case using Suc.hyps(2) by (auto simp: m1_def fun_eq_iff f_def intro!: mm.equality)
qed

lemma map_data_run:
  assumes "r < 10" and "phys_mem m = boot_map (8 + pag)" and "pag \<le> 20"
  shows "map_data_pages (row_PT m r) pag m = Some (m\<lparr>phys_mem := boot_map 28,
     pagusr_table := \<lambda>k. if 1024 * r + 264 + pag \<le> k \<and> k < 1024 * r + 284
       then user_pte (256 + 2 * word_of_nat (k - (1024 * r + 256))) else pagusr_table m k\<rparr>)"
  using assms
proof (induction "20 - pag" arbitrary: pag m)
  case 0
  then show ?case by (subst map_data_pages.simps) (auto simp: fun_eq_iff intro!: mm.equality)
next
  case (Suc n)
  have lt: "pag < 20" using Suc.hyps(2) by simp
  define f where "f = (256 + 2 * word_of_nat (8 + pag) :: DWord)"
  define m1 where "m1 = m\<lparr>phys_mem := boot_map (8 + Suc pag),
    pagusr_table := (pagusr_table m)(1024 * r + (264 + pag) := user_pte f)\<rparr>"
  have pg: "unat (word_of_nat (264 + pag) :: DWord) = 264 + pag" using Suc.hyps(2) by (intro unat_page) simp
  have slot: "pte_slot m' (row_PT m r) (word_of_nat (264 + pag)) = 1024 * r + (264 + pag)"
    if "pagusr_base m' = pagusr_base m" for m'
    using pte_slot_row [of r "word_of_nat (264 + pag)" m] that Suc.hyps(2) Suc.prems(1)
    unfolding pg by (simp add: pte_slot_def del: of_nat_add)
  have fw: "word_of_int (256 + 2 * int (8 + pag)) = f" by (simp add: f_def)
  have "map_data_pages (row_PT m r) pag m = map_data_pages (row_PT m1 r) (Suc pag) m1"
    using lt Suc.prems alloc_frame_boot [of "8 + pag"] slot fw
    by (subst map_data_pages.simps)
      (simp add: mm_alloc_frame_def pt_write_def pt_update_def pt_read_def user_pte_build m1_def Let_def row_PT_def
        del: of_nat_add)
  also have "\<dots> = Some (m1\<lparr>phys_mem := boot_map 28,
     pagusr_table := \<lambda>k. if 1024 * r + 264 + Suc pag \<le> k \<and> k < 1024 * r + 284
       then user_pte (256 + 2 * word_of_nat (k - (1024 * r + 256))) else pagusr_table m1 k\<rparr>)"
    using Suc.hyps(2) Suc.prems by (intro Suc.hyps(1)) (auto simp: m1_def)
  finally show ?case using Suc.hyps(2) by (auto simp: m1_def fun_eq_iff f_def intro!: mm.equality)
qed

lemma set_user_pages_run:
  assumes "tables_ok m" and "r < 10" and "phys_mem m = boot_map 0"
  shows "set_user_pages (Some r) m = Some (m\<lparr>phys_mem := boot_map 28,
     pagusr_table := \<lambda>k. if 1024 * r + 256 \<le> k \<and> k < 1024 * r + 264
       then user_ro_pte (256 + 2 * word_of_nat (k - (1024 * r + 256)))
       else if 1024 * r + 264 \<le> k \<and> k < 1024 * r + 284
       then user_pte (256 + 2 * word_of_nat (k - (1024 * r + 256))) else pagusr_table m k\<rparr>)"
proof -
  define m1 where "m1 = m\<lparr>phys_mem := boot_map 8,
     pagusr_table := \<lambda>k. if 1024 * r + 256 + 0 \<le> k \<and> k < 1024 * r + 264
       then user_ro_pte (256 + 2 * word_of_nat (k - (1024 * r + 256))) else pagusr_table m k\<rparr>"
  have c: "map_code_pages (row_PT m r) 0 m = Some m1"
    using map_code_run [OF assms(2), of m 0] assms(3) by (simp add: m1_def)
  have d: "map_data_pages (row_PT m1 r) 0 m1 = Some (m1\<lparr>phys_mem := boot_map 28,
     pagusr_table := \<lambda>k. if 1024 * r + 264 + 0 \<le> k \<and> k < 1024 * r + 284
       then user_pte (256 + 2 * word_of_nat (k - (1024 * r + 256))) else pagusr_table m1 k\<rparr>)"
    using assms(2) by (intro map_data_run) (simp_all add: m1_def)
  have "row_PT m1 r = row_PT m r" by (simp add: m1_def)
  with c d have "set_user_pages (Some r) m = Some (m1\<lparr>phys_mem := boot_map 28,
     pagusr_table := \<lambda>k. if 1024 * r + 264 + 0 \<le> k \<and> k < 1024 * r + 284
       then user_pte (256 + 2 * word_of_nat (k - (1024 * r + 256))) else pagusr_table m1 k\<rparr>)"
    using dir_PT_run [OF assms(1,2)] by (simp add: set_user_pages_def)
  also have "\<dots> = Some (m\<lparr>phys_mem := boot_map 28,
     pagusr_table := \<lambda>k. if 1024 * r + 256 \<le> k \<and> k < 1024 * r + 264
       then user_ro_pte (256 + 2 * word_of_nat (k - (1024 * r + 256)))
       else if 1024 * r + 264 \<le> k \<and> k < 1024 * r + 284
       then user_pte (256 + 2 * word_of_nat (k - (1024 * r + 256))) else pagusr_table m k\<rparr>)"
    by (auto simp: m1_def fun_eq_iff intro!: mm.equality)
  finally show ?thesis .
qed

lemma init_table_pages_run:
  "init_table_pages m = m\<lparr>pagusr_table := \<lambda>k. if k < 10240 then boot_entry (k mod 1024) else pagusr_table m k\<rparr>"
  by (simp add: init_table_pages_def init_tables_run)

lemma init_dir_pages_ok:
  assumes "take_bit 12 (pagusr_base m) = 0" and "uint (pagusr_base m) + 40960 \<le> 2 ^ 32"
    and "\<forall>r < 10. \<forall>k. 0 < k \<and> k < 1024 \<longrightarrow> \<not> pte_present (dir_pages m r k)"
  shows "tables_ok (init_dir_pages m)"
  using assms by (auto simp: init_dir_pages_def init_dirs_run tables_ok_def dir_entry_def)

subsection \<open>Physical addresses\<close>

definition phys_addr :: "DWord \<Rightarrow> DWord \<Rightarrow> DWord" where
  "phys_addr f va = push_bit 12 f OR take_bit 12 va"

lemma phys_addr_inj:
  assumes "phys_addr f va = phys_addr g vb"
  shows "take_bit 20 f = take_bit 20 g" and "take_bit 12 va = take_bit 12 vb"
proof -
  have e: "bit (phys_addr f va) n = bit (phys_addr g vb) n" for n using assms by simp
  show "take_bit 20 f = take_bit 20 g"
  proof (rule bit_word_eqI)
    fix n assume n: "n < LENGTH(32)"
    from e [of "12 + n"] show "bit (take_bit 20 f) n = bit (take_bit 20 g) n"
      by (cases "n < 20") (auto simp: phys_addr_def bit_simps)
  qed
  show "take_bit 12 va = take_bit 12 vb"
  proof (rule bit_word_eqI)
    fix n assume n: "n < LENGTH(32)"
    from e [of n] n show "bit (take_bit 12 va) n = bit (take_bit 12 vb) n"
      by (cases "n < 12") (auto simp: phys_addr_def bit_simps)
  qed
qed

lemma phys_addr_frame: "drop_bit 12 (phys_addr f va) = take_bit 20 f"
  by (rule bit_word_eqI) (auto simp: phys_addr_def bit_simps)

lemma phys_addr_take: "phys_addr (take_bit 20 f) va = phys_addr f va"
  unfolding phys_addr_def by (rule bit_word_eqI) (auto simp: bit_simps)

end
