(* ===== verification/Zeos_IO.thy ===== *)
theory Zeos_IO
  imports Zeos_Utils
begin

text \<open>
  The console of \<^verbatim>\<open>zeOS/io.c\<close> and \<^verbatim>\<open>devices.c\<close>: the text screen at \<^verbatim>\<open>0xb8000\<close> as an array of
  16-bit cells, the cursor \<^verbatim>\<open>x, y\<close> (bytes that wrap) and the bytes sent to the debug port
  \<^verbatim>\<open>0xe9\<close>. The screen array has no bound in C; cells from 2000 on are not visible.
\<close>

section \<open>State and operations\<close>

abbreviation (input) NUM_COLUMNS :: nat where "NUM_COLUMNS \<equiv> 80"
abbreviation (input) NUM_ROWS :: nat where "NUM_ROWS \<equiv> 25"

record screen =
  vga :: "nat \<Rightarrow> Word16"
  cur_x :: Byte
  cur_y :: Byte
  bochs :: "Byte list"

definition cell :: "Byte \<Rightarrow> Word16" where
  "cell c = (ucast c AND 0x00FF) OR 0x0200"

text \<open>\<^verbatim>\<open>y=(y+1)%NUM_ROWS\<close>: the sum is an \<^verbatim>\<open>int\<close>, the result a byte.\<close>

definition next_row :: "Byte \<Rightarrow> Byte" where
  "next_row y = word_of_int ((uint y + 1) mod int NUM_ROWS)"

definition printc :: "Byte \<Rightarrow> screen \<Rightarrow> screen" where
  "printc c s =
    (let s = s\<lparr>bochs := bochs s @ [c]\<rparr> in
     if c = 10 then s\<lparr>cur_x := 0, cur_y := next_row (cur_y s)\<rparr>
     else
       let s = s\<lparr>vga := (vga s)(unat (cur_y s) * NUM_COLUMNS + unat (cur_x s) := cell c)\<rparr>;
           s = s\<lparr>cur_x := cur_x s + 1\<rparr>
       in if unat (cur_x s) \<ge> NUM_COLUMNS then s\<lparr>cur_x := 0, cur_y := next_row (cur_y s)\<rparr> else s)"

text \<open>The loop of \<^verbatim>\<open>print_screen\<close> that converts the copied characters to cells.\<close>

fun fill_cells :: "nat \<Rightarrow> Byte list \<Rightarrow> (nat \<Rightarrow> Word16) \<Rightarrow> (nat \<Rightarrow> Word16)" where
  "fill_cells q [] v = v"
| "fill_cells q (c # cs) v = fill_cells (Suc q) cs (v(q := cell c))"

definition print_screen :: "vmap \<Rightarrow> pmem \<Rightarrow> DWord \<Rightarrow> screen \<Rightarrow> screen option" where
  "print_screen tr m a s = do {
     let s = s\<lparr>cur_x := 0, cur_y := 0\<rparr>;
     let sz = NUM_COLUMNS * NUM_ROWS;
     (_, dst) \<leftarrow> copy_from_user (buf_ld tr m) buf_st a 0 (int sz) (replicate sz 0);
     Some (s\<lparr>vga := fill_cells 0 dst (vga s)\<rparr>) }"

definition printc_xy :: "Byte \<Rightarrow> Byte \<Rightarrow> Byte \<Rightarrow> screen \<Rightarrow> screen" where
  "printc_xy mx my c s =
    (let cx = cur_x s; cy = cur_y s;
         s = printc c (s\<lparr>cur_x := mx, cur_y := my\<rparr>)
     in s\<lparr>cur_x := cx, cur_y := cy\<rparr>)"

text \<open>\<^verbatim>\<open>printk\<close> on a character array, up to its null character.\<close>

function printk_from :: "nat \<Rightarrow> Byte list \<Rightarrow> screen \<Rightarrow> screen option" where
  "printk_from i string s =
     (if i < length string then
        if string ! i \<noteq> 0 then printk_from (Suc i) string (printc (string ! i) s) else Some s
      else None)"
  by pat_completeness auto
termination
  by (relation "measure (\<lambda>(i, string, s). length string - i)") auto

declare printk_from.simps [simp del]

definition printk :: "Byte list \<Rightarrow> screen \<Rightarrow> screen option" where
  "printk string s = printk_from 0 string s"

text \<open>The loop of \<^verbatim>\<open>sys_write_console\<close> at index \<open>i\<close>.\<close>

function console_from :: "int \<Rightarrow> Byte list \<Rightarrow> int \<Rightarrow> screen \<Rightarrow> screen option" where
  "console_from i buffer sz s =
     (if i < sz then do {
        c \<leftarrow> arr_get buffer i;
        console_from (i + 1) buffer sz (printc c s) }
      else Some s)"
  by pat_completeness auto
termination
  by (relation "measure (\<lambda>(i, buffer, sz, s). nat (sz - i))") auto

declare console_from.simps [simp del]

definition sys_write_console :: "Byte list \<Rightarrow> int \<Rightarrow> screen \<Rightarrow> (int \<times> screen) option" where
  "sys_write_console buffer sz s = do {
     s \<leftarrow> console_from 0 buffer sz s;
     Some (sz, s) }"

section \<open>The cursor\<close>

definition screen_ok :: "screen \<Rightarrow> bool" where
  "screen_ok s \<longleftrightarrow> unat (cur_x s) < 80 \<and> unat (cur_y s) < 25"

definition cursor :: "screen \<Rightarrow> nat" where
  "cursor s = unat (cur_y s) * 80 + unat (cur_x s)"

lemma next_row_ok: "unat (next_row y) = (unat y + 1) mod 25"
proof -
  have "(uint y + 1) mod 25 = int ((unat y + 1) mod 25)"
    by (simp add: uint_nat zmod_int ac_simps del: of_nat_unat)
  then show ?thesis by (simp add: next_row_def unat_of_nat take_bit_eq_mod)
qed

lemma unat_inc:
  fixes x :: Byte
  assumes "unat x < 80"
  shows "unat (x + 1) = unat x + 1"
  using assms by (simp add: unat_word_ariths)

lemma printc_ok: "screen_ok s \<Longrightarrow> screen_ok (printc c s)"
  by (auto simp: printc_def Let_def screen_ok_def next_row_ok unat_inc)

lemma cursor_less: "screen_ok s \<Longrightarrow> cursor s < 2000"
  by (auto simp: screen_ok_def cursor_def)

lemma printc_cell:
  assumes "screen_ok s" and "c \<noteq> 10"
  shows "vga (printc c s) = (vga s)(cursor s := cell c)"
    and "cursor (printc c s) = (cursor s + 1) mod 2000"
proof -
  show "vga (printc c s) = (vga s)(cursor s := cell c)"
    using assms by (simp add: printc_def Let_def cursor_def)
  have x: "unat (cur_x s + 1) = unat (cur_x s) + 1" using assms by (intro unat_inc) (simp add: screen_ok_def)
  show "cursor (printc c s) = (cursor s + 1) mod 2000"
  proof (cases "unat (cur_x s) + 1 < 80")
    case True
    with assms x show ?thesis by (auto simp: printc_def Let_def cursor_def screen_ok_def)
  next
    case False
    with assms have e: "unat (cur_x s) = 79" by (simp add: screen_ok_def)
    then have "cursor s + 1 = 80 * (unat (cur_y s) + 1)" by (simp add: cursor_def)
    moreover have "80 * (unat (cur_y s) + 1) mod (80 * 25) = 80 * ((unat (cur_y s) + 1) mod 25)"
      by (rule mult_mod_right [symmetric])
    ultimately show ?thesis using assms x e by (simp add: printc_def Let_def cursor_def next_row_ok mult.commute)
  qed
qed

section \<open>What the operations show\<close>

text \<open>The screen after printing characters one by one.\<close>

fun printcs :: "Byte list \<Rightarrow> screen \<Rightarrow> screen" where
  "printcs [] s = s"
| "printcs (c # cs) s = printcs cs (printc c s)"

lemma printcs_append: "printcs (xs @ ys) s = printcs ys (printcs xs s)"
  by (induction xs arbitrary: s) simp_all

lemma printcs_ok: "screen_ok s \<Longrightarrow> screen_ok (printcs cs s)"
  by (induction cs arbitrary: s) (simp_all add: printc_ok)

lemma console_from_run:
  "i \<le> n \<Longrightarrow> n \<le> length buf \<Longrightarrow>
   console_from (int i) buf (int n) s = Some (printcs (drop i (take n buf)) s)"
proof (induction "n - i" arbitrary: i s)
  case 0
  then show ?case by (subst console_from.simps) simp
next
  case (Suc k)
  then have "drop i (take n buf) = buf ! i # drop (Suc i) (take n buf)"
    using Cons_nth_drop_Suc [of i "take n buf"] by simp
  moreover have "console_from (int i + 1) buf (int n) s' = Some (printcs (drop (Suc i) (take n buf)) s')" for s'
    using Suc.hyps(1) [of "Suc i" s'] Suc.hyps(2) Suc.prems by (simp add: ac_simps)
  ultimately show ?case using Suc.hyps(2) Suc.prems by (subst console_from.simps) simp
qed

lemma sys_write_console_run:
  "n \<le> length buf \<Longrightarrow> sys_write_console buf (int n) s = Some (int n, printcs (take n buf) s)"
  using console_from_run [of 0 n buf s] by (simp add: sys_write_console_def)

lemma printk_run:
  assumes "0 \<notin> set cs"
  shows "printk (cs @ 0 # junk) s = Some (printcs cs s)"
proof -
  have "printk_from i (cs @ 0 # junk) s = Some (printcs (drop i cs) s)" if "i \<le> length cs" for i
    using that
  proof (induction "length cs - i" arbitrary: i s)
    case 0
    then show ?case by (subst printk_from.simps) (simp add: nth_append)
  next
    case (Suc k)
    then have i: "i < length cs" by simp
    then have "cs ! i \<noteq> 0" using assms by (metis nth_mem)
    moreover have "drop i cs = cs ! i # drop (Suc i) cs" using i by (simp add: Cons_nth_drop_Suc)
    ultimately show ?case using Suc.hyps(1) [of "Suc i" "printc (cs ! i) s"] Suc.hyps(2) i
      by (subst printk_from.simps) (simp add: nth_append)
  qed
  from this [of 0] show ?thesis by (simp add: printk_def)
qed

text \<open>A line of text lands in consecutive cells, wrapping from the last cell to the first.\<close>

lemma printcs_cursor:
  "screen_ok s \<Longrightarrow> 10 \<notin> set cs \<Longrightarrow> cursor (printcs cs s) = (cursor s + length cs) mod 2000"
proof (induction cs arbitrary: s)
  case Nil
  then show ?case by (simp add: cursor_less)
next
  case (Cons c cs)
  then show ?case by (simp add: printc_cell printc_ok mod_simps)
qed

lemma printcs_outside:
  assumes "screen_ok s" and "10 \<notin> set cs" and "\<forall>i < length cs. k \<noteq> (cursor s + i) mod 2000"
  shows "vga (printcs cs s) k = vga s k"
  using assms
proof (induction cs arbitrary: s)
  case (Cons c cs)
  have "k \<noteq> cursor s" using Cons.prems(3) [rule_format, of 0] cursor_less [OF Cons.prems(1)] by simp
  moreover have "k \<noteq> (cursor (printc c s) + j) mod 2000" if "j < length cs" for j
    using Cons.prems(3) [rule_format, of "Suc j"] that Cons.prems(1,2) by (simp add: printc_cell mod_simps)
  ultimately show ?case using Cons.prems Cons.IH [OF printc_ok, of s c] by (simp add: printc_cell)
qed simp

lemma printcs_inside:
  assumes "screen_ok s" and "10 \<notin> set cs" and "length cs \<le> 2000" and "i < length cs"
  shows "vga (printcs cs s) ((cursor s + i) mod 2000) = cell (cs ! i)"
  using assms
proof (induction cs arbitrary: s i)
  case (Cons c cs)
  note ok = printc_ok [OF Cons.prems(1), of c]
  have cu: "cursor (printc c s) = (cursor s + 1) mod 2000" "vga (printc c s) = (vga s)(cursor s := cell c)"
    using Cons.prems by (simp_all add: printc_cell)
  show ?case
  proof (cases i)
    case 0
    have "cursor s \<noteq> (cursor (printc c s) + j) mod 2000" if "j < length cs" for j
      using that Cons.prems(3) cursor_less [OF Cons.prems(1)] unfolding cu mod_add_left_eq
      by (simp add: mod_if) arith
    with printcs_outside [OF ok, of cs "cursor s"] Cons.prems(2) cu(2)
    show ?thesis using 0 cursor_less [OF Cons.prems(1)] by simp
  next
    case (Suc j)
    then show ?thesis using Cons.IH [OF ok, of j] Cons.prems cu(1) by (simp add: mod_simps)
  qed
qed simp

lemma fill_cells_run:
  "fill_cells q cs v k = (if q \<le> k \<and> k < q + length cs then cell (cs ! (k - q)) else v k)"
  by (induction cs arbitrary: q v) (auto simp: nth_Cons' le_Suc_eq)

lemma print_screen_run:
  assumes "get_bytes (user_ld tr) m a 2000 = Some bs"
  shows "print_screen tr m a s = Some (s\<lparr>cur_x := 0, cur_y := 0, vga := fill_cells 0 bs (vga s)\<rparr>)"
  using copy_from_user_buf [OF assms, of "replicate 2000 0"] by (simp add: print_screen_def)

section \<open>Properties\<close>

text \<open>
  C36. Writing \<open>n \<le> 2000\<close> characters without a line feed to the console returns \<open>n\<close>, places the
  characters with the green attribute in consecutive cells from the cursor on (continuing in the first
  cell after the last one), leaves every other cell as it was, and moves the cursor behind the
  text.
\<close>

theorem console_text:
  assumes "screen_ok s" and "n \<le> length buf" and "n \<le> 2000" and "10 \<notin> set (take n buf)"
  shows "\<exists>s'. sys_write_console buf (int n) s = Some (int n, s')
    \<and> screen_ok s' \<and> cursor s' = (cursor s + n) mod 2000
    \<and> (\<forall>i < n. vga s' ((cursor s + i) mod 2000) = cell (buf ! i))
    \<and> (\<forall>k. (\<forall>i < n. k \<noteq> (cursor s + i) mod 2000) \<longrightarrow> vga s' k = vga s k)"
  using assms sys_write_console_run [OF assms(2)] printcs_ok [OF assms(1)]
    printcs_cursor [OF assms(1,4)] printcs_inside [OF assms(1,4)] printcs_outside [OF assms(1,4)]
  by (auto simp: min_absorb2)

theorem console_text_witness:
  "\<exists>s'. sys_write_console [104, 111, 108, 97] (int 3) \<lparr>vga = \<lambda>_. 0, cur_x = 78, cur_y = 24, bochs = []\<rparr> = Some (3, s')
    \<and> cursor s' = 1 \<and> vga s' 1998 = 0x268 \<and> vga s' 1999 = 0x26F \<and> vga s' 0 = 0x26C \<and> vga s' 1 = 0"
proof -
  let ?s = "\<lparr>vga = \<lambda>_. 0, cur_x = 78, cur_y = 24, bochs = []\<rparr> :: screen"
  have c: "cursor ?s = 1998" by (simp add: cursor_def)
  have "screen_ok ?s" by (simp add: screen_ok_def)
  from console_text [OF this, of 3 "[104, 111, 108, 97]"] obtain s' where
    s': "sys_write_console [104, 111, 108, 97] (int 3) ?s = Some (int 3, s')" "cursor s' = (1998 + 3) mod 2000"
      "\<forall>i < 3. vga s' ((1998 + i) mod 2000) = cell ([104, 111, 108, 97] ! i)"
      "\<forall>k. (\<forall>i < 3. k \<noteq> (1998 + i) mod 2000) \<longrightarrow> vga s' k = vga ?s k"
    unfolding c by fastforce
  have "1 \<noteq> (1998 + i) mod (2000 :: nat)" if "i < 3" for i
  proof -
    from that have "i = 0 \<or> i = 1 \<or> i = 2" by auto
    then show ?thesis by (elim disjE) simp_all
  qed
  with s'(4) have "vga s' 1 = 0" by (metis screen.select_convs(1))
  with s'(1,2) s'(3) [rule_format, of 0] s'(3) [rule_format, of 1] s'(3) [rule_format, of 2]
  show ?thesis by (simp add: cell_def)
qed

text \<open>
  C35. \<^verbatim>\<open>print_screen\<close> shows the whole user buffer: when its 2000 bytes are mapped, cell \<open>i\<close> of the
  screen shows byte \<open>i\<close>, the cursor goes home, and no cell beyond the visible screen changes.
\<close>

theorem print_screen_exact:
  assumes "\<forall>i < 2000. tr (a + word_of_nat i) \<noteq> None"
  shows "\<exists>s'. print_screen tr m a s = Some s' \<and> cursor s' = 0
    \<and> (\<forall>i < 2000. vga s' i = cell (m (the (tr (a + word_of_nat i)))))
    \<and> (\<forall>k \<ge> 2000. vga s' k = vga s k)"
proof -
  from assms get_bytes_user [of tr m a 2000] obtain bs where bs: "get_bytes (user_ld tr) m a 2000 = Some bs" by blast
  then have len: "length bs = 2000" by (rule get_bytes_length)
  let ?s' = "s\<lparr>cur_x := 0, cur_y := 0, vga := fill_cells 0 bs (vga s)\<rparr>"
  have "vga ?s' i = cell (m (the (tr (a + word_of_nat i))))" if "i < 2000" for i
    using that get_bytes_user_nth [OF bs that] by (simp add: fill_cells_run len)
  moreover have "vga ?s' k = vga s k" if "k \<ge> 2000" for k
    using that by (simp add: fill_cells_run len)
  moreover have "cursor ?s' = 0" by (simp add: cursor_def)
  ultimately show ?thesis using print_screen_run [OF bs, of s] by blast
qed

theorem print_screen_exact_witness:
  "\<exists>s'. print_screen Some (\<lambda>a. ucast a) 0x11C000 \<lparr>vga = \<lambda>_. 0, cur_x = 3, cur_y = 4, bochs = []\<rparr> = Some s'
    \<and> vga s' 65 = 0x241"
proof -
  let ?s = "\<lparr>vga = \<lambda>_. 0, cur_x = 3, cur_y = 4, bochs = []\<rparr> :: screen"
  from print_screen_exact [of Some "0x11C000" "\<lambda>a. ucast a" ?s] obtain s' where
    "print_screen Some (\<lambda>a. ucast a) 0x11C000 ?s = Some s'" and
    "\<forall>i < 2000. vga s' i = cell (ucast ((0x11C000 :: DWord) + word_of_nat i))" by auto
  from this(1) this(2) [rule_format, of 65] show ?thesis by (auto simp: cell_def)
qed

end
