(* ===== verification/Zeos_Tables.thy ===== *)
theory Zeos_Tables
  imports Zeos_Prelude
begin

text \<open>
  The tables of the processor: the interrupt descriptor table with \<^verbatim>\<open>setInterruptHandler\<close>, \<^verbatim>\<open>setTrapHandler\<close> and
  \<^verbatim>\<open>setIdt\<close> of \<^verbatim>\<open>interrupt.c\<close>, the global descriptor table with \<^verbatim>\<open>setGdt\<close> and the task state segment with \<^verbatim>\<open>setTSS\<close> of
  \<^verbatim>\<open>mm.c\<close>, and what the processor reads out of them. \<^verbatim>\<open>set_handlers\<close> comes from \<^verbatim>\<open>libzeos.a\<close> and is a
  parameter, a function on the table.
\<close>

section \<open>The interrupt descriptor table\<close>

record gate =
  lowOffset :: Word16
  segmentSelector :: Word16
  flags :: Word16
  highOffset :: Word16

type_synonym idt = "nat \<Rightarrow> gate"

definition lowWord :: "DWord \<Rightarrow> Word16" where
  "lowWord address = ucast (address AND 0xFFFF)"

definition highWord :: "DWord \<Rightarrow> Word16" where
  "highWord address = ucast (drop_bit 16 address AND 0xFFFF)"

abbreviation (input) KERNEL_CS :: Word16 where "KERNEL_CS \<equiv> 0x10"

definition setInterruptHandler :: "nat \<Rightarrow> DWord \<Rightarrow> DWord \<Rightarrow> idt \<Rightarrow> idt" where
  "setInterruptHandler vector handler maxAccessibleFromPL t =
    (let fl = ucast (push_bit 13 maxAccessibleFromPL);
         fl = fl OR 0x8E00
     in t(vector := \<lparr>lowOffset = lowWord handler, segmentSelector = KERNEL_CS, flags = fl,
          highOffset = highWord handler\<rparr>))"

definition setTrapHandler :: "nat \<Rightarrow> DWord \<Rightarrow> DWord \<Rightarrow> idt \<Rightarrow> idt" where
  "setTrapHandler vector handler maxAccessibleFromPL t =
    (let fl = ucast (push_bit 13 maxAccessibleFromPL);
         fl = fl OR 0x8E00
     in t(vector := \<lparr>lowOffset = lowWord handler, segmentSelector = KERNEL_CS, flags = fl,
          highOffset = highWord handler\<rparr>))"

text \<open>
  \<^verbatim>\<open>setIdt\<close>: the table register (limit, base), the three \<^verbatim>\<open>sysenter\<close> registers 0x174, 0x175 and 0x176, and the
  table. The arguments are the table-filling function of \<^verbatim>\<open>libzeos\<close>, the link addresses of the table and of
  the four handlers, and \<^verbatim>\<open>INITIAL_ESP\<close>.
\<close>

definition setIdt :: "(idt \<Rightarrow> idt) \<Rightarrow> DWord \<Rightarrow> DWord \<Rightarrow> DWord \<Rightarrow> DWord \<Rightarrow> DWord \<Rightarrow> 'e \<Rightarrow> idt
    \<Rightarrow> (Word16 \<times> DWord) \<times> (DWord \<times> 'e \<times> DWord) \<times> idt" where
  "setIdt set_handlers idt_addr clock_handler keyboard_handler system_call_handler syscall_handler_sysenter initial_esp t =
    (let idtR = (256 * 8 - 1, idt_addr);
         t = set_handlers t;
         msr = (ucast KERNEL_CS, initial_esp, syscall_handler_sysenter);
         t = setInterruptHandler 32 clock_handler 0 t;
         t = setInterruptHandler 33 keyboard_handler 0 t;
         t = setTrapHandler 0x80 system_call_handler 3 t
     in (idtR, msr, t))"

text \<open>The address a gate jumps to, its privilege level and its type field.\<close>

definition gate_offset :: "gate \<Rightarrow> DWord" where
  "gate_offset g = push_bit 16 (ucast (highOffset g)) OR ucast (lowOffset g)"

definition gate_dpl :: "gate \<Rightarrow> Word16" where
  "gate_dpl g = take_bit 2 (drop_bit 13 (flags g))"

section \<open>The global descriptor table\<close>

record descriptor =
  seg_limit :: Word16
  lowBase :: Word16
  midBase :: Byte
  flags1 :: Byte
  flags2 :: Byte
  highBase :: Byte

definition midByte :: "DWord \<Rightarrow> Byte" where
  "midByte address = ucast (drop_bit 16 address AND 0xFF)"

definition highByte :: "DWord \<Rightarrow> Byte" where
  "highByte address = ucast (drop_bit (16 + 8) address AND 0xFF)"

text \<open>\<^verbatim>\<open>setGdt\<close>: the base of the TSS descriptor (selector 0x30, so entry 6), and the register: base and limit.\<close>

definition setGdt :: "DWord \<Rightarrow> DWord \<Rightarrow> (nat \<Rightarrow> descriptor) \<Rightarrow> (Word16 \<times> DWord) \<times> (nat \<Rightarrow> descriptor)" where
  "setGdt gdt_addr tss_addr gdt =
    (let gdt = gdt(6 := (gdt 6)\<lparr>lowBase := lowWord tss_addr\<rparr>);
         gdt = gdt(6 := (gdt 6)\<lparr>midBase := midByte tss_addr\<rparr>);
         gdt = gdt(6 := (gdt 6)\<lparr>highBase := highByte tss_addr\<rparr>)
     in ((256 * 8, gdt_addr), gdt))"

definition descriptor_base :: "descriptor \<Rightarrow> DWord" where
  "descriptor_base d = push_bit 24 (ucast (highBase d)) OR push_bit 16 (ucast (midBase d)) OR ucast (lowBase d)"

lemma descriptor_base_bytes:
  "push_bit 24 (ucast (highByte a)) OR push_bit 16 (ucast (midByte a)) OR ucast (lowWord a) = (a :: DWord)"
proof (rule bit_word_eqI)
  fix n assume n: "n < LENGTH(32)"
  have m: "(0xFF :: DWord) = mask 8" "(0xFFFF :: DWord) = mask 16" by (simp_all add: mask_eq_exp_minus_1)
  consider "n < 16" | "16 \<le> n" "n < 24" | "24 \<le> n" by linarith
  then show "bit (push_bit 24 (ucast (highByte a)) OR push_bit 16 (ucast (midByte a)) OR ucast (lowWord a) :: DWord) n = bit a n"
    unfolding highByte_def midByte_def lowWord_def m using n by cases (auto simp: bit_simps)
qed

text \<open>
  The base a processor reads from the TSS descriptor after \<^verbatim>\<open>setGdt\<close> is the address of the TSS: the three base
  fields together hold all its 32 bits. No other descriptor of the table changes.
\<close>
theorem tss_descriptor_base:
  "descriptor_base (snd (setGdt gdt_addr tss_addr gdt) 6) = tss_addr
   \<and> snd (setGdt gdt_addr tss_addr gdt) = gdt(6 := snd (setGdt gdt_addr tss_addr gdt) 6)"
  by (simp add: setGdt_def Let_def descriptor_base_def descriptor_base_bytes)

lemma gate_fields:
  "gate_offset (setInterruptHandler v h pl t v) = h" "gate_offset (setTrapHandler v h pl t v) = h"
  "gate_dpl (setInterruptHandler v h pl t v) = ucast (take_bit 2 pl)"
  "gate_dpl (setTrapHandler v h pl t v) = ucast (take_bit 2 pl)"
proof -
  have m: "(0xFFFF :: DWord) = mask 16" by (simp add: mask_eq_exp_minus_1)
  have off: "push_bit 16 (ucast (highWord h)) OR ucast (lowWord h) = h"
  proof (rule bit_word_eqI)
    fix n assume n: "n < LENGTH(32)"
    show "bit (push_bit 16 (ucast (highWord h)) OR ucast (lowWord h) :: DWord) n = bit h n"
      unfolding highWord_def lowWord_def m using n by (cases "n < 16") (auto simp: bit_simps)
  qed
  have dpl: "take_bit 2 (drop_bit 13 (ucast (push_bit 13 pl) OR (0x8E00 :: Word16))) = ucast (take_bit 2 pl)"
  proof (rule bit_word_eqI)
    fix n assume n: "n < LENGTH(16)"
    have "\<not> bit (0x8E00 :: Word16) (13 + n)" if "n < 2"
    proof -
      from that have "n = 0 \<or> n = 1" by linarith
      then show ?thesis by (auto simp: bit_iff_odd)
    qed
    then show "bit (take_bit 2 (drop_bit 13 (ucast (push_bit 13 pl) OR (0x8E00 :: Word16)))) n
        = bit (ucast (take_bit 2 pl) :: Word16) n" using n by (auto simp: bit_simps)
  qed
  show "gate_offset (setInterruptHandler v h pl t v) = h" "gate_offset (setTrapHandler v h pl t v) = h"
    "gate_dpl (setInterruptHandler v h pl t v) = ucast (take_bit 2 pl)"
    "gate_dpl (setTrapHandler v h pl t v) = ucast (take_bit 2 pl)"
    using off dpl by (simp_all add: setInterruptHandler_def setTrapHandler_def Let_def gate_offset_def gate_dpl_def)
qed

lemma gate_other:
  "v \<noteq> w \<Longrightarrow> setInterruptHandler v h pl t w = t w" "v \<noteq> w \<Longrightarrow> setTrapHandler v h pl t w = t w"
  by (simp_all add: setInterruptHandler_def setTrapHandler_def Let_def)

text \<open>
  \<^verbatim>\<open>setIdt\<close> routes the interrupts: whatever table \<^verbatim>\<open>set_handlers\<close> leaves, vector 32 leads to the clock handler and
  33 to the keyboard handler, both closed to user mode, and 0x80, open to privilege level 3, to the system call
  handler, all in the kernel's code segment; \<^verbatim>\<open>sysenter\<close> enters its handler on the stack it is given.
\<close>
theorem idt_dispatch:
  "let (idtR, msr, t) = setIdt set_handlers idt_addr clock keyboard syscall sysenter initial_esp t0 in
     gate_offset (t 32) = clock \<and> gate_dpl (t 32) = 0 \<and> gate_offset (t 33) = keyboard \<and> gate_dpl (t 33) = 0
   \<and> gate_offset (t 0x80) = syscall \<and> gate_dpl (t 0x80) = 3
   \<and> segmentSelector (t 32) = KERNEL_CS \<and> segmentSelector (t 33) = KERNEL_CS \<and> segmentSelector (t 0x80) = KERNEL_CS
   \<and> msr = (0x10, initial_esp, sysenter) \<and> idtR = (0x7ff, idt_addr)"
  by (simp add: setIdt_def Let_def gate_fields gate_other) (simp add: setInterruptHandler_def setTrapHandler_def Let_def)

section \<open>The task state segment\<close>

text \<open>
  The TSS without the padding and without \<^verbatim>\<open>esp0\<close>, the stack an interrupt from user mode starts on: the only field
  that is written again after booting, a field of the kernel's state. \<open>setTSS\<close> gives the fields and the task register.
\<close>

record tss =
  ts_PreviousTaskLink :: Word16
  ts_ss0 :: Word16
  ts_esp1 :: DWord
  ts_ss1 :: Word16
  ts_esp2 :: DWord
  ts_ss2 :: Word16
  ts_cr3 :: DWord
  ts_eip :: DWord
  ts_eFlags :: DWord
  ts_eax :: DWord
  ts_ecx :: DWord
  ts_edx :: DWord
  ts_ebx :: DWord
  ts_esp :: DWord
  ts_ebp :: DWord
  ts_esi :: DWord
  ts_edi :: DWord
  ts_es :: Word16
  ts_cs :: Word16
  ts_ss :: Word16
  ts_ds :: Word16
  ts_fs :: Word16
  ts_gs :: Word16
  ts_LDTSegmentSelector :: Word16
  ts_debugTrap :: Word16
  ts_IOMapBaseAddress :: Word16

abbreviation (input) KERNEL_DS :: Word16 where "KERNEL_DS \<equiv> 0x18"
abbreviation (input) USER_CS :: Word16 where "USER_CS \<equiv> 0x23"
abbreviation (input) USER_DS :: Word16 where "USER_DS \<equiv> 0x2B"
abbreviation (input) KERNEL_TSS :: Word16 where "KERNEL_TSS \<equiv> 0x30"
abbreviation (input) USER_ESP :: DWord where "USER_ESP \<equiv> 0x11BFF0"

definition setTSS :: "tss \<times> Word16" where
  "setTSS = (\<lparr>ts_PreviousTaskLink = 0, ts_ss0 = KERNEL_DS, ts_esp1 = 0, ts_ss1 = 0, ts_esp2 = 0, ts_ss2 = 0, ts_cr3 = 0,
     ts_eip = 0, ts_eFlags = 0x200, ts_eax = 0, ts_ecx = 0, ts_edx = 0, ts_ebx = 0, ts_esp = USER_ESP, ts_ebp = USER_ESP,
     ts_esi = 0, ts_edi = 0, ts_es = USER_DS, ts_cs = USER_CS, ts_ss = USER_DS, ts_ds = USER_DS, ts_fs = 0, ts_gs = 0,
     ts_LDTSegmentSelector = KERNEL_TSS, ts_debugTrap = 0, ts_IOMapBaseAddress = 0\<rparr>, KERNEL_TSS)"

end
