(* ===== verification/Zeos_Hardware.thy ===== *)
theory Zeos_Hardware
  imports Zeos_Tables
begin

text \<open>
  The registers of the processor that start-up sets, and \<^verbatim>\<open>hardware.c\<close>, \<^verbatim>\<open>set_seg_regs\<close> of \<^verbatim>\<open>system.c\<close> and \<^verbatim>\<open>set_pe_flag\<close> of
  \<^verbatim>\<open>mm.c\<close>, which are inline assembler: each function has the effect its instructions have by the manual of the processor.
\<close>

section \<open>Registers\<close>

text \<open>\<open>pic_mask\<close> is the mask register of the first interrupt controller, port 0x21: a set bit closes a line.\<close>

record cpu_regs =
  eflags :: DWord
  seg_cs :: Word16
  seg_ds :: Word16
  seg_es :: Word16
  seg_fs :: Word16
  seg_gs :: Word16
  seg_ss :: Word16
  r_esp :: DWord
  r_eip :: DWord
  gdtr :: "Word16 \<times> DWord"
  idtr :: "Word16 \<times> DWord"
  ldtr :: Word16
  task_reg :: Word16
  cr0 :: DWord
  pic_mask :: Byte

definition get_eflags :: "cpu_regs \<Rightarrow> DWord" where
  "get_eflags c = eflags c"

text \<open>\<^verbatim>\<open>popfl\<close> of 0: bit 1 of the register is always set.\<close>

definition set_eflags :: "cpu_regs \<Rightarrow> cpu_regs" where
  "set_eflags c = c\<lparr>eflags := 0 OR 0x2\<rparr>"

definition set_idt_reg :: "Word16 \<times> DWord \<Rightarrow> cpu_regs \<Rightarrow> cpu_regs" where
  "set_idt_reg r c = c\<lparr>idtr := r\<rparr>"

definition set_gdt_reg :: "Word16 \<times> DWord \<Rightarrow> cpu_regs \<Rightarrow> cpu_regs" where
  "set_gdt_reg r c = c\<lparr>gdtr := r\<rparr>"

definition set_ldt_reg :: "Word16 \<Rightarrow> cpu_regs \<Rightarrow> cpu_regs" where
  "set_ldt_reg ldt c = c\<lparr>ldtr := ldt\<rparr>"

definition set_task_reg :: "Word16 \<Rightarrow> cpu_regs \<Rightarrow> cpu_regs" where
  "set_task_reg tr c = c\<lparr>task_reg := tr\<rparr>"

text \<open>\<^verbatim>\<open>set_seg_regs\<close>: \<^verbatim>\<open>cld\<close> clears bit 10.\<close>

definition set_seg_regs :: "Word16 \<Rightarrow> Word16 \<Rightarrow> DWord \<Rightarrow> cpu_regs \<Rightarrow> cpu_regs" where
  "set_seg_regs data_sel stack_sel esp c =
    (let esp = esp - 5 * 4
     in c\<lparr>eflags := eflags c AND NOT (push_bit 10 1), seg_ds := data_sel, seg_es := data_sel, seg_fs := data_sel,
          seg_gs := data_sel, seg_ss := stack_sel, r_esp := esp\<rparr>)"

definition set_pe_flag :: "cpu_regs \<Rightarrow> cpu_regs" where
  "set_pe_flag c = (let c0 = cr0 c; c0 = c0 OR 0x80000000 in c\<lparr>cr0 := c0\<rparr>)"

definition delay :: "cpu_regs \<Rightarrow> cpu_regs" where
  "delay c = c"

text \<open>\<^verbatim>\<open>sti\<close> sets bit 9.\<close>

definition enable_int :: "cpu_regs \<Rightarrow> cpu_regs" where
  "enable_int c =
    (let c = delay (c\<lparr>pic_mask := 0xfc\<rparr>)
     in c\<lparr>eflags := eflags c OR push_bit 9 1\<rparr>)"

section \<open>Leaving the kernel\<close>

text \<open>Fields of a segment descriptor: present, privilege level, code or data, conforming (code) and writable (data).\<close>

definition seg_present :: "descriptor \<Rightarrow> bool" where
  "seg_present d \<longleftrightarrow> bit (flags1 d) 7 \<and> bit (flags1 d) 4"

definition seg_dpl :: "descriptor \<Rightarrow> Byte" where
  "seg_dpl d = take_bit 2 (drop_bit 5 (flags1 d))"

definition seg_code :: "descriptor \<Rightarrow> bool" where
  "seg_code d \<longleftrightarrow> bit (flags1 d) 3"

definition seg_of :: "(nat \<Rightarrow> descriptor) \<Rightarrow> Word16 \<Rightarrow> descriptor" where
  "seg_of t sel = t (unat (drop_bit 3 sel))"

text \<open>
  A data segment register after a change to privilege level \<open>pl\<close>: the processor loads the null selector when the segment is
  more privileged, unless it is conforming code.
\<close>

definition outer_sel :: "(nat \<Rightarrow> descriptor) \<Rightarrow> Byte \<Rightarrow> Word16 \<Rightarrow> Word16" where
  "outer_sel t pl sel =
    (if seg_dpl (seg_of t sel) < pl \<and> \<not> (seg_code (seg_of t sel) \<and> bit (flags1 (seg_of t sel)) 2) then 0 else sel)"

text \<open>
  \<^verbatim>\<open>lret\<close> to an outer level, with \<open>eip\<close>, \<open>cs\<close>, \<open>esp\<close> and \<open>ss\<close> taken from the stack. It faults unless \<open>cs\<close> is a present code segment
  and \<open>ss\<close> a present writable data segment of the level in the low bits of both selectors.
\<close>

definition far_return :: "(nat \<Rightarrow> descriptor) \<Rightarrow> Word16 \<Rightarrow> DWord \<Rightarrow> Word16 \<Rightarrow> DWord \<Rightarrow> cpu_regs \<Rightarrow> cpu_regs option" where
  "far_return t ss esp cs eip c =
    (let pl = ucast (take_bit 2 cs); dc = seg_of t cs; ds = seg_of t ss
     in if pl \<noteq> 0 \<and> seg_present dc \<and> seg_code dc \<and> seg_dpl dc = pl
         \<and> ucast (take_bit 2 ss) = pl \<and> seg_present ds \<and> \<not> seg_code ds \<and> bit (flags1 ds) 1 \<and> seg_dpl ds = pl
        then Some (c\<lparr>r_eip := eip, seg_cs := cs, r_esp := esp, seg_ss := ss, seg_ds := outer_sel t pl (seg_ds c),
          seg_es := outer_sel t pl (seg_es c), seg_fs := outer_sel t pl (seg_fs c), seg_gs := outer_sel t pl (seg_gs c)\<rparr>)
        else None)"

section \<open>The segments of the boot loader\<close>

text \<open>The descriptors \<^verbatim>\<open>bootsect.S\<close> puts at \<^verbatim>\<open>gdt\<close>: the type bytes tell kernel from user and code from data.\<close>

definition flat_segment :: "Byte \<Rightarrow> descriptor" where
  "flat_segment ty = \<lparr>seg_limit = 0xFFFF, lowBase = 0, midBase = 0, flags1 = ty, flags2 = 0xcf, highBase = 0\<rparr>"

definition null_segment :: descriptor where
  "null_segment = \<lparr>seg_limit = 0, lowBase = 0, midBase = 0, flags1 = 0, flags2 = 0, highBase = 0\<rparr>"

definition boot_gdt :: "descriptor list" where
  "boot_gdt = [null_segment, null_segment, flat_segment 0x9a, flat_segment 0x92, flat_segment 0xfa, flat_segment 0xf2,
     \<lparr>seg_limit = 104, lowBase = 0, midBase = 0, flags1 = 0x89, flags2 = 0, highBase = 0\<rparr>]"

text \<open>A table whose first six entries are the loader's: what \<^verbatim>\<open>setGdt\<close> leaves as it was.\<close>

definition user_segments :: "(nat \<Rightarrow> descriptor) \<Rightarrow> bool" where
  "user_segments t \<longleftrightarrow> (\<forall>i < 6. t i = boot_gdt ! i)"

lemma user_segmentsD:
  assumes "user_segments t"
  shows "t 3 = flat_segment 0x92" and "t 4 = flat_segment 0xfa" and "t 5 = flat_segment 0xf2"
  using assms by (simp_all add: user_segments_def boot_gdt_def)

lemma user_segments_setGdt: "user_segments t \<Longrightarrow> user_segments (snd (setGdt g a t))"
  by (simp add: user_segments_def setGdt_def Let_def)

lemma flat_segment_fields:
  "\<not> seg_code (flat_segment 0x92)" "seg_dpl (flat_segment 0x92) = 0"
  "seg_present (flat_segment 0xfa)" "seg_code (flat_segment 0xfa)" "seg_dpl (flat_segment 0xfa) = 3"
  "seg_present (flat_segment 0xf2)" "\<not> seg_code (flat_segment 0xf2)" "seg_dpl (flat_segment 0xf2) = 3"
  "bit (flags1 (flat_segment 0xf2)) (Suc 0)"
  by (simp_all add: seg_code_def seg_dpl_def seg_present_def flat_segment_def bit_iff_odd take_bit_eq_mod drop_bit_eq_div)

text \<open>The return of \<^verbatim>\<open>main\<close>: user segments everywhere, and no access to the kernel's data segment left in a register.\<close>

lemma far_return_user:
  assumes "user_segments t" and "seg_ds c = USER_DS" "seg_es c = USER_DS" "seg_fs c = KERNEL_DS" "seg_gs c = KERNEL_DS"
  shows "far_return t USER_DS esp USER_CS eip c =
    Some (c\<lparr>r_eip := eip, seg_cs := USER_CS, r_esp := esp, seg_ss := USER_DS, seg_fs := 0, seg_gs := 0\<rparr>)"
  using assms(2-5)
  by (simp add: far_return_def outer_sel_def seg_of_def Let_def user_segmentsD [OF assms(1)] flat_segment_fields
      take_bit_eq_mod drop_bit_eq_div)

end
