(* ===== verification/Zeos_Kernel.thy ===== *)
theory Zeos_Kernel
  imports Zeos_List Zeos_Circular Zeos_MM Zeos_IO Zeos_Hardware
begin

text \<open>
  The state of the kernel: the task array of \<^verbatim>\<open>sched.h\<close>, the three queues, the globals of
  \<^verbatim>\<open>sched.c\<close>, \<^verbatim>\<open>sys.c\<close> and \<^verbatim>\<open>system.c\<close>, the memory, the console, and the processor registers the
  scheduler writes (stack pointer, TSS, the \<^verbatim>\<open>sysenter\<close> MSR).

  The embedded \<^verbatim>\<open>struct list_head\<close> of a task is the node \<open>TASK_LIST i\<close> of the list store. The
  stack pointer is kept as the task whose stack it points into, which is what \<^verbatim>\<open>current()\<close>
  computes from it. The time stamp counter is an input: each \<^verbatim>\<open>rdtsc\<close> consumes one reading.
\<close>

section \<open>Data\<close>

datatype node = FREEQUEUE | READYQUEUE | PRIORITYQUEUE | TASK_LIST nat

record stats =
  user_ticks :: DWord
  system_ticks :: DWord
  blocked_ticks :: DWord
  ready_ticks :: DWord
  elapsed_total_ticks :: DWord
  total_trans :: DWord
  remaining_ticks :: DWord

text \<open>An address inside the kernel stacks: task number and word index; 1024 is the stack's end.\<close>

type_synonym stack_ptr = "nat \<times> nat"

record task =
  PID :: DWord
  dir_pages_baseAddr :: "nat option"
  kernel_esp :: "stack_ptr option"
  quantum :: DWord
  estat :: stats
  nice :: DWord
  brk :: DWord
  stack :: "nat \<Rightarrow> DWord"

record kernel =
  tasks :: "nat \<Rightarrow> task"
  lists :: "node lheap"
  cur :: nat
  idle_task :: "nat option"
  quantum_ticks :: DWord
  spf_PID :: DWord
  spf_ticks :: DWord
  spf_sem :: DWord
  gfps :: DWord
  spf_last_screen :: DWord
  nextPID :: DWord
  zeos_ticks :: DWord
  keyboard_buffer :: circular_buffer
  mem :: mm
  tlb :: "nat \<rightharpoonup> DWord"
  scr :: screen
  tss_esp0 :: "stack_ptr option"
  msr_esp :: "stack_ptr option"
  resumed_at :: DWord
  tsc :: "nat \<Rightarrow> 64 word"
  tsc_pos :: nat
  sym_cpu_idle :: DWord
  sym_ret_from_fork :: DWord
  sym_task_switch_ret :: DWord
  gdt :: "nat \<Rightarrow> descriptor"
  gdtR :: "Word16 \<times> DWord"
  idt :: idt
  idtR :: "Word16 \<times> DWord"
  tss :: tss
  cpu :: cpu_regs
  msr_cs :: DWord
  msr_eip :: DWord
  sym_gdt :: DWord
  sym_idt :: DWord
  sym_tss :: DWord
  sym_task :: DWord
  sym_clock_handler :: DWord
  sym_keyboard_handler :: DWord
  sym_system_call_handler :: DWord
  sym_syscall_handler_sysenter :: DWord

text \<open>
  \<^verbatim>\<open>tlb\<close> holds the page table entries the processor has cached, by page: it adds to them on its own, and the kernel
  empties it. \<^verbatim>\<open>resumed_at\<close> records where the last \<^verbatim>\<open>task_switch\<close> returned to. \<^verbatim>\<open>msr_cs\<close>, \<^verbatim>\<open>msr_esp\<close> and \<^verbatim>\<open>msr_eip\<close> are the
  \<^verbatim>\<open>sysenter\<close> registers, \<^verbatim>\<open>cpu\<close> the others, as start-up leaves them: what an interrupt saves and restores of
  them is not followed. The fields \<^verbatim>\<open>sym_\<close> are link addresses: two functions whose
  address the kernel stores on a stack, the instruction behind \<^verbatim>\<open>call inner_task_switch\<close>, the tables, the array of tasks,
  the handlers.
\<close>

section \<open>Access to the state\<close>

definition upd_task :: "nat \<Rightarrow> (task \<Rightarrow> task) \<Rightarrow> kernel \<Rightarrow> kernel" where
  "upd_task i f s = s\<lparr>tasks := (tasks s)(i := f (tasks s i))\<rparr>"

text \<open>A list operation on the store inside the kernel state.\<close>

definition with_lists :: "(node lheap \<Rightarrow> node lheap option) \<Rightarrow> kernel \<Rightarrow> kernel option" where
  "with_lists f s = do { h \<leftarrow> f (lists s); Some (s\<lparr>lists := h\<rparr>) }"

definition with_mem :: "(mm \<Rightarrow> mm option) \<Rightarrow> kernel \<Rightarrow> kernel option" where
  "with_mem f s = do { m \<leftarrow> f (mem s); Some (s\<lparr>mem := m\<rparr>) }"

definition get_ticks :: "kernel \<Rightarrow> (DWord \<times> kernel) option" where
  "get_ticks s = do {
     t \<leftarrow> ticks_of (tsc s (tsc_pos s));
     Some (t, s\<lparr>tsc_pos := tsc_pos s + 1\<rparr>) }"

definition KERNEL_ESP :: "nat \<Rightarrow> stack_ptr" where
  "KERNEL_ESP i = (i, KERNEL_STACK_SIZE)"

text \<open>
  \<^verbatim>\<open>list_entry(l, struct task_struct, list)\<close>: the task around a list node. A queue head is not
  embedded in a task; using the result for one has no defined meaning.
\<close>

definition list_head_to_task_struct :: "node option \<Rightarrow> nat option" where
  "list_head_to_task_struct l = (case l of Some (TASK_LIST i) \<Rightarrow> Some i | _ \<Rightarrow> None)"

definition current :: "kernel \<Rightarrow> nat" where
  "current s = cur s"

definition cur_task :: "kernel \<Rightarrow> task" where
  "cur_task s = tasks s (current s)"

text \<open>
  The memory a process can name in a system call: \<^verbatim>\<open>ram\<close> stands for the frames from 256 on. The
  frames below hold the kernel itself, whose variables are the fields of the state; an access
  through a user pointer that reaches them has no result in the model.
\<close>

definition user_map :: "mm \<Rightarrow> vmap" where
  "user_map m va = do { pa \<leftarrow> translate m va; if 0x100000 \<le> pa then Some pa else None }"

section \<open>Pointers\<close>

text \<open>
  The address arithmetic behind the indices: \<^verbatim>\<open>task\<close> is an array of 4096-byte unions aligned to
  4096 (\<^verbatim>\<open>system.lds\<close>), and \<^verbatim>\<open>current()\<close> clears the low 12 bits of the stack pointer.
\<close>

definition task_addr :: "DWord \<Rightarrow> nat \<Rightarrow> DWord" where
  "task_addr base i = base + 4096 * word_of_nat i"

definition current_ptr :: "DWord \<Rightarrow> DWord" where
  "current_ptr esp = esp AND 0xfffff000"

definition dir_pos :: "DWord \<Rightarrow> DWord \<Rightarrow> int" where
  "dir_pos t base = (sint t - sint base) div 4096"

text \<open>
  \<^verbatim>\<open>current()\<close> finds the running task: for every stack pointer inside the kernel stack of task \<open>i\<close> clearing the low
  12 bits gives the address of its task structure, since the array of unions is aligned to 4096.
\<close>
theorem current_ptr_task:
  assumes "take_bit 12 base = 0" and "k < 4096"
  shows "current_ptr (task_addr base i + word_of_nat k) = task_addr base i"
proof -
  define b where "b = drop_bit 12 base"
  have "push_bit 12 b + take_bit 12 base = base" unfolding b_def by (rule bits_ident)
  then have base: "base = push_bit 12 b" using assms(1) by simp
  define c where "c = b + word_of_nat i"
  have t: "task_addr base i = push_bit 12 c"
    by (simp add: task_addr_def base c_def push_bit_eq_mult algebra_simps)
  define w where "w = (word_of_nat k :: DWord)"
  have w: "take_bit 12 w = w"
    unfolding w_def take_bit_of_nat using assms(2) by (subst take_bit_nat_eq_self) simp_all
  have bw: "bit w n \<Longrightarrow> n < 12" for n using w by (metis bit_take_bit_iff)
  have "push_bit 12 c AND w = 0" by (rule bit_word_eqI) (auto simp: bit_simps dest: bw)
  then have s: "push_bit 12 c + w = push_bit 12 c OR w" by (rule disjunctive_add_eq_or)
  have mask: "(0xfffff000 :: DWord) = NOT (mask 12)" by (simp add: mask_eq_exp_minus_1)
  have "(push_bit 12 c OR w) AND NOT (mask 12) = push_bit 12 c"
    by (rule bit_word_eqI) (auto simp: bit_simps dest: bw)
  then show ?thesis unfolding current_ptr_def t w_def [symmetric] s mask .
qed

theorem current_ptr_task_witness: "current_ptr (task_addr 0x14000 3 + word_of_nat 4092) = 0x17000"
  using current_ptr_task [of "0x14000" 4092 3] by (simp add: task_addr_def)

text \<open>
  \<^verbatim>\<open>allocate_DIR\<close> gives every task the page directory with its own index: the difference of the addresses, as signed
  integers, divided by the size of a task union, is the index of the task.
\<close>
theorem dir_pos_task:
  assumes "i < 10" and "sint base + 4096 * 10 < 2 ^ 31"
  shows "dir_pos (task_addr base i) base = int i"
proof -
  have lo: "- (2 ^ 31) \<le> sint base" using sint_ge [of base] by simp
  have "sint (task_addr base i) = sint base + 4096 * int i"
  proof -
    have "task_addr base i = word_of_int (sint base + 4096 * int i)" by (simp add: task_addr_def)
    moreover have "sint (word_of_int (sint base + 4096 * int i) :: DWord) = sint base + 4096 * int i"
    proof -
      have "signed_take_bit (LENGTH(32) - Suc 0) (sint base + 4096 * int i) = sint base + 4096 * int i"
        using assms lo by (intro signed_take_bit_int_eq_self) simp_all
      then show ?thesis by (simp only: signed_of_int of_int_eq_id id_apply)
    qed
    ultimately show ?thesis by (simp only:)
  qed
  then show ?thesis by (simp add: dir_pos_def)
qed

theorem dir_pos_task_witness: "dir_pos (task_addr 0x14000 7) 0x14000 = 7"
  using dir_pos_task [of 7 "0x14000"] by simp

end
