(* ===== verification/Zeos_Sched.thy ===== *)
theory Zeos_Sched
  imports Zeos_Kernel "HOL-Library.Multiset"
begin

text \<open>
  The scheduler: \<^verbatim>\<open>zeOS/sched.c\<close>, the context switch of \<^verbatim>\<open>entry.S\<close>, and \<^verbatim>\<open>sys_put_screen\<close>, which
  the frame limiter \<^verbatim>\<open>schedule_fps\<close> calls. \<open>fp\<close> is the stack slot of the frame pointer of
  \<^verbatim>\<open>inner_task_switch\<close> in the running task: it depends on the frames the compiler lays out.
\<close>

section \<open>Address spaces of tasks\<close>

definition get_DIR :: "kernel \<Rightarrow> nat \<Rightarrow> nat option" where
  "get_DIR s t = dir_pages_baseAddr (tasks s t)"

definition get_PT :: "kernel \<Rightarrow> nat \<Rightarrow> DWord option" where
  "get_PT s t = dir_PT (mem s) (get_DIR s t)"

definition allocate_DIR :: "nat \<Rightarrow> kernel \<Rightarrow> kernel" where
  "allocate_DIR t s =
    (let pos = (4096 * t - 4096 * 0) div 4096
     in upd_task t (\<lambda>p. p\<lparr>dir_pages_baseAddr := Some pos\<rparr>) s)"

text \<open>Writing \<^verbatim>\<open>%cr3\<close> empties the cache of translations.\<close>

definition set_cr3 :: "nat option \<Rightarrow> kernel \<Rightarrow> kernel" where
  "set_cr3 dir s = s\<lparr>mem := (mem s)\<lparr>cr3 := dir\<rparr>, tlb := Map.empty\<rparr>"

definition writeMSR_esp :: "stack_ptr \<Rightarrow> kernel \<Rightarrow> kernel" where
  "writeMSR_esp v s = s\<lparr>msr_esp := Some v\<rparr>"

section \<open>Statistics\<close>

definition upd_stat :: "nat \<Rightarrow> (stats \<Rightarrow> stats) \<Rightarrow> kernel \<Rightarrow> kernel" where
  "upd_stat t f = upd_task t (\<lambda>p. p\<lparr>estat := f (estat p)\<rparr>)"

definition init_stat :: "nat \<Rightarrow> kernel \<Rightarrow> kernel option" where
  "init_stat t s = do {
     let s = upd_stat t (\<lambda>st. st\<lparr>user_ticks := 0, system_ticks := 0, blocked_ticks := 0, ready_ticks := 0\<rparr>) s;
     (now, s) \<leftarrow> get_ticks s;
     let s = upd_stat t (\<lambda>st. st\<lparr>elapsed_total_ticks := now, total_trans := 0\<rparr>) s;
     Some (upd_stat t (\<lambda>st. st\<lparr>remaining_ticks := quantum (tasks s t)\<rparr>) s) }"

definition user_to_sys :: "kernel \<Rightarrow> kernel option" where
  "user_to_sys s = do {
     let c = current s;
     (now, s) \<leftarrow> get_ticks s;
     let s = upd_stat c (\<lambda>st. st\<lparr>user_ticks := user_ticks st + (now - elapsed_total_ticks st)\<rparr>) s;
     (now, s) \<leftarrow> get_ticks s;
     Some (upd_stat c (\<lambda>st. st\<lparr>elapsed_total_ticks := now, remaining_ticks := quantum_ticks s\<rparr>) s) }"

definition sys_to_user_ready :: "kernel \<Rightarrow> kernel option" where
  "sys_to_user_ready s = do {
     let c = current s;
     (now, s) \<leftarrow> get_ticks s;
     let s = upd_stat c (\<lambda>st. st\<lparr>system_ticks := system_ticks st + (now - elapsed_total_ticks st)\<rparr>) s;
     (now, s) \<leftarrow> get_ticks s;
     Some (upd_stat c (\<lambda>st. st\<lparr>elapsed_total_ticks := now, remaining_ticks := quantum_ticks s\<rparr>) s) }"

definition ready_to_sys :: "kernel \<Rightarrow> kernel option" where
  "ready_to_sys s = do {
     let c = current s;
     (now, s) \<leftarrow> get_ticks s;
     let s = upd_stat c (\<lambda>st. st\<lparr>ready_ticks := ready_ticks st + (now - elapsed_total_ticks st)\<rparr>) s;
     (now, s) \<leftarrow> get_ticks s;
     Some (upd_stat c (\<lambda>st. st\<lparr>elapsed_total_ticks := now, remaining_ticks := quantum_ticks s,
       total_trans := total_trans st + 1\<rparr>) s) }"

section \<open>Context switch\<close>

text \<open>
  \<^verbatim>\<open>task_switch\<close> and \<^verbatim>\<open>inner_task_switch\<close>. The call to \<^verbatim>\<open>inner_task_switch\<close> has pushed its return
  address above the saved \<^verbatim>\<open>%ebp\<close>; the stack pointer of the new task is loaded, the saved
  \<^verbatim>\<open>%ebp\<close> popped and the return address taken from the new stack.
\<close>

definition set_stack :: "nat \<Rightarrow> nat \<Rightarrow> DWord \<Rightarrow> kernel \<Rightarrow> kernel" where
  "set_stack t k v = upd_task t (\<lambda>p. p\<lparr>stack := (stack p)(k := v)\<rparr>)"

definition task_switch :: "nat \<Rightarrow> nat \<Rightarrow> kernel \<Rightarrow> kernel option" where
  "task_switch fp new s = do {
     let s = set_stack (current s) (fp + 1) (sym_task_switch_ret s) s;
     s \<leftarrow> sys_to_user_ready s;
     let s = s\<lparr>tss_esp0 := Some (KERNEL_ESP new)\<rparr>;
     let s = writeMSR_esp (KERNEL_ESP new) s;
     let s = set_cr3 (get_DIR s new) s;
     let s = upd_task (current s) (\<lambda>p. p\<lparr>kernel_esp := Some (current s, fp)\<rparr>) s;
     (t, k) \<leftarrow> kernel_esp (tasks s new);
     let s = s\<lparr>cur := t\<rparr>;
     s \<leftarrow> ready_to_sys s;
     Some (s\<lparr>resumed_at := stack (tasks s t) (k + 1)\<rparr>) }"

section \<open>Round robin with two priorities\<close>

definition get_quantum :: "kernel \<Rightarrow> nat \<Rightarrow> DWord" where
  "get_quantum s t = quantum (tasks s t)"

definition set_quantum :: "nat \<Rightarrow> DWord \<Rightarrow> kernel \<Rightarrow> kernel" where
  "set_quantum t new_quantum = upd_task t (\<lambda>p. p\<lparr>quantum := new_quantum\<rparr>)"

definition update_sched_data_rr :: "kernel \<Rightarrow> kernel" where
  "update_sched_data_rr s = s\<lparr>quantum_ticks := quantum_ticks s - 1\<rparr>"

definition needs_sched_rr :: "kernel \<Rightarrow> (bool \<times> kernel) option" where
  "needs_sched_rr s =
    (if sint (quantum_ticks s) > 0 then Some (False, s)
     else do {
       e1 \<leftarrow> list_empty (Some READYQUEUE) (lists s);
       e2 \<leftarrow> (if e1 then list_empty (Some PRIORITYQUEUE) (lists s) else Some False);
       if e1 \<and> e2 then do {
         let s = s\<lparr>quantum_ticks := quantum (cur_task s)\<rparr>;
         let s = upd_stat (current s) (\<lambda>st. st\<lparr>total_trans := total_trans st + 1\<rparr>) s;
         Some (False, s) }
       else Some (True, s) })"

definition update_process_state_rr :: "nat \<Rightarrow> node option \<Rightarrow> kernel \<Rightarrow> kernel option" where
  "update_process_state_rr t dst_queue s = do {
     let llista = Some (TASK_LIST t);
     p \<leftarrow> get_prev llista (lists s);
     n \<leftarrow> get_next llista (lists s);
     s \<leftarrow> (if \<not> (p = None \<and> n = None) then with_lists (list_del llista) s else Some s);
     if dst_queue \<noteq> None then with_lists (list_add_tail llista dst_queue) s else Some s }"

definition sched_next_rr :: "nat \<Rightarrow> kernel \<Rightarrow> kernel option" where
  "sched_next_rr fp s = do {
     let nc = nice (cur_task s);
     list_nou \<leftarrow> (if nc \<noteq> 0 then do {
         e \<leftarrow> list_empty (Some PRIORITYQUEUE) (lists s);
         if e then list_first (Some READYQUEUE) (lists s) else list_first (Some PRIORITYQUEUE) (lists s) }
       else list_first (Some READYQUEUE) (lists s));
     s \<leftarrow> with_lists (list_del list_nou) s;
     nova_taska \<leftarrow> list_head_to_task_struct list_nou;
     let final_quantum = quantum (tasks s nova_taska);
     let s = s\<lparr>quantum_ticks := (if nc = 0 then final_quantum else final_quantum * 5)\<rparr>;
     task_switch fp nova_taska s }"

definition schedule :: "nat \<Rightarrow> kernel \<Rightarrow> kernel option" where
  "schedule fp s = do {
     let s = update_sched_data_rr s;
     (needed, s) \<leftarrow> needs_sched_rr s;
     if needed then do {
       let curr = current s;
       s \<leftarrow> (if nice (tasks s curr) \<noteq> 0 then update_process_state_rr curr (Some READYQUEUE) s
            else update_process_state_rr curr (Some PRIORITYQUEUE) s);
       sched_next_rr fp s }
     else Some s }"

section \<open>The frame limiter\<close>

text \<open>\<^verbatim>\<open>print_screen\<close> on the state of the kernel.\<close>

definition show_screen :: "DWord \<Rightarrow> kernel \<Rightarrow> kernel option" where
  "show_screen a s = do {
     d \<leftarrow> print_screen (user_map (mem s)) (ram (mem s)) a (scr s);
     Some (s\<lparr>scr := d\<rparr>) }"

definition sys_put_screen :: "DWord \<Rightarrow> kernel \<Rightarrow> (DWord \<times> kernel) option" where
  "sys_put_screen a s =
    (if a = 0 then Some (0, s)
     else if spf_PID s \<noteq> PID (cur_task s) then do {
       s \<leftarrow> show_screen a s;
       Some (1, s) }
     else if sint (spf_sem s) > 0 \<or> spf_ticks s = -1 then do {
       s \<leftarrow> show_screen a s;
       Some (1, s\<lparr>spf_sem := spf_sem s - 1, spf_last_screen := 0\<rparr>) }
     else Some (0, s\<lparr>spf_last_screen := a\<rparr>))"

definition schedule_fps :: "kernel \<Rightarrow> kernel option" where
  "schedule_fps s =
    (if spf_ticks s \<noteq> -1 then
       let s = s\<lparr>spf_ticks := spf_ticks s - 1\<rparr> in
       if sint (spf_ticks s) \<le> 0 \<and> spf_PID s = PID (cur_task s) then
         let s = s\<lparr>spf_ticks := spf_ticks s + 18, spf_sem := gfps s\<rparr> in
         if spf_last_screen s \<noteq> 0 then map_option snd (sys_put_screen (spf_last_screen s) s)
         else Some s
       else Some s
     else Some s)"

section \<open>Looking up a process\<close>

function get_task_from :: "nat \<Rightarrow> kernel \<Rightarrow> DWord \<Rightarrow> nat option" where
  "get_task_from i s pid =
     (if i < NR_TASKS then if PID (tasks s i) = pid then Some i else get_task_from (Suc i) s pid else None)"
  by pat_completeness auto
termination
  by (relation "measure (\<lambda>(i, s, pid). NR_TASKS - i)") auto

declare get_task_from.simps [simp del]

text \<open>Here \<^term>\<open>None\<close> is the null pointer that \<^verbatim>\<open>get_task\<close> returns.\<close>

definition get_task :: "kernel \<Rightarrow> DWord \<Rightarrow> nat option" where
  "get_task s pid = get_task_from 0 s pid"

section \<open>Initialisation\<close>

definition init_idle :: "kernel \<Rightarrow> kernel option" where
  "init_idle s = do {
     task_head \<leftarrow> list_first (Some FREEQUEUE) (lists s);
     s \<leftarrow> with_lists (list_del task_head) s;
     idle_pcb \<leftarrow> list_head_to_task_struct task_head;
     let s = upd_task idle_pcb (\<lambda>p. p\<lparr>PID := 0\<rparr>) s;
     let s = set_stack idle_pcb (KERNEL_STACK_SIZE - 1) (sym_cpu_idle s) s;
     let s = set_stack idle_pcb (KERNEL_STACK_SIZE - 2) 0 s;
     let s = upd_task idle_pcb (\<lambda>p. p\<lparr>kernel_esp := Some (idle_pcb, KERNEL_STACK_SIZE - 2)\<rparr>) s;
     let s = allocate_DIR idle_pcb s;
     Some (s\<lparr>idle_task := Some idle_pcb\<rparr>) }"

definition init_task1 :: "kernel \<Rightarrow> kernel option" where
  "init_task1 s = do {
     task_head \<leftarrow> list_first (Some FREEQUEUE) (lists s);
     s \<leftarrow> with_lists (list_del task_head) s;
     task1_pcb \<leftarrow> list_head_to_task_struct task_head;
     let s = upd_task task1_pcb (\<lambda>p. p\<lparr>PID := 1, brk := L_HEAP_START\<rparr>) s;
     let s = set_quantum task1_pcb QUANTUM s;
     let s = upd_task task1_pcb (\<lambda>p. p\<lparr>nice := 1\<rparr>) s;
     let s = allocate_DIR task1_pcb s;
     s \<leftarrow> with_mem (set_user_pages (get_DIR s task1_pcb)) s;
     let s = s\<lparr>tss_esp0 := Some (KERNEL_ESP task1_pcb)\<rparr>;
     let s = upd_task task1_pcb (\<lambda>p. p\<lparr>kernel_esp := Some (KERNEL_ESP task1_pcb)\<rparr>) s;
     let s = writeMSR_esp (KERNEL_ESP task1_pcb) s;
     let s = set_cr3 (get_DIR s task1_pcb) s;
     init_stat task1_pcb s }"

text \<open>The loop of \<^verbatim>\<open>init_sched\<close> that puts the tasks on the free queue.\<close>

function free_tasks :: "nat \<Rightarrow> kernel \<Rightarrow> kernel option" where
  "free_tasks i s =
     (if i < NR_TASKS then do {
        s \<leftarrow> with_lists (list_add (Some (TASK_LIST i)) (Some FREEQUEUE)) s;
        free_tasks (Suc i) s }
      else Some s)"
  by pat_completeness auto
termination
  by (relation "measure (\<lambda>(i, s). NR_TASKS - i)") auto

declare free_tasks.simps [simp del]

definition init_sched :: "kernel \<Rightarrow> kernel option" where
  "init_sched s = do {
     s \<leftarrow> with_lists (INIT_LIST_HEAD (Some FREEQUEUE)) s;
     s \<leftarrow> with_lists (INIT_LIST_HEAD (Some READYQUEUE)) s;
     s \<leftarrow> with_lists (INIT_LIST_HEAD (Some PRIORITYQUEUE)) s;
     let s = s\<lparr>quantum_ticks := -1, spf_ticks := -1, spf_sem := -1\<rparr>;
     free_tasks 0 s }"

text \<open>\<^verbatim>\<open>init_mm\<close> of \<^verbatim>\<open>mm.c\<close>: tables, frames, directories, the directory of task 0 for the processor, and paging on.\<close>

definition init_mm :: "kernel \<Rightarrow> kernel option" where
  "init_mm s = do {
     let s = s\<lparr>mem := init_table_pages (mem s)\<rparr>;
     pm \<leftarrow> init_frames (phys_mem (mem s));
     let s = s\<lparr>mem := (mem s)\<lparr>phys_mem := pm\<rparr>\<rparr>;
     let s = s\<lparr>mem := init_dir_pages (mem s)\<rparr>;
     let s = allocate_DIR 0 s;
     let s = set_cr3 (get_DIR s 0) s;
     Some (s\<lparr>cpu := set_pe_flag (cpu s)\<rparr>) }"

section \<open>The queues as lists of tasks\<close>

definition heads :: "node set" where
  "heads = {FREEQUEUE, READYQUEUE, PRIORITYQUEUE}"

fun qf :: "nat list \<Rightarrow> nat list \<Rightarrow> nat list \<Rightarrow> node \<Rightarrow> node list" where
  "qf F R P FREEQUEUE = map TASK_LIST F"
| "qf F R P READYQUEUE = map TASK_LIST R"
| "qf F R P PRIORITYQUEUE = map TASK_LIST P"
| "qf F R P (TASK_LIST i) = []"

lemma qf_upd [simp]:
  "(qf F R P)(FREEQUEUE := map TASK_LIST F') = qf F' R P"
  "(qf F R P)(READYQUEUE := map TASK_LIST R') = qf F R' P"
  "(qf F R P)(PRIORITYQUEUE := map TASK_LIST P') = qf F R P'"
  by (rule ext, case_tac x, simp_all)+

definition queues :: "node lheap \<Rightarrow> nat list \<Rightarrow> nat list \<Rightarrow> nat list \<Rightarrow> bool" where
  "queues h F R P \<longleftrightarrow> qheap heads h (qf F R P) \<and> dom h = heads \<union> TASK_LIST ` {..<10}"

lemma in_heads [simp]: "FREEQUEUE \<in> heads" "READYQUEUE \<in> heads" "PRIORITYQUEUE \<in> heads" "TASK_LIST i \<notin> heads"
  by (simp_all add: heads_def)

lemma queues_tasks:
  assumes "queues h F R P"
  shows "distinct (F @ R @ P)" and "set (F @ R @ P) \<subseteq> {..<10}"
proof -
  from assms have h: "qheap heads h (qf F R P)" and d: "dom h = heads \<union> TASK_LIST ` {..<10}"
    by (auto simp: queues_def)
  have inj: "inj TASK_LIST" by (simp add: inj_def)
  have "distinct F" "distinct R" "distinct P"
    using lq.holds_distinct [OF h in_heads(1)] lq.holds_distinct [OF h in_heads(2)] lq.holds_distinct [OF h in_heads(3)]
    by (simp_all add: distinct_map)
  moreover have "set F \<inter> set R = {}" "set F \<inter> set P = {}" "set R \<inter> set P = {}"
    using lq.holds_disjoint [OF h in_heads(1,2)] lq.holds_disjoint [OF h in_heads(1,3)] lq.holds_disjoint [OF h in_heads(2,3)]
      image_Int [OF inj] by auto
  ultimately show "distinct (F @ R @ P)" by auto
  show "set (F @ R @ P) \<subseteq> {..<10}"
    using lq.holds_nodes [OF h in_heads(1)] lq.holds_nodes [OF h in_heads(2)] lq.holds_nodes [OF h in_heads(3)]
    unfolding d by (auto simp: heads_def)
qed

lemma queues_free_node:
  assumes "queues h F R P" and "t < 10" and "t \<notin> set (F @ R @ P)"
  shows "TASK_LIST t \<in> dom h" and "\<forall>r \<in> heads. TASK_LIST t \<notin> set (qf F R P r)"
    and "h (TASK_LIST t) = Some null_node"
proof -
  show d: "TASK_LIST t \<in> dom h" using assms by (simp add: queues_def)
  show n: "\<forall>r \<in> heads. TASK_LIST t \<notin> set (qf F R P r)" using assms by (auto simp: heads_def)
  show "h (TASK_LIST t) = Some null_node"
    using assms(1) d n by (intro qheap_detached [of heads h "qf F R P"]) (auto simp: queues_def detached_def)
qed

lemma queuesD:
  assumes "queues h F R P"
  shows "qheap heads h (qf F R P)" and "dom h = heads \<union> TASK_LIST ` {..<10}"
  using assms by (simp_all add: queues_def)

lemma queues_empty:
  assumes "queues h F R P"
  shows "list_empty (Some FREEQUEUE) h = Some (F = [])"
    and "list_empty (Some READYQUEUE) h = Some (R = [])"
    and "list_empty (Some PRIORITYQUEUE) h = Some (P = [])"
  using lq.is_empty [OF queuesD(1) [OF assms] in_heads(1)] lq.is_empty [OF queuesD(1) [OF assms] in_heads(2)]
    lq.is_empty [OF queuesD(1) [OF assms] in_heads(3)] by simp_all

lemma queues_first:
  assumes "queues h F R P"
  shows "list_first (Some FREEQUEUE) h = Some (Some (hd (map TASK_LIST F @ [FREEQUEUE])))"
    and "list_first (Some READYQUEUE) h = Some (Some (hd (map TASK_LIST R @ [READYQUEUE])))"
    and "list_first (Some PRIORITYQUEUE) h = Some (Some (hd (map TASK_LIST P @ [PRIORITYQUEUE])))"
  using lq.first [OF queuesD(1) [OF assms] in_heads(1)] lq.first [OF queuesD(1) [OF assms] in_heads(2)]
    lq.first [OF queuesD(1) [OF assms] in_heads(3)] by simp_all

text \<open>A store operation that yields the queue function of other lists yields \<open>queues\<close> of them.\<close>

lemma queuesI:
  assumes "\<exists>h'. r = Some h' \<and> qheap heads h' ((qf F R P)(q := xs)) \<and> dom h' = dom h"
    and "queues h F R P" and "(qf F R P)(q := xs) = qf F' R' P'"
  shows "\<exists>h'. r = Some h' \<and> queues h' F' R' P'"
  using assms by (auto simp: queues_def)

lemma queues_pop:
  "queues h (t # F) R P \<Longrightarrow> \<exists>h'. list_del (Some (TASK_LIST t)) h = Some h' \<and> queues h' F R P"
  "queues h F (t # R) P \<Longrightarrow> \<exists>h'. list_del (Some (TASK_LIST t)) h = Some h' \<and> queues h' F R P"
  "queues h F R (t # P) \<Longrightarrow> \<exists>h'. list_del (Some (TASK_LIST t)) h = Some h' \<and> queues h' F R P"
proof -
  show "\<exists>h'. list_del (Some (TASK_LIST t)) h = Some h' \<and> queues h' F R P" if q: "queues h (t # F) R P"
    by (rule queuesI [OF lq.pop_front(2) [OF queuesD(1) [OF q] in_heads(1)] q qf_upd(1)]) simp
  show "\<exists>h'. list_del (Some (TASK_LIST t)) h = Some h' \<and> queues h' F R P" if q: "queues h F (t # R) P"
    by (rule queuesI [OF lq.pop_front(2) [OF queuesD(1) [OF q] in_heads(2)] q qf_upd(2)]) simp
  show "\<exists>h'. list_del (Some (TASK_LIST t)) h = Some h' \<and> queues h' F R P" if q: "queues h F R (t # P)"
    by (rule queuesI [OF lq.pop_front(2) [OF queuesD(1) [OF q] in_heads(3)] q qf_upd(3)]) simp
qed

lemma queues_add_tail:
  assumes "queues h F R P" and "t < 10" and "t \<notin> set (F @ R @ P)"
  shows "\<exists>h'. list_add_tail (Some (TASK_LIST t)) (Some FREEQUEUE) h = Some h' \<and> queues h' (F @ [t]) R P"
    and "\<exists>h'. list_add_tail (Some (TASK_LIST t)) (Some READYQUEUE) h = Some h' \<and> queues h' F (R @ [t]) P"
    and "\<exists>h'. list_add_tail (Some (TASK_LIST t)) (Some PRIORITYQUEUE) h = Some h' \<and> queues h' F R (P @ [t])"
proof -
  note n = queues_free_node [OF assms] and h = queuesD(1) [OF assms(1)]
  have qfa: "(qf F R P)(FREEQUEUE := qf F R P FREEQUEUE @ [TASK_LIST t]) = qf (F @ [t]) R P"
    "(qf F R P)(READYQUEUE := qf F R P READYQUEUE @ [TASK_LIST t]) = qf F (R @ [t]) P"
    "(qf F R P)(PRIORITYQUEUE := qf F R P PRIORITYQUEUE @ [TASK_LIST t]) = qf F R (P @ [t])"
    by (rule ext, case_tac x, simp_all)+
  show "\<exists>h'. list_add_tail (Some (TASK_LIST t)) (Some FREEQUEUE) h = Some h' \<and> queues h' (F @ [t]) R P"
    by (rule queuesI [OF lq.enqueue [OF h in_heads(1) n(1) in_heads(4) n(2)] assms(1) qfa(1)])
  show "\<exists>h'. list_add_tail (Some (TASK_LIST t)) (Some READYQUEUE) h = Some h' \<and> queues h' F (R @ [t]) P"
    by (rule queuesI [OF lq.enqueue [OF h in_heads(2) n(1) in_heads(4) n(2)] assms(1) qfa(2)])
  show "\<exists>h'. list_add_tail (Some (TASK_LIST t)) (Some PRIORITYQUEUE) h = Some h' \<and> queues h' F R (P @ [t])"
    by (rule queuesI [OF lq.enqueue [OF h in_heads(3) n(1) in_heads(4) n(2)] assms(1) qfa(3)])
qed

lemma queues_push_free:
  assumes "queues h F R P" and "t < 10" and "t \<notin> set (F @ R @ P)"
  shows "\<exists>h'. list_add (Some (TASK_LIST t)) (Some FREEQUEUE) h = Some h' \<and> queues h' (t # F) R P"
proof -
  note n = queues_free_node [OF assms] and h = queuesD(1) [OF assms(1)]
  have "(qf F R P)(FREEQUEUE := TASK_LIST t # qf F R P FREEQUEUE) = qf (t # F) R P"
    by (rule ext, case_tac x, simp_all)
  then show ?thesis
    by (rule queuesI [OF lq.push_front [OF h in_heads(1) n(1) in_heads(4) n(2)] assms(1)])
qed

section \<open>Runs of the operations\<close>

text \<open>The \<open>k\<close>-th tick count from now on, and a state in which one task's statistics have changed.\<close>

definition reading :: "kernel \<Rightarrow> nat \<Rightarrow> DWord" where
  "reading s k = ucast (tsc s (tsc_pos s + k) div 109000)"

definition kstat :: "nat \<Rightarrow> stats \<Rightarrow> nat \<Rightarrow> kernel \<Rightarrow> kernel" where
  "kstat c st k s = s\<lparr>tasks := (tasks s)(c := (tasks s c)\<lparr>estat := st\<rparr>), tsc_pos := k\<rparr>"

lemma get_ticks_run: "get_ticks s = Some (reading s 0, s\<lparr>tsc_pos := tsc_pos s + 1\<rparr>)"
  by (simp add: get_ticks_def ticks_of_def Let_def tsc_join do_div_run reading_def)

lemmas time_defs = get_ticks_run upd_stat_def upd_task_def kstat_def current_def Let_def reading_def

lemma user_to_sys_run:
  "user_to_sys s = Some (kstat (cur s) ((estat (cur_task s))\<lparr>
     user_ticks := user_ticks (estat (cur_task s)) + (reading s 0 - elapsed_total_ticks (estat (cur_task s))),
     elapsed_total_ticks := reading s 1, remaining_ticks := quantum_ticks s\<rparr>) (tsc_pos s + 2) s)"
  by (simp add: user_to_sys_def time_defs cur_task_def)

lemma sys_to_user_ready_run:
  "sys_to_user_ready s = Some (kstat (cur s) ((estat (cur_task s))\<lparr>
     system_ticks := system_ticks (estat (cur_task s)) + (reading s 0 - elapsed_total_ticks (estat (cur_task s))),
     elapsed_total_ticks := reading s 1, remaining_ticks := quantum_ticks s\<rparr>) (tsc_pos s + 2) s)"
  by (simp add: sys_to_user_ready_def time_defs cur_task_def)

lemma ready_to_sys_run:
  "ready_to_sys s = Some (kstat (cur s) ((estat (cur_task s))\<lparr>
     ready_ticks := ready_ticks (estat (cur_task s)) + (reading s 0 - elapsed_total_ticks (estat (cur_task s))),
     elapsed_total_ticks := reading s 1, remaining_ticks := quantum_ticks s,
     total_trans := total_trans (estat (cur_task s)) + 1\<rparr>) (tsc_pos s + 2) s)"
  by (simp add: ready_to_sys_def time_defs cur_task_def)

lemma init_stat_run:
  "init_stat t s = Some (kstat t ((estat (tasks s t))\<lparr>user_ticks := 0, system_ticks := 0, blocked_ticks := 0,
     ready_ticks := 0, elapsed_total_ticks := reading s 0, total_trans := 0,
     remaining_ticks := quantum (tasks s t)\<rparr>) (tsc_pos s + 1) s)"
  by (simp add: init_stat_def time_defs)

text \<open>
  The context switch: what is saved for the outgoing task \<open>c\<close> and what the processor gets for the
  incoming one. The stack pointer the incoming task saved decides which task is current.
\<close>

definition switched :: "nat \<Rightarrow> stats \<Rightarrow> nat \<Rightarrow> stats \<Rightarrow> (nat \<Rightarrow> task) \<Rightarrow> nat \<Rightarrow> DWord \<Rightarrow> nat \<Rightarrow> task" where
  "switched c st1 t st2 T fp ret =
    (let T1 = T(c := (T c)\<lparr>estat := st1, kernel_esp := Some (c, fp), stack := (stack (T c))(fp + 1 := ret)\<rparr>)
     in T1(t := (T1 t)\<lparr>estat := st2\<rparr>))"

lemma task_switch_run:
  assumes "kernel_esp (tasks s new) = Some (t, k)" and "new \<noteq> cur s"
  shows "\<exists>st1 st2. task_switch fp new s = Some (s\<lparr>
     tasks := switched (cur s) st1 t st2 (tasks s) fp (sym_task_switch_ret s),
     cur := t, tss_esp0 := Some (KERNEL_ESP new), msr_esp := Some (KERNEL_ESP new),
     mem := (mem s)\<lparr>cr3 := dir_pages_baseAddr (tasks s new)\<rparr>, tlb := Map.empty, tsc_pos := tsc_pos s + 4,
     resumed_at := stack (switched (cur s) st1 t st2 (tasks s) fp (sym_task_switch_ret s) t) (k + 1)\<rparr>)
   \<and> total_trans st2 = total_trans (if t = cur s then st1 else estat (tasks s t)) + 1"
proof -
  define s1 where "s1 = set_stack (cur s) (fp + 1) (sym_task_switch_ret s) s"
  obtain st1 where s2: "sys_to_user_ready s1 = Some (kstat (cur s1) st1 (tsc_pos s1 + 2) s1)"
    using sys_to_user_ready_run by blast
  define s3 where "s3 = s\<lparr>tsc_pos := tsc_pos s + 2, tss_esp0 := Some (KERNEL_ESP new), msr_esp := Some (KERNEL_ESP new),
    mem := (mem s)\<lparr>cr3 := dir_pages_baseAddr (tasks s new)\<rparr>, tlb := Map.empty,
    tasks := (tasks s)(cur s := (tasks s (cur s))\<lparr>stack := (stack (tasks s (cur s)))(fp + 1 := sym_task_switch_ret s),
      estat := st1, kernel_esp := Some (cur s, fp)\<rparr>),
    cur := t\<rparr>"
  have run: "task_switch fp new s = ready_to_sys s3 \<bind> (\<lambda>s. Some (s\<lparr>resumed_at := stack (tasks s t) (k + 1)\<rparr>))"
    unfolding task_switch_def current_def s1_def [symmetric] Let_def s2
    using assms by (simp add: kstat_def s1_def set_stack_def upd_task_def writeMSR_esp_def set_cr3_def get_DIR_def
      s3_def)
  define st2 where "st2 = (estat (tasks s3 t))\<lparr>
     ready_ticks := ready_ticks (estat (tasks s3 t)) + (reading s3 0 - elapsed_total_ticks (estat (tasks s3 t))),
     elapsed_total_ticks := reading s3 1, remaining_ticks := quantum_ticks s3,
     total_trans := total_trans (estat (tasks s3 t)) + 1\<rparr>"
  have c3: "cur s3 = t" by (simp add: s3_def)
  then have r: "ready_to_sys s3 = Some (kstat t st2 (tsc_pos s3 + 2) s3)"
    by (simp add: ready_to_sys_run cur_task_def current_def st2_def)
  have tt: "total_trans st2 = total_trans (if t = cur s then st1 else estat (tasks s t)) + 1"
    by (simp add: st2_def s3_def)
  have T: "tasks (kstat t st2 (tsc_pos s3 + 2) s3)
      = switched (cur s) st1 t st2 (tasks s) fp (sym_task_switch_ret s)"
    by (auto simp: kstat_def s3_def switched_def fun_eq_iff intro!: task.equality)
  show ?thesis
    by (rule exI [of _ st1], rule exI [of _ st2])
      (auto simp: run r T [symmetric] tt, auto intro!: kernel.equality simp: s3_def kstat_def)
qed

text \<open>The usual switch: the incoming task resumes on its own stack.\<close>

definition switch_to :: "nat \<Rightarrow> nat \<Rightarrow> nat \<Rightarrow> stats \<Rightarrow> stats \<Rightarrow> kernel \<Rightarrow> kernel" where
  "switch_to fp t k st1 st2 s = s\<lparr>
     tasks := switched (cur s) st1 t st2 (tasks s) fp (sym_task_switch_ret s),
     cur := t, tss_esp0 := Some (KERNEL_ESP t), msr_esp := Some (KERNEL_ESP t),
     mem := (mem s)\<lparr>cr3 := dir_pages_baseAddr (tasks s t)\<rparr>, tlb := Map.empty, tsc_pos := tsc_pos s + 4,
     resumed_at := stack (tasks s t) (k + 1)\<rparr>"

lemma task_switch_to:
  assumes "kernel_esp (tasks s t) = Some (t, k)" and "t \<noteq> cur s"
  obtains st1 st2 where "task_switch fp t s = Some (switch_to fp t k st1 st2 s)"
    and "total_trans st2 = total_trans (estat (tasks s t)) + 1"
  using task_switch_run [OF assms, of fp] assms by (auto simp: switch_to_def switched_def)

lemma switch_to_simps [simp]:
  "lists (switch_to fp t k st1 st2 s) = lists s" "cur (switch_to fp t k st1 st2 s) = t"
  "quantum_ticks (switch_to fp t k st1 st2 s) = quantum_ticks s"
  "idle_task (switch_to fp t k st1 st2 s) = idle_task s" "nextPID (switch_to fp t k st1 st2 s) = nextPID s"
  "mem (switch_to fp t k st1 st2 s) = (mem s)\<lparr>cr3 := dir_pages_baseAddr (tasks s t)\<rparr>"
  "resumed_at (switch_to fp t k st1 st2 s) = stack (tasks s t) (k + 1)"
  "zeos_ticks (switch_to fp t k st1 st2 s) = zeos_ticks s" "tlb (switch_to fp t k st1 st2 s) = Map.empty"
  "sym_task_switch_ret (switch_to fp t k st1 st2 s) = sym_task_switch_ret s"
  "keyboard_buffer (switch_to fp t k st1 st2 s) = keyboard_buffer s"
  "PID (tasks (switch_to fp t k st1 st2 s) i) = PID (tasks s i)"
  "nice (tasks (switch_to fp t k st1 st2 s) i) = nice (tasks s i)"
  "brk (tasks (switch_to fp t k st1 st2 s) i) = brk (tasks s i)"
  "quantum (tasks (switch_to fp t k st1 st2 s) i) = quantum (tasks s i)"
  "dir_pages_baseAddr (tasks (switch_to fp t k st1 st2 s) i) = dir_pages_baseAddr (tasks s i)"
  "kernel_esp (tasks (switch_to fp t k st1 st2 s) i) = (if i = cur s then Some (cur s, fp) else kernel_esp (tasks s i))"
  "i \<noteq> cur s \<Longrightarrow> stack (tasks (switch_to fp t k st1 st2 s) i) = stack (tasks s i)"
  "stack (tasks (switch_to fp t k st1 st2 s) (cur s)) = (stack (tasks s (cur s)))(fp + 1 := sym_task_switch_ret s)"
  by (auto simp: switch_to_def switched_def)

lemma kstat_simps [simp]:
  "lists (kstat c st k s) = lists s" "cur (kstat c st k s) = cur s" "quantum_ticks (kstat c st k s) = quantum_ticks s"
  "idle_task (kstat c st k s) = idle_task s" "nextPID (kstat c st k s) = nextPID s" "mem (kstat c st k s) = mem s"
  "PID (tasks (kstat c st k s) i) = PID (tasks s i)" "nice (tasks (kstat c st k s) i) = nice (tasks s i)"
  "brk (tasks (kstat c st k s) i) = brk (tasks s i)" "quantum (tasks (kstat c st k s) i) = quantum (tasks s i)"
  "dir_pages_baseAddr (tasks (kstat c st k s) i) = dir_pages_baseAddr (tasks s i)"
  "kernel_esp (tasks (kstat c st k s) i) = kernel_esp (tasks s i)" "stack (tasks (kstat c st k s) i) = stack (tasks s i)"
  "keyboard_buffer (kstat c st k s) = keyboard_buffer s" "scr (kstat c st k s) = scr s"
  "zeos_ticks (kstat c st k s) = zeos_ticks s"
  by (auto simp: kstat_def)

section \<open>The scheduling policy\<close>

text \<open>
  The policy as a function of the priority of the outgoing task and of the two queues: a task of low
  priority (\<open>nc \<noteq> 0\<close>) yields to the first priority task, else to the first ready task; a priority
  task yields to the first ready task. \<^term>\<open>None\<close>: the code takes the entry of an empty queue.
\<close>

definition next_task :: "DWord \<Rightarrow> nat list \<Rightarrow> nat list \<Rightarrow> (nat \<times> nat list \<times> nat list) option" where
  "next_task nc R P =
    (if nc \<noteq> 0 \<and> P \<noteq> [] then Some (hd P, R, tl P)
     else case R of [] \<Rightarrow> None | t # R' \<Rightarrow> Some (t, R', P))"

lemma sched_next_rr_switch:
  assumes "queues (lists s) F R P" and "next_task (nice (cur_task s)) R P = Some (t, R', P')"
    and "kernel_esp (tasks s t) = Some (t, k)" and "t \<noteq> cur s"
  shows "\<exists>h st1 st2. queues h F R' P' \<and> sched_next_rr fp s = Some (switch_to fp t k st1 st2
     (s\<lparr>lists := h, quantum_ticks := (if nice (cur_task s) = 0 then quantum (tasks s t) else quantum (tasks s t) * 5)\<rparr>))
     \<and> total_trans st2 = total_trans (estat (tasks s t)) + 1"
proof -
  let ?nc = "nice (cur_task s)"
  have "\<exists>h. list_del (Some (TASK_LIST t)) (lists s) = Some h \<and> queues h F R' P' \<and>
    (if ?nc \<noteq> 0 then do {
         e \<leftarrow> list_empty (Some PRIORITYQUEUE) (lists s);
         if e then list_first (Some READYQUEUE) (lists s) else list_first (Some PRIORITYQUEUE) (lists s) }
       else list_first (Some READYQUEUE) (lists s)) = Some (Some (TASK_LIST t))"
  proof (cases "?nc \<noteq> 0 \<and> P \<noteq> []")
    case True
    with assms(2) have P: "P = t # P'" "R' = R" by (auto simp: next_task_def)
    with queues_pop(3) [of "lists s" F R t P'] assms(1) queues_empty(3) [OF assms(1)] queues_first(3) [OF assms(1)] True
    show ?thesis by auto
  next
    case False
    with assms(2) have R: "R = t # R'" "P' = P" by (auto simp: next_task_def split: list.splits)
    with queues_pop(2) [of "lists s" F t R' P] assms(1) queues_empty(3) [OF assms(1)] queues_first(2) [OF assms(1)] False
    show ?thesis by auto
  qed
  then obtain h where h: "list_del (Some (TASK_LIST t)) (lists s) = Some h" "queues h F R' P'"
    "(if ?nc \<noteq> 0 then do {
         e \<leftarrow> list_empty (Some PRIORITYQUEUE) (lists s);
         if e then list_first (Some READYQUEUE) (lists s) else list_first (Some PRIORITYQUEUE) (lists s) }
       else list_first (Some READYQUEUE) (lists s)) = Some (Some (TASK_LIST t))" by blast
  define s1 where "s1 = s\<lparr>lists := h, quantum_ticks := (if ?nc = 0 then quantum (tasks s t) else quantum (tasks s t) * 5)\<rparr>"
  from assms(3,4) have "kernel_esp (tasks s1 t) = Some (t, k)" "t \<noteq> cur s1" by (simp_all add: s1_def)
  then obtain st1 st2 where sw: "task_switch fp t s1 = Some (switch_to fp t k st1 st2 s1)"
    "total_trans st2 = total_trans (estat (tasks s1 t)) + 1" by (rule task_switch_to)
  have "sched_next_rr fp s = task_switch fp t s1"
    unfolding sched_next_rr_def Let_def h(3) by (simp add: h(1) with_lists_def list_head_to_task_struct_def s1_def)
  with sw h(2) show ?thesis unfolding s1_def by (intro exI [of _ h] exI [of _ st1] exI [of _ st2]) simp
qed

text \<open>When the policy has no next task, the code treats the queue head as a task.\<close>

lemma sched_next_rr_stuck:
  assumes "queues (lists s) F R P" and "next_task (nice (cur_task s)) R P = None"
  shows "sched_next_rr fp s = None"
proof -
  from assms(2) have R: "R = []" and P: "nice (cur_task s) \<noteq> 0 \<Longrightarrow> P = []"
    by (auto simp: next_task_def split: if_splits list.splits)
  have "(if nice (cur_task s) \<noteq> 0 then do {
         e \<leftarrow> list_empty (Some PRIORITYQUEUE) (lists s);
         if e then list_first (Some READYQUEUE) (lists s) else list_first (Some PRIORITYQUEUE) (lists s) }
       else list_first (Some READYQUEUE) (lists s)) = Some (Some READYQUEUE)"
    using queues_empty(3) [OF assms(1)] queues_first(2) [OF assms(1)] R P by auto
  then show ?thesis
    unfolding sched_next_rr_def Let_def by (auto simp: with_lists_def list_head_to_task_struct_def split: Option.bind_split)
qed

lemma needs_sched_rr_run:
  assumes "queues (lists s) F R P"
  shows "needs_sched_rr s = Some (if sint (quantum_ticks s) > 0 then (False, s)
     else if R = [] \<and> P = [] then (False, upd_stat (cur s) (\<lambda>st. st\<lparr>total_trans := total_trans st + 1\<rparr>)
       (s\<lparr>quantum_ticks := quantum (cur_task s)\<rparr>))
     else (True, s))"
  using queues_empty [OF assms] by (auto simp: needs_sched_rr_def current_def Let_def cur_task_def)

lemma update_process_state_rr_run:
  assumes "queues (lists s) F R P" and "t < 10" and "t \<notin> set (F @ R @ P)"
  shows "\<exists>h. update_process_state_rr t (Some FREEQUEUE) s = Some (s\<lparr>lists := h\<rparr>) \<and> queues h (F @ [t]) R P"
    and "\<exists>h. update_process_state_rr t (Some READYQUEUE) s = Some (s\<lparr>lists := h\<rparr>) \<and> queues h F (R @ [t]) P"
    and "\<exists>h. update_process_state_rr t (Some PRIORITYQUEUE) s = Some (s\<lparr>lists := h\<rparr>) \<and> queues h F R (P @ [t])"
proof -
  have n: "get_prev (Some (TASK_LIST t)) (lists s) = Some None" "get_next (Some (TASK_LIST t)) (lists s) = Some None"
    using queues_free_node(3) [OF assms] by (simp_all add: get_prev_def get_next_def null_node_def)
  show "\<exists>h. update_process_state_rr t (Some FREEQUEUE) s = Some (s\<lparr>lists := h\<rparr>) \<and> queues h (F @ [t]) R P"
    "\<exists>h. update_process_state_rr t (Some READYQUEUE) s = Some (s\<lparr>lists := h\<rparr>) \<and> queues h F (R @ [t]) P"
    "\<exists>h. update_process_state_rr t (Some PRIORITYQUEUE) s = Some (s\<lparr>lists := h\<rparr>) \<and> queues h F R (P @ [t])"
    using queues_add_tail [OF assms] n by (auto simp: update_process_state_rr_def Let_def with_lists_def)
qed

subsection \<open>The tick of the scheduler\<close>

definition requeue :: "DWord \<Rightarrow> nat \<Rightarrow> nat list \<Rightarrow> nat list \<Rightarrow> nat list \<times> nat list" where
  "requeue nc c R P = (if nc \<noteq> 0 then (R @ [c], P) else (R, P @ [c]))"

lemma next_task_requeue:
  assumes "R \<noteq> [] \<or> P \<noteq> []" and "requeue nc c R P = (R2, P2)"
  shows "(nc = 0 \<and> R = [] \<and> next_task nc R2 P2 = None) \<or>
    (\<exists>t R' P'. next_task nc R2 P2 = Some (t, R', P') \<and> t \<in> set (R @ P))"
  using assms by (cases R; cases P) (auto simp: next_task_def requeue_def split: if_splits)

lemma next_task_mset:
  "next_task nc R P = Some (t, R', P') \<Longrightarrow> mset (t # R' @ P') = mset (R @ P)"
  by (cases R; cases P) (auto simp: next_task_def split: if_splits)

definition rr_schedule ::
  "(nat \<Rightarrow> DWord) \<Rightarrow> (nat \<Rightarrow> DWord) \<Rightarrow> nat \<times> nat list \<times> nat list \<times> DWord
    \<Rightarrow> (nat \<times> nat list \<times> nat list \<times> DWord) option" where
  "rr_schedule prio qu = (\<lambda>(c, R, P, q).
     if sint (q - 1) > 0 then Some (c, R, P, q - 1)
     else if R = [] \<and> P = [] then Some (c, R, P, qu c)
     else do {
       let (R, P) = requeue (prio c) c R P;
       (t, R, P) \<leftarrow> next_task (prio c) R P;
       Some (t, R, P, if prio c = 0 then qu t else qu t * 5) })"

lemma schedule_cases:
  assumes "queues (lists s) F R P" and "cur s < 10" and "cur s \<notin> set (F @ R @ P)"
    and "\<forall>t \<in> set (R @ P). \<exists>k. kernel_esp (tasks s t) = Some (t, k)"
    and "requeue (nice (cur_task s)) (cur s) R P = (R2, P2)"
  obtains (tick) "sint (quantum_ticks s - 1) > 0" "schedule fp s = Some (s\<lparr>quantum_ticks := quantum_ticks s - 1\<rparr>)"
  | (alone) st where "sint (quantum_ticks s - 1) \<le> 0" "R = []" "P = []"
      "schedule fp s = Some (kstat (cur s) st (tsc_pos s) (s\<lparr>quantum_ticks := quantum (cur_task s)\<rparr>))"
  | (switch) t k h st1 st2 R' P' where "sint (quantum_ticks s - 1) \<le> 0" "R \<noteq> [] \<or> P \<noteq> []"
      "next_task (nice (cur_task s)) R2 P2 = Some (t, R', P')"
      "t \<in> set (R @ P)" "t \<noteq> cur s" "kernel_esp (tasks s t) = Some (t, k)" "queues h F R' P'"
      "schedule fp s = Some (switch_to fp t k st1 st2 (s\<lparr>lists := h, quantum_ticks :=
        (if nice (cur_task s) = 0 then quantum (tasks s t) else quantum (tasks s t) * 5)\<rparr>))"
      "total_trans st2 = total_trans (estat (tasks s t)) + 1"
  | (stuck) "sint (quantum_ticks s - 1) \<le> 0" "R \<noteq> [] \<or> P \<noteq> []" "nice (cur_task s) = 0" "R = []"
      "next_task (nice (cur_task s)) R2 P2 = None" "schedule fp s = None"
proof -
  define s1 where "s1 = s\<lparr>quantum_ticks := quantum_ticks s - 1\<rparr>"
  have s1: "lists s1 = lists s" "cur s1 = cur s" "cur_task s1 = cur_task s" "quantum_ticks s1 = quantum_ticks s - 1"
    "tasks s1 = tasks s" by (simp_all add: s1_def cur_task_def current_def)
  have sch: "schedule fp s = do {
     (needed, s) \<leftarrow> needs_sched_rr s1;
     if needed then do {
       s \<leftarrow> (if nice (tasks s (cur s)) \<noteq> 0 then update_process_state_rr (cur s) (Some READYQUEUE) s
            else update_process_state_rr (cur s) (Some PRIORITYQUEUE) s);
       sched_next_rr fp s }
     else Some s }"
    by (simp add: schedule_def update_sched_data_rr_def s1_def current_def Let_def cong: if_cong)
  have ns: "needs_sched_rr s1 = Some (if sint (quantum_ticks s - 1) > 0 then (False, s1)
     else if R = [] \<and> P = [] then (False, upd_stat (cur s) (\<lambda>st. st\<lparr>total_trans := total_trans st + 1\<rparr>)
       (s1\<lparr>quantum_ticks := quantum (cur_task s)\<rparr>))
     else (True, s1))"
    using needs_sched_rr_run [of s1 F R P] assms(1) s1 by simp
  consider "sint (quantum_ticks s - 1) > 0" | "sint (quantum_ticks s - 1) \<le> 0" "R = []" "P = []"
    | "sint (quantum_ticks s - 1) \<le> 0" "R \<noteq> [] \<or> P \<noteq> []" by linarith
  then show ?thesis
  proof cases
    case 1
    then show ?thesis using sch ns tick by (simp add: s1_def)
  next
    case 2
    let ?st = "(estat (tasks s (cur s)))\<lparr>total_trans := total_trans (estat (tasks s (cur s))) + 1\<rparr>"
    have "schedule fp s = Some (kstat (cur s) ?st (tsc_pos s) (s\<lparr>quantum_ticks := quantum (cur_task s)\<rparr>))"
      using 2 sch ns by (auto simp: upd_stat_def upd_task_def s1_def kstat_def intro!: kernel.equality)
    with 2 show ?thesis by (rule alone)
  next
    case 3
    have "\<exists>h. (if nice (tasks s1 (cur s1)) \<noteq> 0 then update_process_state_rr (cur s1) (Some READYQUEUE) s1
            else update_process_state_rr (cur s1) (Some PRIORITYQUEUE) s1) = Some (s1\<lparr>lists := h\<rparr>) \<and> queues h F R2 P2"
      using update_process_state_rr_run [of s1 F R P "cur s"] assms(1-3,5) s1
      by (auto simp: requeue_def cur_task_def current_def)
    then obtain h where h: "queues h F R2 P2" "schedule fp s = sched_next_rr fp (s1\<lparr>lists := h\<rparr>)"
      using sch ns 3 by auto
    have q: "queues (lists (s1\<lparr>lists := h\<rparr>)) F R2 P2" using h(1) by simp
    have nc: "nice (cur_task (s1\<lparr>lists := h\<rparr>)) = nice (cur_task s)" using s1 by (simp add: cur_task_def current_def)
    from next_task_requeue [OF 3(2) assms(5)] show ?thesis
    proof (elim disjE conjE exE)
      assume n: "next_task (nice (cur_task s)) R2 P2 = None" "nice (cur_task s) = 0" "R = []"
      have "schedule fp s = None" unfolding h(2) by (rule sched_next_rr_stuck [OF q]) (simp add: nc n(1))
      with 3 n show ?thesis by (intro stuck)
    next
      fix t R' P' assume n: "next_task (nice (cur_task s)) R2 P2 = Some (t, R', P')" "t \<in> set (R @ P)"
      then have ne: "t \<noteq> cur s" using assms(3) by auto
      from assms(4) n(2) obtain k where k: "kernel_esp (tasks s t) = Some (t, k)" by blast
      have "next_task (nice (cur_task (s1\<lparr>lists := h\<rparr>))) R2 P2 = Some (t, R', P')" using n(1) nc by simp
      moreover have "kernel_esp (tasks (s1\<lparr>lists := h\<rparr>) t) = Some (t, k)" "t \<noteq> cur (s1\<lparr>lists := h\<rparr>)"
        using k ne s1 by simp_all
      ultimately obtain h2 st1 st2 where r: "queues h2 F R' P'" "sched_next_rr fp (s1\<lparr>lists := h\<rparr>) = Some (switch_to fp t k st1 st2
          (s1\<lparr>lists := h, lists := h2, quantum_ticks := (if nice (cur_task (s1\<lparr>lists := h\<rparr>)) = 0
            then quantum (tasks (s1\<lparr>lists := h\<rparr>) t) else quantum (tasks (s1\<lparr>lists := h\<rparr>) t) * 5)\<rparr>))"
        "total_trans st2 = total_trans (estat (tasks (s1\<lparr>lists := h\<rparr>) t)) + 1"
        using sched_next_rr_switch [OF q, of t R' P' k fp] by blast
      have "s1\<lparr>lists := h, lists := h2, quantum_ticks := (if nice (cur_task (s1\<lparr>lists := h\<rparr>)) = 0
            then quantum (tasks (s1\<lparr>lists := h\<rparr>) t) else quantum (tasks (s1\<lparr>lists := h\<rparr>) t) * 5)\<rparr>
          = s\<lparr>lists := h2, quantum_ticks := (if nice (cur_task s) = 0 then quantum (tasks s t) else quantum (tasks s t) * 5)\<rparr>"
        unfolding nc by (auto simp: s1_def intro!: kernel.equality)
      with r h(2) 3 n k ne show ?thesis by (intro switch [of t R' P' k h2 st1 st2]) (simp_all add: s1_def)
    qed
  qed
qed

end
