(* ===== verification/Zeos_Sys.thy ===== *)
theory Zeos_Sys
  imports Zeos_Sched
begin

text \<open>
  The system calls of \<^verbatim>\<open>zeOS/sys.c\<close>, each as a state transformer with the value it leaves in
  \<^verbatim>\<open>%eax\<close>. \<^verbatim>\<open>sys_put_screen\<close> is in the scheduler's theory, which calls it.

  Two of them reserve a variable-length array on the 4096-byte kernel stack. \<open>vla_ok\<close> bounds it:
  a negative length has no meaning in C, and an array of more than 768 entries (3072 bytes) is taken not
  to fit beside the task structure and the frames already on the stack.
\<close>

abbreviation (input) LECTURA :: DWord where "LECTURA \<equiv> 0"
abbreviation (input) ESCRIPTURA :: DWord where "ESCRIPTURA \<equiv> 1"

definition vla_ok :: "int \<Rightarrow> bool" where
  "vla_ok n \<longleftrightarrow> 0 \<le> n \<and> n \<le> 768"

section \<open>Simple calls\<close>

definition check_fd :: "DWord \<Rightarrow> DWord \<Rightarrow> DWord" where
  "check_fd fd permissions = (if fd \<noteq> 1 then -9 else if permissions \<noteq> ESCRIPTURA then -13 else 0)"

definition sys_ni_syscall :: "kernel \<Rightarrow> (DWord \<times> kernel) option" where
  "sys_ni_syscall s = Some (-38, s)"

definition sys_getpid :: "kernel \<Rightarrow> (DWord \<times> kernel) option" where
  "sys_getpid s = Some (PID (cur_task s), s)"

definition ret_from_fork :: DWord where
  "ret_from_fork = 0"

definition sys_gettime :: "kernel \<Rightarrow> (DWord \<times> kernel) option" where
  "sys_gettime s = Some (zeos_ticks s, s)"

definition sys_set_fps :: "DWord \<Rightarrow> kernel \<Rightarrow> (DWord \<times> kernel) option" where
  "sys_set_fps fps s =
    (if fps = -1 then
       let s = s\<lparr>spf_PID := -1, spf_ticks := -1\<rparr>;
           s = upd_task (current s) (\<lambda>p. p\<lparr>nice := 1\<rparr>) s
       in Some (1, s)
     else
       let s = upd_task (current s) (\<lambda>p. p\<lparr>nice := 0\<rparr>) s;
           s = s\<lparr>spf_PID := PID (cur_task s), gfps := fps, spf_ticks := 18, spf_sem := fps\<rparr>
       in Some (1, s))"

definition sys_fflush :: "kernel \<Rightarrow> (DWord \<times> kernel) option" where
  "sys_fflush s = do {
     b \<leftarrow> circular_init (keyboard_buffer s);
     Some (1, s\<lparr>keyboard_buffer := b\<rparr>) }"

definition store_user :: "Byte list \<Rightarrow> DWord \<Rightarrow> kernel \<Rightarrow> kernel option" where
  "store_user src q s = do {
     (_, m) \<leftarrow> copy_to_user (obj_ld src) (user_st (user_map (mem s))) 0 q (int (length src)) (ram (mem s));
     Some (s\<lparr>mem := (mem s)\<lparr>ram := m\<rparr>\<rparr>) }"

definition sys_get_key :: "DWord \<Rightarrow> kernel \<Rightarrow> (DWord \<times> kernel) option" where
  "sys_get_key c s =
    (if c = 0 then Some (0, s)
     else do {
       (ret, aux, b) \<leftarrow> circular_read (keyboard_buffer s);
       let s = s\<lparr>keyboard_buffer := b\<rparr>;
       s \<leftarrow> store_user [aux] c s;
       Some (word_of_int ret, s) })"

section \<open>Statistics\<close>

definition dword_bytes :: "DWord \<Rightarrow> Byte list" where
  "dword_bytes w = [ucast w, ucast (drop_bit 8 w), ucast (drop_bit 16 w), ucast (drop_bit 24 w)]"

definition stats_bytes :: "stats \<Rightarrow> Byte list" where
  "stats_bytes st = concat (map dword_bytes [user_ticks st, system_ticks st, blocked_ticks st, ready_ticks st,
     elapsed_total_ticks st, total_trans st, remaining_ticks st])"

definition sys_get_stats :: "DWord \<Rightarrow> DWord \<Rightarrow> kernel \<Rightarrow> (DWord \<times> kernel) option" where
  "sys_get_stats pid st s =
    (if access_ok VERIFY_WRITE st 28 = 0 then Some (- EFAULT, s)
     else if sint pid < 0 then Some (- EINVAL, s)
     else case get_task s pid of
       None \<Rightarrow> Some (- ESRCH, s)
     | Some t \<Rightarrow> do {
         let s = upd_stat t (\<lambda>st. st\<lparr>remaining_ticks := quantum_ticks s\<rparr>) s;
         s \<leftarrow> store_user (stats_bytes (estat (tasks s t))) st s;
         Some (0, s) })"

section \<open>Writing to the console\<close>

text \<open>One call of \<^verbatim>\<open>copy_from_user(&buffer[i], dest, n)\<close> and \<^verbatim>\<open>sys_write_console(dest, n)\<close>.\<close>

definition write_chunk :: "DWord \<Rightarrow> int \<Rightarrow> Byte list \<Rightarrow> kernel \<Rightarrow> (int \<times> Byte list \<times> kernel) option" where
  "write_chunk p n dest s = do {
     (_, dest) \<leftarrow> copy_from_user (buf_ld (user_map (mem s)) (ram (mem s))) buf_st p 0 n dest;
     (ret, d) \<leftarrow> sys_write_console dest n (scr s);
     Some (ret, dest, s\<lparr>scr := d\<rparr>) }"

text \<open>The loop over full chunks; \<open>Inl\<close> is the early return, \<open>Inr\<close> the index and the total.\<close>

function write_loop ::
  "DWord \<Rightarrow> int \<Rightarrow> int \<Rightarrow> int \<Rightarrow> Byte list \<Rightarrow> kernel \<Rightarrow> ((int + int \<times> int \<times> Byte list) \<times> kernel) option" where
  "write_loop buffer limit i tot dest s =
     (if i < limit then do {
        (ret, dest, s) \<leftarrow> write_chunk (buffer + word_of_int i) 500 dest s;
        if ret > 0 then write_loop buffer limit (i + 500) (tot + ret) dest s
        else Some (Inl ret, s) }
      else Some (Inr (i, tot, dest), s))"
  by pat_completeness auto
termination
  by (relation "measure (\<lambda>(buffer, limit, i, tot, dest, s). nat (limit - i))") auto

declare write_loop.simps [simp del]

definition sys_write :: "DWord \<Rightarrow> DWord \<Rightarrow> DWord \<Rightarrow> kernel \<Rightarrow> (DWord \<times> kernel) option" where
  "sys_write fd buffer sz s =
    (let fd_ret = check_fd fd ESCRIPTURA in
     if sint fd_ret > 0 then Some (fd_ret, s)
     else if buffer = 0 then Some (- EFAULT, s)
     else if sint sz < 0 then Some (- EDOM, s)
     else do {
       let limit = sint sz div 500;
       (r, s) \<leftarrow> write_loop buffer limit 0 0 (replicate 500 0) s;
       case r of
         Inl ret \<Rightarrow> Some (word_of_int ret, s)
       | Inr (i, tot, dest) \<Rightarrow> do {
           (ret, _, s) \<leftarrow> write_chunk (buffer + word_of_int i) (sint sz mod 500) dest s;
           if ret > 0 then Some (word_of_int (tot + ret), s) else Some (word_of_int ret, s) } })"

section \<open>Processes\<close>

text \<open>\<^verbatim>\<open>PAG_HEAP\<close> on an \<^verbatim>\<open>int\<close> (\<^verbatim>\<open>sys_fork\<close>, \<^verbatim>\<open>sys_exit\<close>) and the number of data and heap pages.\<close>

definition data_heap_pages :: "DWord \<Rightarrow> int" where
  "data_heap_pages b =
    (let pag_heap = (sint b - sint L_HEAP_START) div 4096;
         heap = (if b AND 0x0fff \<noteq> 0 then pag_heap + 1 else pag_heap)
     in int NUM_PAG_DATA + heap)"

text \<open>The loops of \<^verbatim>\<open>sys_fork\<close> over the child's table, entered at \<open>i\<close>.\<close>

function share_kernel_pages :: "DWord \<Rightarrow> DWord \<Rightarrow> nat \<Rightarrow> mm \<Rightarrow> mm option" where
  "share_kernel_pages parent_PT child_PT i m =
     (if i < NUM_PAG_KERNEL then do {
        e \<leftarrow> pt_read m parent_PT (word_of_nat (1 + i));
        m \<leftarrow> pt_write child_PT (word_of_nat (1 + i)) e m;
        share_kernel_pages parent_PT child_PT (Suc i) m }
      else Some m)"
  by pat_completeness auto
termination
  by (relation "measure (\<lambda>(parent_PT, child_PT, i, m). NUM_PAG_KERNEL - i)") auto

declare share_kernel_pages.simps [simp del]

function share_code_pages :: "DWord \<Rightarrow> DWord \<Rightarrow> nat \<Rightarrow> mm \<Rightarrow> mm option" where
  "share_code_pages parent_PT child_PT i m =
     (if i < NUM_PAG_CODE then do {
        f \<leftarrow> get_frame m parent_PT (word_of_nat (i + PAG_LOG_INIT_CODE));
        m \<leftarrow> set_ss_pag child_PT (word_of_nat (i + PAG_LOG_INIT_CODE)) f m;
        share_code_pages parent_PT child_PT (Suc i) m }
      else Some m)"
  by pat_completeness auto
termination
  by (relation "measure (\<lambda>(parent_PT, child_PT, i, m). NUM_PAG_CODE - i)") auto

declare share_code_pages.simps [simp del]

text \<open>\<open>map_frames PT page fs\<close>: map the frames \<open>fs\<close> from page \<open>page\<close> on (\<^verbatim>\<open>sys_fork\<close> and \<^verbatim>\<open>sys_sbrk\<close>).\<close>

fun map_frames :: "DWord \<Rightarrow> DWord \<Rightarrow> int list \<Rightarrow> mm \<Rightarrow> mm option" where
  "map_frames PT page [] m = Some m"
| "map_frames PT page (f # fs) m = do {
     m \<leftarrow> set_ss_pag PT page (word_of_int f) m;
     map_frames PT (page + 1) fs m }"

text \<open>
  Step ii: each page of the parent is copied into the child's frame, which is mapped for the
  purpose \<open>n\<close> pages further in the parent's own table.
\<close>

fun copy_pages :: "DWord \<Rightarrow> DWord \<Rightarrow> DWord \<Rightarrow> int list \<Rightarrow> mm \<Rightarrow> mm option" where
  "copy_pages parent_PT page n [] m = Some m"
| "copy_pages parent_PT page n (f # fs) m = do {
     m \<leftarrow> set_ss_pag parent_PT (page + n) (word_of_int f) m;
     r \<leftarrow> copy_data (user_ld (user_map m)) (user_st (user_map m)) (page * PAGE_SIZE) ((page + n) * PAGE_SIZE)
        (uint PAGE_SIZE) (ram m);
     let m = m\<lparr>ram := r\<rparr>;
     m \<leftarrow> del_ss_pag parent_PT (page + n) m;
     copy_pages parent_PT (page + 1) n fs m }"

text \<open>The steps of \<^verbatim>\<open>sys_fork\<close> behind the reservation of the frames: address space, PID, stack and queue of the child.\<close>

definition fork_child :: "nat \<Rightarrow> int \<Rightarrow> int list \<Rightarrow> kernel \<Rightarrow> (DWord \<times> kernel) option" where
  "fork_child child n frames s = do {
     let parent = current s;
     parent_PT \<leftarrow> get_PT s parent;
     child_PT \<leftarrow> get_PT s child;
     s \<leftarrow> with_mem (share_kernel_pages parent_PT child_PT 1) s;
     s \<leftarrow> with_mem (share_code_pages parent_PT child_PT 0) s;
     s \<leftarrow> with_mem (map_frames child_PT (word_of_nat PAG_LOG_INIT_DATA) frames) s;
     s \<leftarrow> with_mem (copy_pages parent_PT (word_of_nat PAG_LOG_INIT_DATA) (word_of_int n) frames) s;
     let s = set_cr3 (get_DIR s parent) s;
     let pid = nextPID s;
     let s = s\<lparr>nextPID := nextPID s + 1\<rparr>;
     let s = upd_task child (\<lambda>p. p\<lparr>PID := pid\<rparr>) s;
     s \<leftarrow> init_stat child s;
     let s = set_stack child (KERNEL_STACK_SIZE - 0x13) 0 s;
     let s = set_stack child (KERNEL_STACK_SIZE - 0x12) (sym_ret_from_fork s) s;
     let s = upd_task child (\<lambda>p. p\<lparr>kernel_esp := Some (child, KERNEL_STACK_SIZE - 0x13)\<rparr>) s;
     s \<leftarrow> (if nice (tasks s child) \<noteq> 0
          then with_lists (list_add_tail (Some (TASK_LIST child)) (Some READYQUEUE)) s
          else with_lists (list_add_tail (Some (TASK_LIST child)) (Some PRIORITYQUEUE)) s);
     Some (pid, s) }"

definition sys_fork :: "kernel \<Rightarrow> (DWord \<times> kernel) option" where
  "sys_fork s = do {
     e \<leftarrow> list_empty (Some FREEQUEUE) (lists s);
     if e then Some (- EAGAIN, s)
     else do {
       free_head \<leftarrow> list_first (Some FREEQUEUE) (lists s);
       s \<leftarrow> with_lists (list_del free_head) s;
       child \<leftarrow> list_head_to_task_struct free_head;
       let s = upd_task child (\<lambda>_. tasks s (current s)) s;
       let s = s\<lparr>lists := (lists s)(TASK_LIST child := lists s (TASK_LIST (current s)))\<rparr>;
       let s = allocate_DIR child s;
       let n = data_heap_pages (brk (cur_task s));
       if \<not> vla_ok n then None
       else do {
         (fs, m) \<leftarrow> alloc_loop mm_alloc_frame mm_free_frame (nat n) [] (mem s);
         let s = s\<lparr>mem := m\<rparr>;
         case fs of
           None \<Rightarrow> do {
             s \<leftarrow> with_lists (list_add (Some (TASK_LIST child)) (Some FREEQUEUE)) s;
             Some (- ENOMEM, s) }
         | Some frames \<Rightarrow> fork_child child n frames s } } }"

text \<open>\<open>unmap_pages PT page k\<close>: free the frames of \<open>k\<close> pages from \<open>page\<close> on and unmap them.\<close>

fun unmap_pages :: "DWord \<Rightarrow> DWord \<Rightarrow> nat \<Rightarrow> mm \<Rightarrow> mm option" where
  "unmap_pages PT page 0 m = Some m"
| "unmap_pages PT page (Suc k) m = do {
     f \<leftarrow> get_frame m PT page;
     m \<leftarrow> mm_free_frame f m;
     m \<leftarrow> del_ss_pag PT page m;
     unmap_pages PT (page + 1) k m }"

definition sys_exit :: "nat \<Rightarrow> kernel \<Rightarrow> kernel option" where
  "sys_exit fp s = do {
     let t = current s;
     task_PT \<leftarrow> get_PT s t;
     let n = data_heap_pages (brk (cur_task s));
     s \<leftarrow> with_mem (unmap_pages task_PT (word_of_nat PAG_LOG_INIT_DATA) (nat n)) s;
     let s = upd_task t (\<lambda>p. p\<lparr>PID := -1\<rparr>) s;
     s \<leftarrow> update_process_state_rr t (Some FREEQUEUE) s;
     sched_next_rr fp s }"

section \<open>Dynamic memory\<close>

definition inici_pag :: "DWord \<Rightarrow> bool" where
  "inici_pag b \<longleftrightarrow> b AND 0x0fff = 0"

text \<open>\<^verbatim>\<open>PAG_HEAP\<close> on an \<^verbatim>\<open>unsigned long\<close>.\<close>

definition pag_heap :: "DWord \<Rightarrow> DWord" where
  "pag_heap b = drop_bit 12 (b - L_HEAP_START)"

definition heap_page :: "DWord \<Rightarrow> bool \<Rightarrow> DWord" where
  "heap_page b ini_pag = HEAP_FIRST_PAGE + pag_heap b + (if ini_pag then 0 else 1)"

definition sys_sbrk :: "DWord \<Rightarrow> kernel \<Rightarrow> (DWord \<times> kernel) option" where
  "sys_sbrk n s = do {
     let c = current s;
     pt \<leftarrow> get_PT s c;
     let b = brk (tasks s c);
     if b = L_HEAP_START \<and> sint n < 0 then Some (-1, s)
     else if sint n > 0 then do {
       let pags = pag_heap (b + n) - pag_heap b;
       let ini_pag = inici_pag b;
       let pags = (if ini_pag then pags + 1 else pags);
       if \<not> vla_ok (sint pags) then None
       else do {
         (fs, m) \<leftarrow> alloc_loop mm_alloc_frame mm_free_frame (nat (sint pags)) [] (mem s);
         let s = s\<lparr>mem := m\<rparr>;
         case fs of
           None \<Rightarrow> Some (-1, s)
         | Some frames \<Rightarrow> do {
             s \<leftarrow> with_mem (map_frames pt (heap_page b ini_pag) frames) s;
             Some (b, upd_task c (\<lambda>p. p\<lparr>brk := b + n\<rparr>) s) } } }
     else if sint n < 0 then do {
       let dest = (if b + n < L_HEAP_START then L_HEAP_START else b + n);
       let ini_pag = inici_pag dest;
       let pags = pag_heap b - pag_heap dest;
       let pags = (if ini_pag then pags + 1 else pags);
       s \<leftarrow> with_mem (unmap_pages pt (heap_page dest ini_pag) (nat (sint pags))) s;
       Some (b, upd_task c (\<lambda>p. p\<lparr>brk := dest\<rparr>) s) }
     else Some (b, upd_task c (\<lambda>p. p\<lparr>brk := b\<rparr>) s) }"

end
