(* ===== verification/Zeos_Space.thy ===== *)
theory Zeos_Space
  imports Zeos_Sys
begin

text \<open>
  What the loops of the system calls do to page tables, frames and memory contents.
\<close>

section \<open>Single pages\<close>

definition entry :: "mm \<Rightarrow> nat \<Rightarrow> nat \<Rightarrow> DWord" where
  "entry m t p = pagusr_table m (1024 * t + p)"

text \<open>Replace \<open>n\<close> entries of table \<open>t\<close> from page \<open>p\<close> on.\<close>

definition with_entries :: "nat \<Rightarrow> nat \<Rightarrow> nat \<Rightarrow> (nat \<Rightarrow> DWord) \<Rightarrow> mm \<Rightarrow> mm" where
  "with_entries t p n e m = m\<lparr>pagusr_table := \<lambda>k. if 1024 * t + p \<le> k \<and> k < 1024 * t + p + n
     then e (k - (1024 * t + p)) else pagusr_table m k\<rparr>"

lemma with_entries_0 [simp]: "with_entries t p 0 e m = m"
  by (auto simp: with_entries_def fun_eq_iff intro!: mm.equality)

lemma with_entries_Suc:
  "with_entries t (Suc p) n (\<lambda>i. e (Suc i)) (m\<lparr>pagusr_table := (pagusr_table m)(1024 * t + p := e 0)\<rparr>)
    = with_entries t p (Suc n) e m"
  by (auto simp: with_entries_def fun_eq_iff intro!: mm.equality arg_cong [where f = e])

lemma entry_with_entries:
  "p + n \<le> 1024 \<Longrightarrow> q < 1024 \<Longrightarrow>
   entry (with_entries t p n e m) u q = (if u = t \<and> p \<le> q \<and> q < p + n then e (q - p) else entry m u q)"
proof (cases "u = t")
  case False
  assume "p + n \<le> 1024" "q < 1024"
  with False have "\<not> (1024 * t + p \<le> 1024 * u + q \<and> 1024 * u + q < 1024 * t + p + n)" by auto
  with False show ?thesis by (auto simp: entry_def with_entries_def)
qed (auto simp: entry_def with_entries_def)

lemma with_entries_simps [simp]:
  "phys_mem (with_entries t p n e m) = phys_mem m" "cr3 (with_entries t p n e m) = cr3 m"
  "ram (with_entries t p n e m) = ram m" "row_PT (with_entries t p n e m) = row_PT m"
  "tables_ok (with_entries t p n e m) = tables_ok m" "pagusr_base (with_entries t p n e m) = pagusr_base m"
  by (simp_all add: with_entries_def)

lemma entry_upd [simp]:
  "entry (m\<lparr>phys_mem := pm\<rparr>) = entry m" "entry (m\<lparr>ram := r\<rparr>) = entry m" "entry (m\<lparr>cr3 := c\<rparr>) = entry m"
  by (simp_all add: entry_def fun_eq_iff)

lemma word_page:
  assumes "p < 1024" and "off < 4096"
  shows "drop_bit 22 (word_of_nat p * 4096 + word_of_nat off :: DWord) = 0"
    and "unat (drop_bit 12 (word_of_nat p * 4096 + word_of_nat off :: DWord)) = p"
    and "take_bit 12 (word_of_nat p * 4096 + word_of_nat off :: DWord) = word_of_nat off"
proof -
  define a where "a = (word_of_nat p * 4096 + word_of_nat off :: DWord)"
  have a: "a = word_of_nat (p * 4096 + off)" by (simp add: a_def)
  have "unat a = p * 4096 + off" unfolding a using assms by (subst unat_of_nat) (simp add: take_bit_eq_mod)
  moreover have "unat (drop_bit 22 a) = unat a div 4194304" "unat (drop_bit 12 a) = unat a div 4096"
    by (simp_all add: drop_bit_eq_div unat_div)
  moreover have "unat (take_bit 12 a) = unat a mod 4096"
    unfolding unsigned_take_bit_eq by (simp add: take_bit_eq_mod)
  ultimately have u: "unat (drop_bit 22 a) = 0" "unat (drop_bit 12 a) = p" "unat (take_bit 12 a) = off"
    using assms by (simp_all add: div_mult_self3 div_less less_mult_imp_div_less)
  show "drop_bit 22 (word_of_nat p * 4096 + word_of_nat off :: DWord) = 0"
    using u(1) unfolding a_def [symmetric] by (simp only: unsigned_eq_0_iff)
  show "unat (drop_bit 12 (word_of_nat p * 4096 + word_of_nat off :: DWord)) = p"
    using u(2) unfolding a_def .
  show "take_bit 12 (word_of_nat p * 4096 + word_of_nat off :: DWord) = word_of_nat off"
    using u(3) unfolding a_def [symmetric] using assms(2)
    by (simp add: word_unat_eq_iff unat_of_nat take_bit_eq_mod)
qed

text \<open>Frame numbers the kernel handles: below \<open>2 ^ 20\<close>, and from 256 on for user pages.\<close>

lemma phys_addr_ge:
  assumes "256 \<le> f" and "f < 2 ^ 20"
  shows "(0x100000 :: DWord) \<le> phys_addr (word_of_nat f) va"
proof -
  have "drop_bit 12 (phys_addr (word_of_nat f) va) = (word_of_nat f :: DWord)"
    using assms(2) by (simp add: phys_addr_frame take_bit_of_nat take_bit_nat_eq_self)
  moreover have "unat (word_of_nat f :: DWord) = f" using assms(2) by (simp add: unat_of_nat take_bit_eq_mod)
  ultimately have "unat (drop_bit 12 (phys_addr (word_of_nat f) va)) = f" by (simp only:)
  then have "unat (phys_addr (word_of_nat f) va) div 4096 = f" by (simp add: drop_bit_eq_div unat_div)
  then have "unat (phys_addr (word_of_nat f) va) \<ge> 4096 * 256" using assms(1) by auto
  then show ?thesis by (simp add: word_le_nat_alt)
qed

lemma user_map_page:
  assumes "tables_ok m" and "cr3 m = Some t" and "t < 10" and "p < 1024" and "off < 4096"
    and "pte_present (entry m t p)" and "pte_pbase (entry m t p) = word_of_nat f" and "256 \<le> f" and "f < 2 ^ 20"
  shows "user_map m (word_of_nat p * 4096 + word_of_nat off) = Some (phys_addr (word_of_nat f) (word_of_nat off))"
proof -
  have "take_bit 12 (word_of_nat off :: DWord) = word_of_nat off"
    unfolding take_bit_of_nat using assms(5) by (subst take_bit_nat_eq_self) simp_all
  then show ?thesis
    using assms word_page [OF assms(4,5)] phys_addr_ge [OF assms(8,9), of "word_of_nat off"]
    by (simp add: user_map_def translate_run Let_def entry_def phys_addr_def)
qed

section \<open>The loops over a table\<close>

lemma word_nat_page: "p < 1024 \<Longrightarrow> unat (word_of_nat p :: DWord) = p"
  by (rule unat_page)

lemma slot_inj:
  assumes "p < 1024" and "q < 1024"
  shows "1024 * t + p = 1024 * u + q \<longleftrightarrow> t = u \<and> p = (q :: nat)"
proof
  assume e: "1024 * t + p = 1024 * u + q"
  have "(1024 * t + p) div 1024 = t" "(1024 * u + q) div 1024 = u" using assms by simp_all
  with e have "t = u" by simp
  with e show "t = u \<and> p = q" by simp
qed simp

lemma entry_write:
  assumes "p < 1024" and "q < 1024"
  shows "entry (m\<lparr>pagusr_table := (pagusr_table m)(1024 * t + p := e)\<rparr>) u q
    = (if u = t \<and> q = p then e else entry m u q)"
  using slot_inj [OF assms(2,1), of u t] by (simp add: entry_def)

lemma map_frames_run:
  assumes "t < 10" and "p + length fs \<le> 1024"
  shows "map_frames (row_PT m t) (word_of_nat p) fs m
    = Some (with_entries t p (length fs) (\<lambda>i. user_pte (word_of_int (fs ! i))) m)"
  using assms
proof (induction fs arbitrary: p m)
  case (Cons f fs)
  define m1 where "m1 = m\<lparr>pagusr_table := (pagusr_table m)(1024 * t + p := user_pte (word_of_int f))\<rparr>"
  have "set_ss_pag (row_PT m t) (word_of_nat p) (word_of_int f) m = Some m1"
    using Cons.prems set_ss_pag_row [of t "word_of_nat p" m] by (simp add: m1_def unat_page)
  moreover have "map_frames (row_PT m1 t) (word_of_nat (Suc p)) fs m1
      = Some (with_entries t (Suc p) (length fs) (\<lambda>i. user_pte (word_of_int (fs ! i))) m1)"
    using Cons.prems by (intro Cons.IH) simp_all
  moreover have "row_PT m1 = row_PT m" by (simp add: m1_def)
  moreover have "(word_of_nat p + 1 :: DWord) = word_of_nat (Suc p)" by simp
  moreover have "with_entries t (Suc p) (length fs) (\<lambda>i. user_pte (word_of_int (fs ! i))) m1
      = with_entries t p (Suc (length fs)) (\<lambda>i. user_pte (word_of_int ((f # fs) ! i))) m"
    using with_entries_Suc [of t p "length fs" "\<lambda>i. user_pte (word_of_int ((f # fs) ! i))" m] by (simp add: m1_def)
  ultimately show ?case by (simp del: of_nat_Suc)
qed simp

lemma share_kernel_run:
  assumes "t < 10" and "u < 10" and "t \<noteq> u" and "i \<le> 256"
  shows "share_kernel_pages (row_PT m t) (row_PT m u) i m
    = Some (with_entries u (1 + i) (256 - i) (\<lambda>j. entry m t (1 + i + j)) m)"
  using assms
proof (induction "256 - i" arbitrary: i m)
  case 0
  then show ?case by (subst share_kernel_pages.simps) simp
next
  case (Suc n)
  then have i: "i < 256" by simp
  define m1 where "m1 = m\<lparr>pagusr_table := (pagusr_table m)(1024 * u + (1 + i) := entry m t (1 + i))\<rparr>"
  have step: "share_kernel_pages (row_PT m t) (row_PT m u) i m = share_kernel_pages (row_PT m1 t) (row_PT m1 u) (Suc i) m1"
    using i assms pt_read_row [of t "word_of_nat (1 + i)" m] pt_write_row [of u "word_of_nat (1 + i)" m]
    by (subst share_kernel_pages.simps) (simp add: unat_page m1_def entry_def del: of_nat_Suc of_nat_add)
  have ent: "entry m1 t j = entry m t j" if "j < 1024" for j
    using that assms i unfolding m1_def by (subst entry_write) simp_all
  have "share_kernel_pages (row_PT m1 t) (row_PT m1 u) (Suc i) m1
      = Some (with_entries u (1 + Suc i) (256 - Suc i) (\<lambda>j. entry m1 t (1 + Suc i + j)) m1)"
    using Suc.hyps(2) assms i by (intro Suc.hyps(1)) simp_all
  also have "with_entries u (1 + Suc i) (256 - Suc i) (\<lambda>j. entry m1 t (1 + Suc i + j)) m1
      = with_entries u (Suc (1 + i)) (256 - Suc i) (\<lambda>j. entry m t (1 + i + Suc j)) m1"
    using ent by (auto simp: with_entries_def fun_eq_iff intro!: mm.equality)
  also have "\<dots> = with_entries u (1 + i) (Suc (256 - Suc i)) (\<lambda>j. entry m t (1 + i + j)) m"
    using with_entries_Suc [of u "1 + i" "256 - Suc i" "\<lambda>j. entry m t (1 + i + j)" m] by (simp add: m1_def)
  finally show ?case using step by (simp only: Suc_diff_Suc [OF i])
qed

lemma share_code_run:
  assumes "t < 10" and "u < 10" and "t \<noteq> u" and "i \<le> 8"
  shows "share_code_pages (row_PT m t) (row_PT m u) i m
    = Some (with_entries u (256 + i) (8 - i) (\<lambda>j. user_pte (pte_pbase (entry m t (256 + i + j)))) m)"
  using assms
proof (induction "8 - i" arbitrary: i m)
  case 0
  then show ?case by (subst share_code_pages.simps) simp
next
  case (Suc n)
  then have i: "i < 8" by simp
  define m1 where "m1 = m\<lparr>pagusr_table := (pagusr_table m)(1024 * u + (256 + i) := user_pte (pte_pbase (entry m t (256 + i))))\<rparr>"
  have step: "share_code_pages (row_PT m t) (row_PT m u) i m = share_code_pages (row_PT m1 t) (row_PT m1 u) (Suc i) m1"
    using i assms get_frame_row [of t "word_of_nat (256 + i)" m] set_ss_pag_row [of u "word_of_nat (256 + i)" m]
    by (subst share_code_pages.simps) (simp add: unat_page m1_def entry_def add.commute del: of_nat_Suc of_nat_add)
  have ent: "entry m1 t j = entry m t j" if "j < 1024" for j
    using that assms i unfolding m1_def by (subst entry_write) simp_all
  have "share_code_pages (row_PT m1 t) (row_PT m1 u) (Suc i) m1
      = Some (with_entries u (256 + Suc i) (8 - Suc i) (\<lambda>j. user_pte (pte_pbase (entry m1 t (256 + Suc i + j)))) m1)"
    using Suc.hyps(2) assms i by (intro Suc.hyps(1)) simp_all
  also have "with_entries u (256 + Suc i) (8 - Suc i) (\<lambda>j. user_pte (pte_pbase (entry m1 t (256 + Suc i + j)))) m1
      = with_entries u (Suc (256 + i)) (8 - Suc i) (\<lambda>j. user_pte (pte_pbase (entry m t (256 + i + Suc j)))) m1"
    using ent by (auto simp: with_entries_def fun_eq_iff intro!: mm.equality)
  also have "\<dots> = with_entries u (256 + i) (Suc (8 - Suc i)) (\<lambda>j. user_pte (pte_pbase (entry m t (256 + i + j)))) m"
    using with_entries_Suc [of u "256 + i" "8 - Suc i" "\<lambda>j. user_pte (pte_pbase (entry m t (256 + i + j)))" m] by (simp add: m1_def)
  finally show ?case using step by (simp only: Suc_diff_Suc [OF i])
qed

section \<open>Frames inside the memory state\<close>

lemma free_all_mm:
  "free_all mm_free_frame fs m = map_option (\<lambda>pm. m\<lparr>phys_mem := pm\<rparr>) (free_all free_frame fs (phys_mem m))"
  by (induction fs arbitrary: m) (auto simp: mm_free_frame_def map_option_case split: option.splits Option.bind_splits)

lemma alloc_loop_mm:
  "alloc_loop mm_alloc_frame mm_free_frame n fs m
    = map_option (\<lambda>(r, pm). (r, m\<lparr>phys_mem := pm\<rparr>)) (alloc_loop alloc_frame free_frame n fs (phys_mem m))"
proof (induction n arbitrary: fs m)
  case (Suc n)
  then show ?case
    by (auto simp: mm_alloc_frame_def free_all_mm map_option_case split: option.splits Option.bind_splits)
qed simp

lemma free_frame_pool:
  assumes "frames_ok pm" and "f = 0 \<or> f \<in> frame_pool"
  shows "\<exists>pm'. free_frame (word_of_nat f) pm = Some pm' \<and> frames_ok pm'
    \<and> used_frames pm' = used_frames pm - (if f = 0 then {} else {f})"
proof (cases "f = 0")
  case True
  with assms show ?thesis by (simp add: free_frame_def)
next
  case False
  with assms have "f \<in> frame_pool" by simp
  from fa.release [OF assms(1) this] False show ?thesis by simp
qed

lemma unmap_pages_run:
  assumes "t < 10" and "p + k \<le> 1024" and "frames_ok (phys_mem m)"
    and "\<forall>i < k. pte_pbase (entry m t (p + i)) = word_of_nat (g i) \<and> (g i = 0 \<or> g i \<in> frame_pool)"
  shows "\<exists>pm. unmap_pages (row_PT m t) (word_of_nat p) k m = Some (with_entries t p k (\<lambda>_. 0) (m\<lparr>phys_mem := pm\<rparr>))
    \<and> frames_ok pm \<and> used_frames pm = used_frames (phys_mem m) - {g i | i. i < k \<and> g i \<noteq> 0}"
  using assms
proof (induction k arbitrary: p m g)
  case 0
  then show ?case by (intro exI [of _ "phys_mem m"]) simp
next
  case (Suc k)
  have e0: "pte_pbase (entry m t p) = word_of_nat (g 0)" "g 0 = 0 \<or> g 0 \<in> frame_pool"
    using Suc.prems(4) [rule_format, of 0] by simp_all
  from free_frame_pool [OF Suc.prems(3) e0(2)] obtain pm1 where pm1:
    "free_frame (word_of_nat (g 0)) (phys_mem m) = Some pm1" "frames_ok pm1"
    "used_frames pm1 = used_frames (phys_mem m) - (if g 0 = 0 then {} else {g 0})" by blast
  define m1 where "m1 = m\<lparr>phys_mem := pm1, pagusr_table := (pagusr_table m)(1024 * t + p := 0)\<rparr>"
  have "unmap_pages (row_PT m t) (word_of_nat p) (Suc k) m = unmap_pages (row_PT m1 t) (word_of_nat (Suc p)) k m1"
    using Suc.prems(1,2) pm1(1) e0(1) get_frame_row [of t "word_of_nat p" m] del_ss_pag_row [of t "word_of_nat p" "m\<lparr>phys_mem := pm1\<rparr>"]
    by (simp add: unat_page m1_def entry_def mm_free_frame_def add.commute)
  moreover have "\<forall>i < k. pte_pbase (entry m1 t (Suc p + i)) = word_of_nat (g (Suc i)) \<and> (g (Suc i) = 0 \<or> g (Suc i) \<in> frame_pool)"
    using Suc.prems(2) Suc.prems(4) [rule_format, of "Suc _"] by (auto simp: m1_def entry_def)
  moreover have "frames_ok (phys_mem m1)" using pm1(2) by (simp add: m1_def)
  ultimately obtain pm where pm: "unmap_pages (row_PT m t) (word_of_nat p) (Suc k) m
      = Some (with_entries t (Suc p) k (\<lambda>_. 0) (m1\<lparr>phys_mem := pm\<rparr>))" "frames_ok pm"
    "used_frames pm = used_frames (phys_mem m1) - {g (Suc i) | i. i < k \<and> g (Suc i) \<noteq> 0}"
    using Suc.IH [of "Suc p" m1 "\<lambda>i. g (Suc i)"] Suc.prems(1,2) by auto
  have "with_entries t (Suc p) k (\<lambda>_. 0) (m1\<lparr>phys_mem := pm\<rparr>) = with_entries t p (Suc k) (\<lambda>_. 0) (m\<lparr>phys_mem := pm\<rparr>)"
    by (auto simp: with_entries_def m1_def fun_eq_iff intro!: mm.equality)
  moreover have "{g i | i. i < Suc k \<and> g i \<noteq> 0} = (if g 0 = 0 then {} else {g 0}) \<union> {g (Suc i) | i. i < k \<and> g (Suc i) \<noteq> 0}"
    by (auto simp: less_Suc_eq_0_disj)
  ultimately show ?case using pm pm1(3) by (intro exI [of _ pm]) (auto simp: m1_def)
qed

section \<open>Copying pages\<close>

lemma pt_read_upd [simp]: "pt_read (m\<lparr>ram := r\<rparr>) = pt_read m" "pt_read (m\<lparr>phys_mem := pm\<rparr>) = pt_read m"
  by (auto simp: pt_read_def pte_slot_def fun_eq_iff Let_def)

lemma user_map_upd [simp]: "user_map (m\<lparr>ram := r\<rparr>) = user_map m" "user_map (m\<lparr>phys_mem := pm\<rparr>) = user_map m"
  by (auto simp: user_map_def translate_def page_entry_def fun_eq_iff Let_def cong: if_cong)

text \<open>The address of byte \<open>off\<close> of frame \<open>f\<close>, and copying one page to a page of another frame.\<close>

definition fbyte :: "nat \<Rightarrow> nat \<Rightarrow> DWord" where
  "fbyte f off = phys_addr (word_of_nat f) (word_of_nat off)"

lemma fbyte_inj:
  assumes "f < 2 ^ 20" and "g < 2 ^ 20" and "i < 4096" and "j < 4096"
  shows "fbyte f i = fbyte g j \<longleftrightarrow> f = g \<and> i = j"
proof
  assume "fbyte f i = fbyte g j"
  then have e: "take_bit 20 (word_of_nat f :: DWord) = take_bit 20 (word_of_nat g)"
    "take_bit 12 (word_of_nat i :: DWord) = take_bit 12 (word_of_nat j)"
    unfolding fbyte_def by (rule phys_addr_inj)+
  have "take_bit 20 f = f" "take_bit 20 g = g" "take_bit 12 i = i" "take_bit 12 j = j"
    using assms by (simp_all add: take_bit_nat_eq_self)
  with e have w: "(word_of_nat f :: DWord) = word_of_nat g" "(word_of_nat i :: DWord) = word_of_nat j"
    by (simp_all only: take_bit_of_nat)
  have "unat (word_of_nat f :: DWord) = f" "unat (word_of_nat g :: DWord) = g"
    "unat (word_of_nat i :: DWord) = i" "unat (word_of_nat j :: DWord) = j"
    using assms by (simp_all add: unat_of_nat take_bit_eq_mod)
  with w show "f = g \<and> i = j" by metis
qed simp

definition frame_eq :: "pmem \<Rightarrow> nat \<Rightarrow> pmem \<Rightarrow> nat \<Rightarrow> bool" where
  "frame_eq r f r' g \<longleftrightarrow> (\<forall>off < 4096. r (fbyte f off) = r' (fbyte g off))"

lemma copy_page_map:
  assumes P: "\<And>i. i < 4096 \<Longrightarrow> tr (p + word_of_nat i) = Some (fbyte f i)"
    and Q: "\<And>i. i < 4096 \<Longrightarrow> tr (q + word_of_nat i) = Some (fbyte g i)"
    and "f < 2 ^ 20" and "g < 2 ^ 20" and "f \<noteq> g"
  shows "\<exists>r. copy_data (user_ld tr) (user_st tr) p q 4096 m = Some r
    \<and> frame_eq r g m f \<and> (\<forall>a. drop_bit 12 a \<noteq> word_of_nat g \<longrightarrow> r a = m a)"
proof -
  have fr: "drop_bit 12 (fbyte g i) = (word_of_nat g :: DWord)" for i
    unfolding fbyte_def using assms(4) by (simp add: phys_addr_frame take_bit_of_nat take_bit_nat_eq_self)
  have "\<exists>r. copy_data (user_ld tr) (user_st tr) p q (int 4096) m = Some r
    \<and> (\<forall>i < 4096. r (the (tr (q + word_of_nat i))) = m (the (tr (p + word_of_nat i))))
    \<and> (\<forall>a. (\<forall>i < 4096. tr (q + word_of_nat i) \<noteq> Some a) \<longrightarrow> r a = m a)"
    by (rule copy_data_user) (use assms(3-5) in \<open>auto simp: P Q fbyte_inj\<close>)
  then obtain r where r: "copy_data (user_ld tr) (user_st tr) p q (int 4096) m = Some r"
    "\<And>i. i < 4096 \<Longrightarrow> r (fbyte g i) = m (fbyte f i)" "\<And>a. (\<And>i. i < 4096 \<Longrightarrow> fbyte g i \<noteq> a) \<Longrightarrow> r a = m a"
    using P Q by (metis option.sel)
  have "r a = m a" if "drop_bit 12 a \<noteq> word_of_nat g" for a
  proof (rule r(3))
    show "fbyte g i \<noteq> a" for i using that fr [of i] by auto
  qed
  with r(1,2) show ?thesis by (auto simp: frame_eq_def)
qed

lemma copy_page_run:
  assumes "tables_ok m" and "cr3 m = Some t" and "t < 10" and "p < 1024" and "q < 1024"
    and "pte_present (entry m t p)" and "pte_pbase (entry m t p) = word_of_nat f" and "256 \<le> f" and "f < 2 ^ 20"
    and "pte_present (entry m t q)" and "pte_pbase (entry m t q) = word_of_nat g" and "256 \<le> g" and "g < 2 ^ 20"
    and "f \<noteq> g"
  shows "\<exists>r. copy_data (user_ld (user_map m)) (user_st (user_map m)) (word_of_nat p * 4096) (word_of_nat q * 4096)
       4096 (ram m) = Some r
    \<and> frame_eq r g (ram m) f \<and> (\<forall>a. drop_bit 12 a \<noteq> word_of_nat g \<longrightarrow> r a = ram m a)"
proof (rule copy_page_map)
  show "user_map m (word_of_nat p * 4096 + word_of_nat i) = Some (fbyte f i)" if "i < 4096" for i
    unfolding fbyte_def using that assms by (intro user_map_page)
  show "user_map m (word_of_nat q * 4096 + word_of_nat i) = Some (fbyte g i)" if "i < 4096" for i
    unfolding fbyte_def using that assms by (intro user_map_page)
qed (use assms in simp_all)

lemma fbyte_frame: "f < 2 ^ 20 \<Longrightarrow> drop_bit 12 (fbyte f off) = (word_of_nat f :: DWord)"
  by (simp add: fbyte_def phys_addr_frame take_bit_of_nat take_bit_nat_eq_self)

lemma word_frame_eq:
  assumes "f < 2 ^ 20" and "g < 2 ^ 20"
  shows "(word_of_nat f :: DWord) = word_of_nat g \<longleftrightarrow> f = g"
proof
  assume "(word_of_nat f :: DWord) = word_of_nat g"
  then have "unat (word_of_nat f :: DWord) = unat (word_of_nat g :: DWord)" by simp
  then show "f = g" using assms by (simp add: unat_of_nat take_bit_eq_mod)
qed simp

lemma copy_pages_run:
  assumes "tables_ok m" and "cr3 m = Some t" and "t < 10"
    and "length gs \<le> n" and "p + n + length gs \<le> 1024"
    and "\<forall>i < length gs. pte_present (entry m t (p + i)) \<and> pte_pbase (entry m t (p + i)) = word_of_nat (src i)
      \<and> 256 \<le> src i \<and> src i < 2 ^ 20"
    and "distinct gs" and "\<forall>g \<in> set gs. 256 \<le> g \<and> g < 2 ^ 20"
    and "\<forall>i < length gs. src i \<notin> set gs"
  shows "\<exists>r. copy_pages (row_PT m t) (word_of_nat p) (word_of_nat n) (map int gs) m
      = Some (with_entries t (p + n) (length gs) (\<lambda>_. 0) (m\<lparr>ram := r\<rparr>))
    \<and> (\<forall>i < length gs. frame_eq r (gs ! i) (ram m) (src i))
    \<and> (\<forall>a. drop_bit 12 a \<notin> word_of_nat ` set gs \<longrightarrow> r a = ram m a)"
  using assms
proof (induction gs arbitrary: p m src)
  case Nil
  then show ?case by (intro exI [of _ "ram m"]) simp
next
  case (Cons g gs)
  have b: "256 \<le> g" "g < 2 ^ 20" and p: "p < 1024" "p + n < 1024" "p \<noteq> p + n"
    using Cons.prems(4,5,8) by auto
  have s0: "pte_present (entry m t p)" "pte_pbase (entry m t p) = word_of_nat (src 0)" "256 \<le> src 0" "src 0 < 2 ^ 20"
    using Cons.prems(6) [rule_format, of 0] by simp_all
  have ne: "src 0 \<noteq> g" using Cons.prems(9) by auto
  define m1 where "m1 = m\<lparr>pagusr_table := (pagusr_table m)(1024 * t + (p + n) := user_pte (word_of_nat g))\<rparr>"
  have pn: "unat (word_of_nat (p + n) :: DWord) = p + n" by (rule unat_page) (use p in simp)
  have set: "set_ss_pag (row_PT m t) (word_of_nat (p + n)) (word_of_int (int g)) m = Some m1"
    using Cons.prems(3) p(2) set_ss_pag_row [of t "word_of_nat (p + n)" m] unfolding pn by (simp add: m1_def)
  have en: "entry m1 t p = entry m t p" "entry m1 t (p + n) = user_pte (word_of_nat g)"
    unfolding m1_def using p by (subst entry_write; simp)+
  have m1: "tables_ok m1" "cr3 m1 = Some t" using Cons.prems(1,2) by (simp_all add: m1_def)
  have pb: "pte_pbase (user_pte (word_of_nat g)) = word_of_nat g"
    using b(2) by (simp add: take_bit_of_nat take_bit_nat_eq_self)
  have "\<exists>r. copy_data (user_ld (user_map m1)) (user_st (user_map m1)) (word_of_nat p * 4096) (word_of_nat (p + n) * 4096)
       4096 (ram m1) = Some r
    \<and> frame_eq r g (ram m1) (src 0) \<and> (\<forall>a. drop_bit 12 a \<noteq> word_of_nat g \<longrightarrow> r a = ram m1 a)"
    using m1 Cons.prems(3) p s0 b ne pb en by (intro copy_page_run) auto
  then obtain r where r: "copy_data (user_ld (user_map m1)) (user_st (user_map m1)) (word_of_nat p * 4096)
       (word_of_nat (p + n) * 4096) 4096 (ram m) = Some r"
    "frame_eq r g (ram m) (src 0)" "\<And>a. drop_bit 12 a \<noteq> word_of_nat g \<Longrightarrow> r a = ram m a"
    by (auto simp: m1_def)
  define m2 where "m2 = m\<lparr>ram := r, pagusr_table := (pagusr_table m)(1024 * t + (p + n) := 0)\<rparr>"
  have rowm: "row_PT m1 = row_PT m" "row_PT m2 = row_PT m" by (simp_all add: m1_def m2_def)
  have "del_ss_pag (row_PT (m1\<lparr>ram := r\<rparr>) t) (word_of_nat (p + n)) (m1\<lparr>ram := r\<rparr>) = Some m2"
    using Cons.prems(3) p(2) del_ss_pag_row [of t "word_of_nat (p + n)" "m1\<lparr>ram := r\<rparr>"]
    unfolding pn by (auto simp: m1_def m2_def intro!: mm.equality)
  then have del: "del_ss_pag (row_PT m t) (word_of_nat (p + n)) (m1\<lparr>ram := r\<rparr>) = Some m2"
    by (simp add: rowm)
  have pnw: "word_of_nat p + word_of_nat n = (word_of_nat (p + n) :: DWord)"
    and p1: "word_of_nat p + 1 = (word_of_nat (Suc p) :: DWord)" and ps: "uint (0x1000 :: DWord) = 4096" by simp_all
  have r1: "copy_data (user_ld (user_map m1)) (user_st (user_map m1)) (word_of_nat p * 4096)
       (word_of_nat (p + n) * 4096) 4096 (ram m1) = Some r" using r(1) by (simp add: m1_def)
  have "copy_pages (row_PT m t) (word_of_nat p) (word_of_nat n) (map int (g # gs)) m
      = copy_pages (row_PT m2 t) (word_of_nat (Suc p)) (word_of_nat n) (map int gs) m2"
    unfolding list.map copy_pages.simps pnw ps set bind_Some_run r1 Let_def del p1 rowm ..
  moreover have "\<exists>r'. copy_pages (row_PT m2 t) (word_of_nat (Suc p)) (word_of_nat n) (map int gs) m2
      = Some (with_entries t (Suc p + n) (length gs) (\<lambda>_. 0) (m2\<lparr>ram := r'\<rparr>))
    \<and> (\<forall>i < length gs. frame_eq r' (gs ! i) (ram m2) (src (Suc i)))
    \<and> (\<forall>a. drop_bit 12 a \<notin> word_of_nat ` set gs \<longrightarrow> r' a = ram m2 a)"
  proof (rule Cons.IH)
    show "\<forall>i < length gs. pte_present (entry m2 t (Suc p + i)) \<and> pte_pbase (entry m2 t (Suc p + i)) = word_of_nat (src (Suc i))
      \<and> 256 \<le> src (Suc i) \<and> src (Suc i) < 2 ^ 20"
    proof (intro allI impI)
      fix i assume i: "i < length gs"
      then have "entry m2 t (Suc p + i) = entry m t (p + Suc i)"
        using Cons.prems(4,5) unfolding m2_def entry_def by auto
      with Cons.prems(6) [rule_format, of "Suc i"] i
      show "pte_present (entry m2 t (Suc p + i)) \<and> pte_pbase (entry m2 t (Suc p + i)) = word_of_nat (src (Suc i))
        \<and> 256 \<le> src (Suc i) \<and> src (Suc i) < 2 ^ 20" by simp
    qed
  qed (use Cons.prems in \<open>auto simp: m2_def\<close>)
  ultimately obtain r' where r': "copy_pages (row_PT m t) (word_of_nat p) (word_of_nat n) (map int (g # gs)) m
      = Some (with_entries t (Suc p + n) (length gs) (\<lambda>_. 0) (m2\<lparr>ram := r'\<rparr>))"
    "\<And>i. i < length gs \<Longrightarrow> frame_eq r' (gs ! i) r (src (Suc i))"
    "\<And>a. drop_bit 12 a \<notin> word_of_nat ` set gs \<Longrightarrow> r' a = r a" by (auto simp: m2_def)
  have lt: "h < 2 ^ 20" if "h \<in> set gs" for h using Cons.prems(8) that by simp
  have "with_entries t (Suc p + n) (length gs) (\<lambda>_. 0) (m2\<lparr>ram := r'\<rparr>)
      = with_entries t (p + n) (length (g # gs)) (\<lambda>_. 0) (m\<lparr>ram := r'\<rparr>)"
    by (auto simp: with_entries_def m2_def fun_eq_iff intro!: mm.equality)
  moreover have "frame_eq r' ((g # gs) ! i) (ram m) (src i)" if i: "i < length (g # gs)" for i
  proof (cases i)
    case 0
    have "(word_of_nat g :: DWord) \<notin> word_of_nat ` set gs"
      using Cons.prems(7) word_frame_eq [OF b(2) lt] by auto
    then have "r' (fbyte g off) = r (fbyte g off)" for off
      using r'(3) [of "fbyte g off"] fbyte_frame [OF b(2)] by simp
    with r(2) 0 show ?thesis by (simp add: frame_eq_def)
  next
    case (Suc j)
    have "src i < 2 ^ 20" "src i \<noteq> g" using Cons.prems(6,9) i by auto
    then have "drop_bit 12 (fbyte (src i) off) \<noteq> word_of_nat g" for off
      using fbyte_frame [of "src i" off] word_frame_eq [of "src i" g] b(2) by simp
    then have "r (fbyte (src i) off) = ram m (fbyte (src i) off)" for off using r(3) by simp
    with r'(2) [of j] Suc i show ?thesis by (simp add: frame_eq_def)
  qed
  moreover have "r' a = ram m a" if "drop_bit 12 a \<notin> word_of_nat ` set (g # gs)" for a
    using that r'(3) [of a] r(3) [of a] by auto
  ultimately show ?case using r'(1) by (intro exI [of _ r']) simp
qed

end
