(* ===== verification/Zeos_Interrupt.thy ===== *)
theory Zeos_Interrupt
  imports Zeos_Sys
begin

text \<open>
  The ways into the kernel: \<^verbatim>\<open>zeOS/interrupt.c\<close> (keyboard and clock service
  routines), the handlers of \<^verbatim>\<open>entry.S\<close> and the table of \<^verbatim>\<open>sys_call_table.S\<close>. At the end, the
  events of the machine, those that reach the kernel and the stores of the running process, with the function
  that handles one.

  \<^verbatim>\<open>zeos_show_clock\<close> comes from \<^verbatim>\<open>libzeos.a\<close> and is a parameter, a function on the screen.
\<close>

section \<open>Keyboard\<close>

definition char_map :: "Byte list" where
  "char_map = [0, 0, 0x31, 0x32, 0x33, 0x34, 0x35, 0x36,
    0x37, 0x38, 0x39, 0x30, 0x27, 0xa1, 0, 0,
    0x71, 0x77, 0x65, 0x72, 0x74, 0x79, 0x75, 0x69,
    0x6f, 0x70, 0x60, 0x2b, 0, 0, 0x61, 0x73,
    0x64, 0x66, 0x67, 0x68, 0x6a, 0x6b, 0x6c, 0xf1,
    0, 0xba, 0, 0xe7, 0x7a, 0x78, 0x63, 0x76,
    0x62, 0x6e, 0x6d, 0x2c, 0x2e, 0x2d, 0, 0x2a,
    0, 0, 0, 0, 0, 0, 0, 0,
    0, 0, 0, 0, 0, 0, 0, 0x37,
    0x38, 0x39, 0x2d, 0x34, 0x35, 0x36, 0x2b, 0x31,
    0x32, 0x33, 0x30, 0, 0, 0, 0x3c, 0,
    0, 0, 0, 0, 0, 0, 0, 0,
    0, 0]"

text \<open>\<^verbatim>\<open>value\<close> is the byte read from port \<^verbatim>\<open>0x60\<close>.\<close>

definition keyboard_routine :: "Byte \<Rightarrow> kernel \<Rightarrow> kernel option" where
  "keyboard_routine value s =
    (if value AND 0x80 \<noteq> 0 then do {
       let code = value AND 0x7f;
       b \<leftarrow> (if uint code > int (length char_map) then circular_write (keyboard_buffer s) 0x43
            else do {
              key \<leftarrow> arr_get char_map (uint code);
              if key \<noteq> 0 then circular_write (keyboard_buffer s) key
              else circular_write (keyboard_buffer s) 0x43 });
       Some (s\<lparr>keyboard_buffer := b\<rparr>) }
     else Some s)"

section \<open>Clock\<close>

definition clock_routine :: "(DWord \<Rightarrow> screen \<Rightarrow> screen) \<Rightarrow> nat \<Rightarrow> kernel \<Rightarrow> kernel option" where
  "clock_routine zeos_show_clock fp s = do {
     let s = s\<lparr>scr := zeos_show_clock (zeos_ticks s) (scr s)\<rparr>;
     let s = s\<lparr>zeos_ticks := zeos_ticks s + 1\<rparr>;
     s \<leftarrow> schedule_fps s;
     schedule fp s }"

section \<open>System calls\<close>

text \<open>
  The call through \<^verbatim>\<open>sys_call_table\<close> with the arguments in \<^verbatim>\<open>%ebx\<close>, \<^verbatim>\<open>%ecx\<close>, \<^verbatim>\<open>%edx\<close>. The result is what
  the call leaves in \<^verbatim>\<open>%eax\<close>; \<^verbatim>\<open>sys_exit\<close> does not return. The table has 36 entries; the word behind
  them is not a known address.
\<close>

definition MAX_SYSCALL :: int where
  "MAX_SYSCALL = 36"

definition sys_call :: "nat \<Rightarrow> nat \<Rightarrow> DWord \<Rightarrow> DWord \<Rightarrow> DWord \<Rightarrow> kernel \<Rightarrow> (DWord option \<times> kernel) option" where
  "sys_call fp n ebx ecx edx s =
    (if n = 1 then map_option (Pair None) (sys_exit fp s)
     else if n \<ge> 36 then None
     else map_option (\<lambda>(r, s). (Some r, s))
       (if n = 2 then sys_fork s
        else if n = 4 then sys_write ebx ecx edx s
        else if n = 10 then sys_gettime s
        else if n = 15 then sys_get_key ebx s
        else if n = 16 then sys_put_screen ebx s
        else if n = 17 then sys_set_fps ebx s
        else if n = 18 then sys_fflush s
        else if n = 19 then sys_sbrk ebx s
        else if n = 20 then sys_getpid s
        else if n = 35 then sys_get_stats ebx ecx s
        else sys_ni_syscall s))"

text \<open>\<^verbatim>\<open>system_call_handler\<close>; \<^verbatim>\<open>syscall_handler_sysenter\<close> has the same body between its entry and exit code.\<close>

definition system_call_handler ::
  "nat \<Rightarrow> DWord \<Rightarrow> DWord \<Rightarrow> DWord \<Rightarrow> DWord \<Rightarrow> kernel \<Rightarrow> (DWord option \<times> kernel) option" where
  "system_call_handler fp eax ebx ecx edx s =
    (if sint eax < 0 \<or> sint eax > MAX_SYSCALL then Some (Some (- ENOSYS), s)
     else do {
       s \<leftarrow> user_to_sys s;
       (r, s) \<leftarrow> sys_call fp (nat (sint eax)) ebx ecx edx s;
       s \<leftarrow> sys_to_user_ready s;
       Some (r, s) })"

definition clock_handler :: "(DWord \<Rightarrow> screen \<Rightarrow> screen) \<Rightarrow> nat \<Rightarrow> kernel \<Rightarrow> kernel option" where
  "clock_handler zeos_show_clock fp s = do {
     s \<leftarrow> user_to_sys s;
     s \<leftarrow> clock_routine zeos_show_clock fp s;
     sys_to_user_ready s }"

definition keyboard_handler :: "Byte \<Rightarrow> kernel \<Rightarrow> kernel option" where
  "keyboard_handler value s = do {
     s \<leftarrow> user_to_sys s;
     s \<leftarrow> keyboard_routine value s;
     sys_to_user_ready s }"

section \<open>The machine\<close>

text \<open>A store of the running process: user mode needs a present, user, writable page.\<close>

definition user_store :: "DWord \<Rightarrow> Byte \<Rightarrow> kernel \<Rightarrow> kernel option" where
  "user_store va b s = do {
     e \<leftarrow> page_entry (mem s) va;
     pa \<leftarrow> translate (mem s) va;
     if pte_user e \<and> pte_rw e then Some (s\<lparr>mem := (mem s)\<lparr>ram := (ram (mem s))(pa := b)\<rparr>\<rparr>) else None }"

datatype event =
    Clock nat
  | Key Byte
  | Syscall nat DWord DWord DWord DWord
  | Store DWord Byte

fun handle :: "(DWord \<Rightarrow> screen \<Rightarrow> screen) \<Rightarrow> event \<Rightarrow> kernel \<Rightarrow> kernel option" where
  "handle zsc (Clock fp) s = clock_handler zsc fp s"
| "handle zsc (Key v) s = keyboard_handler v s"
| "handle zsc (Syscall fp eax ebx ecx edx) s = map_option snd (system_call_handler fp eax ebx ecx edx s)"
| "handle zsc (Store va b) s = user_store va b s"

end
