(* ===== verification/Zeos_Inv.thy ===== *)
theory Zeos_Inv
  imports Zeos_Space Zeos_Interrupt
begin

text \<open>
  The invariant of the kernel: every task is running, idle, free or in exactly one run queue; every page
  of data and heap belongs to one process and has a frame of its own; the tables agree with the
  break of each process. The lemmas show that every entry into the kernel keeps it.
\<close>

section \<open>Ownership of frames\<close>

definition code_frames :: "nat set" where
  "code_frames = {256, 258, 260, 262, 264, 266, 268, 270}"

definition frame_of :: "mm \<Rightarrow> nat \<Rightarrow> nat \<Rightarrow> nat" where
  "frame_of m t p = unat (pte_pbase (entry m t p))"

text \<open>The pages of data and heap; the frames a process can own.\<close>

definition user_page :: "nat \<Rightarrow> bool" where
  "user_page p \<longleftrightarrow> 264 \<le> p \<and> p < 1024"

definition own_pool :: "nat set" where
  "own_pool = frame_pool - code_frames"

definition entries_owned :: "mm \<Rightarrow> bool" where
  "entries_owned m \<longleftrightarrow> (\<forall>t < 10. \<forall>p. user_page p \<longrightarrow> entry m t p = 0 \<or>
     (\<exists>f. f \<in> own_pool \<and> f \<in> used_frames (phys_mem m) \<and> entry m t p = user_pte (word_of_nat f)))"

definition owner_inj :: "mm \<Rightarrow> bool" where
  "owner_inj m \<longleftrightarrow> (\<forall>t < 10. \<forall>u < 10. \<forall>p q. user_page p \<longrightarrow> user_page q \<longrightarrow> entry m t p \<noteq> 0 \<longrightarrow>
     entry m u q \<noteq> 0 \<longrightarrow> frame_of m t p = frame_of m u q \<longrightarrow> t = u \<and> p = q)"

text \<open>Every table maps the kernel as at boot, also the tables of free tasks; the code pages are shared.\<close>

definition kernel_ok :: "mm \<Rightarrow> bool" where
  "kernel_ok m \<longleftrightarrow> (\<forall>t < 10. \<forall>p < 256. entry m t p = boot_entry p)"

definition code_ok :: "mm \<Rightarrow> nat \<Rightarrow> bool" where
  "code_ok m t \<longleftrightarrow>
     (\<forall>i < 8. pte_present (entry m t (256 + i)) \<and> pte_user (entry m t (256 + i))
        \<and> pte_pbase (entry m t (256 + i)) = word_of_nat (256 + 2 * i))"

definition mem_inv :: "mm \<Rightarrow> nat set \<Rightarrow> (nat \<Rightarrow> nat) \<Rightarrow> bool" where
  "mem_inv m L N \<longleftrightarrow> tables_ok m \<and> frames_ok (phys_mem m) \<and> code_frames \<subseteq> used_frames (phys_mem m)
     \<and> entries_owned m \<and> owner_inj m \<and> kernel_ok m
     \<and> (\<forall>t \<in> L. t < 10 \<and> code_ok m t \<and> (\<forall>p. 264 \<le> p \<and> p < 264 + N t \<longrightarrow> p < 1024 \<and> entry m t p \<noteq> 0))"

lemma user_pte_frame:
  assumes "f < 2 ^ 20"
  shows "unat (pte_pbase (user_pte (word_of_nat f))) = f" and "user_pte (word_of_nat f) \<noteq> 0"
proof -
  have "pte_pbase (user_pte (word_of_nat f)) = (word_of_nat f :: DWord)"
    using assms by (simp add: take_bit_of_nat take_bit_nat_eq_self)
  then show "unat (pte_pbase (user_pte (word_of_nat f))) = f"
    using assms by (simp add: unat_of_nat take_bit_eq_mod del: pte_pbase_user_pte)
  show "user_pte (word_of_nat f) \<noteq> 0" by (metis pte_zero(1) user_pte_fields(1))
qed

lemma own_pool_bounds: "f \<in> own_pool \<Longrightarrow> 256 < f \<and> f < 1024 \<and> f < 2 ^ 20 \<and> f \<in> frame_pool \<and> f \<notin> code_frames"
  by (simp add: own_pool_def frame_pool_def)

lemma entries_ownedD:
  assumes "entries_owned m" and "t < 10" and "user_page p" and "entry m t p \<noteq> 0"
  shows "frame_of m t p \<in> own_pool" and "frame_of m t p \<in> used_frames (phys_mem m)"
    and "entry m t p = user_pte (word_of_nat (frame_of m t p))"
    and "pte_present (entry m t p)" and "pte_pbase (entry m t p) = word_of_nat (frame_of m t p)"
proof -
  from assms obtain f where f: "f \<in> own_pool" "f \<in> used_frames (phys_mem m)" "entry m t p = user_pte (word_of_nat f)"
    unfolding entries_owned_def by blast
  then have "frame_of m t p = f" using own_pool_bounds user_pte_frame(1) by (simp add: frame_of_def)
  with f show "frame_of m t p \<in> own_pool" "frame_of m t p \<in> used_frames (phys_mem m)"
    "entry m t p = user_pte (word_of_nat (frame_of m t p))" "pte_present (entry m t p)" by simp_all
  show "pte_pbase (entry m t p) = word_of_nat (frame_of m t p)"
    unfolding \<open>frame_of m t p = f\<close> f(3) using own_pool_bounds [OF f(1)]
    by (simp add: take_bit_of_nat take_bit_nat_eq_self)
qed

lemma mem_inv_upd [simp]:
  "mem_inv (m\<lparr>ram := r\<rparr>) L N = mem_inv m L N" "mem_inv (m\<lparr>cr3 := c\<rparr>) L N = mem_inv m L N"
  by (simp_all add: mem_inv_def entries_owned_def owner_inj_def kernel_ok_def code_ok_def frame_of_def)

lemma mem_inv_mono:
  "mem_inv m L N \<Longrightarrow> L' \<subseteq> L \<Longrightarrow> (\<forall>t \<in> L'. N' t \<le> N t) \<Longrightarrow> mem_inv m L' N'"
  unfolding mem_inv_def by (meson add_le_cancel_left less_le_trans subset_iff)

text \<open>Replacing entries of one table in the user pages by zero or by frames that were not in use.\<close>

lemma mem_inv_with_entries:
  assumes inv: "mem_inv m L N" and t: "t < 10" and q: "264 \<le> q" "q + k \<le> 1024" and pm: "frames_ok pm"
    and new: "\<forall>i < k. e i = 0 \<or> (\<exists>f. f \<in> own_pool \<and> f \<in> used_frames pm \<and> f \<notin> used_frames (phys_mem m)
        \<and> e i = user_pte (word_of_nat f))"
    and dist: "\<forall>i < k. \<forall>j < k. e i \<noteq> 0 \<longrightarrow> e i = e j \<longrightarrow> i = j"
    and kept: "\<forall>u < 10. \<forall>p. user_page p \<longrightarrow> entry m u p \<noteq> 0 \<longrightarrow> \<not> (u = t \<and> q \<le> p \<and> p < q + k) \<longrightarrow>
        frame_of m u p \<in> used_frames pm"
    and code: "code_frames \<subseteq> used_frames pm"
    and L': "\<forall>u \<in> L'. u \<noteq> t \<longrightarrow> u \<in> L \<and> N' u \<le> N u"
    and tt: "t \<in> L' \<Longrightarrow> code_ok m t \<and> (\<forall>p. 264 \<le> p \<and> p < 264 + N' t \<longrightarrow> p < 1024 \<and>
        (if q \<le> p \<and> p < q + k then e (p - q) \<noteq> 0 else entry m t p \<noteq> 0))"
  shows "mem_inv (with_entries t q k e (m\<lparr>phys_mem := pm\<rparr>)) L' N'"
proof -
  let ?m = "with_entries t q k e (m\<lparr>phys_mem := pm\<rparr>)"
  have ent: "entry ?m u p = (if u = t \<and> q \<le> p \<and> p < q + k then e (p - q) else entry m u p)" if "p < 1024" for u p
    using entry_with_entries [OF q(2) that, of t e "m\<lparr>phys_mem := pm\<rparr>" u] by simp
  from inv have eo: "entries_owned m" and oi: "owner_inj m" by (simp_all add: mem_inv_def)
  have own: "entries_owned ?m"
    unfolding entries_owned_def
  proof (intro allI impI)
    fix u p :: nat assume u: "u < 10" and p: "user_page p"
    then have lt: "p < 1024" by (simp add: user_page_def)
    show "entry ?m u p = 0 \<or> (\<exists>f. f \<in> own_pool \<and> f \<in> used_frames (phys_mem ?m) \<and> entry ?m u p = user_pte (word_of_nat f))"
    proof (cases "u = t \<and> q \<le> p \<and> p < q + k")
      case True
      then have "p - q < k" by auto
      then show ?thesis using True new [rule_format, of "p - q"] ent [OF lt, of u] by auto
    next
      case False
      then show ?thesis
        using entries_ownedD(1,3) [OF eo u p] kept [rule_format, OF u p] ent [OF lt, of u] by auto
    qed
  qed
  have inj: "owner_inj ?m"
    unfolding owner_inj_def
  proof (intro allI impI)
    fix u v p r :: nat assume a: "u < 10" "v < 10" "user_page p" "user_page r" "entry ?m u p \<noteq> 0" "entry ?m v r \<noteq> 0"
      "frame_of ?m u p = frame_of ?m v r"
    then have lt: "p < 1024" "r < 1024" by (simp_all add: user_page_def)
    have fresh: "frame_of ?m w x \<notin> used_frames (phys_mem m)"
      if "x < 1024" "entry ?m w x \<noteq> 0" "w = t \<and> q \<le> x \<and> x < q + k" for w x
    proof -
      from that(3) have "x - q < k" by auto
      then show ?thesis
        using new [rule_format, of "x - q"] that ent [OF that(1), of w] own_pool_bounds user_pte_frame(1)
        by (auto simp: frame_of_def)
    qed
    have old: "frame_of ?m w x = frame_of m w x \<and> frame_of ?m w x \<in> used_frames (phys_mem m)"
      if "w < 10" "user_page x" "entry ?m w x \<noteq> 0" "\<not> (w = t \<and> q \<le> x \<and> x < q + k)" for w x
      using entries_ownedD(2) [OF eo that(1,2)] that ent [of x w] by (auto simp: frame_of_def user_page_def)
    consider "u = t \<and> q \<le> p \<and> p < q + k" "v = t \<and> q \<le> r \<and> r < q + k"
      | "\<not> (u = t \<and> q \<le> p \<and> p < q + k)" "\<not> (v = t \<and> q \<le> r \<and> r < q + k)"
      | "u = t \<and> q \<le> p \<and> p < q + k" "\<not> (v = t \<and> q \<le> r \<and> r < q + k)"
      | "\<not> (u = t \<and> q \<le> p \<and> p < q + k)" "v = t \<and> q \<le> r \<and> r < q + k" by blast
    then show "u = v \<and> p = r"
    proof cases
      case 1
      have "entry ?m u p = entry ?m v r"
        using entries_ownedD(3) [OF own a(1,3,5)] entries_ownedD(3) [OF own a(2,4,6)] a(7) by simp
      then have "e (p - q) = e (r - q)" "e (p - q) \<noteq> 0" using 1 ent [OF lt(1), of u] ent [OF lt(2), of v] a(5) by auto
      with dist 1 show ?thesis by (metis add_diff_inverse_nat less_diff_conv2 linorder_not_le add.commute)
    next
      case 2
      with a old have "entry m u p \<noteq> 0" "entry m v r \<noteq> 0" "frame_of m u p = frame_of m v r"
        using ent [OF lt(1), of u] ent [OF lt(2), of v] by auto
      with oi a(1-4) show ?thesis unfolding owner_inj_def by blast
    next
      case 3
      with fresh [OF lt(1) a(5)] old [OF a(2,4,6)] a(7) show ?thesis by auto
    next
      case 4
      with fresh [OF lt(2) a(6)] old [OF a(1,3,5)] a(7) show ?thesis by auto
    qed
  qed
  have low: "code_ok ?m u = code_ok m u" for u
    using ent [of _ u] q by (auto simp: code_ok_def)
  have ker: "kernel_ok ?m = kernel_ok m"
    using ent q by (simp add: kernel_ok_def)
  have "u < 10 \<and> code_ok ?m u \<and> (\<forall>p. 264 \<le> p \<and> p < 264 + N' u \<longrightarrow> p < 1024 \<and> entry ?m u p \<noteq> 0)" if "u \<in> L'" for u
  proof (cases "u = t")
    case True
    with tt that t ent show ?thesis by (simp add: low)
  next
    case False
    with L' that have "u \<in> L" "N' u \<le> N u" by auto
    with inv have "u < 10 \<and> code_ok m u" "\<And>p. 264 \<le> p \<Longrightarrow> p < 264 + N' u \<Longrightarrow> p < 1024 \<and> entry m u p \<noteq> 0"
      by (auto simp: mem_inv_def)
    with False ent [of _ u] show ?thesis unfolding low by auto
  qed
  with inv pm code own inj ker show ?thesis unfolding mem_inv_def by simp
qed

text \<open>Entries below the user pages, of a table that no process uses; the kernel's pages keep theirs.\<close>

lemma mem_inv_low:
  assumes "mem_inv m L N" and "t \<notin> L" and "p + k \<le> 264"
    and "\<forall>i < k. p + i < 256 \<longrightarrow> e i = boot_entry (p + i)"
  shows "mem_inv (with_entries t p k e m) L N"
proof -
  let ?m = "with_entries t p k e m"
  have ent: "entry ?m u r = entry m u r" if "r < 1024" "u \<noteq> t \<or> 264 \<le> r" for u r
    using entry_with_entries [of p k r t e m u] assms(3) that by auto
  have "code_ok ?m u = code_ok m u" if "u \<noteq> t" for u using ent that by (auto simp: code_ok_def)
  moreover have up: "entry ?m u r = entry m u r" "frame_of ?m u r = frame_of m u r" if "user_page r" for u r
    using ent [of r u] that by (simp_all add: user_page_def frame_of_def)
  moreover have "kernel_ok ?m"
    unfolding kernel_ok_def
  proof (intro allI impI)
    fix u r :: nat assume "u < 10" "r < 256"
    moreover have "kernel_ok m" using assms(1) by (simp add: mem_inv_def)
    ultimately show "entry ?m u r = boot_entry r"
      using entry_with_entries [of p k r t e m u] assms(3) assms(4) [rule_format, of "r - p"] by (auto simp: kernel_ok_def)
  qed
  moreover have "entries_owned ?m = entries_owned m" using up by (simp add: entries_owned_def)
  moreover have "owner_inj ?m = owner_inj m" using up by (simp add: owner_inj_def)
  ultimately show ?thesis using assms(1,2) ent unfolding mem_inv_def with_entries_simps by metis
qed

section \<open>The break in pages\<close>

definition brk_ok :: "DWord \<Rightarrow> bool" where
  "brk_ok b \<longleftrightarrow> 0x11C000 \<le> unat b \<and> unat b < 2 ^ 31"

text \<open>Data and heap pages below the break, and the first page behind the one the break is in.\<close>

definition npages :: "DWord \<Rightarrow> nat" where
  "npages b = 20 + (unat b - 0x11C000 + 4095) div 4096"

definition top_page :: "DWord \<Rightarrow> nat" where
  "top_page b = 285 + (unat b - 0x11C000) div 4096"

lemma npages_top: "264 + npages b \<le> top_page b" "top_page b \<le> 265 + npages b"
  unfolding npages_def top_page_def by linarith+

lemma npages_mono: "unat a \<le> unat b \<Longrightarrow> npages a \<le> npages b" "unat a \<le> unat b \<Longrightarrow> top_page a \<le> top_page b"
  unfolding npages_def top_page_def by (auto intro!: div_le_mono)

lemma low_bits: "(b :: DWord) AND 0x0fff = 0 \<longleftrightarrow> unat b mod 4096 = 0"
proof -
  have "b AND 0x0fff = take_bit 12 b" by (simp add: take_bit_eq_mask mask_eq_exp_minus_1)
  moreover have "unat (take_bit 12 b) = unat b mod 4096" unfolding unsigned_take_bit_eq by (simp add: take_bit_eq_mod)
  ultimately show ?thesis by (metis unsigned_eq_0_iff)
qed

lemma sint_small: "unat (b :: DWord) < 2 ^ 31 \<Longrightarrow> sint b = int (unat b)"
proof -
  assume "unat b < 2 ^ 31"
  then have "signed_take_bit 31 (int (unat b)) = int (unat b)" by (intro signed_take_bit_int_eq_self) (simp_all del: of_nat_unat)
  then show ?thesis by (simp add: sint_uint)
qed

lemma ceil_page:
  fixes x :: nat
  assumes "0x11C000 \<le> x"
  shows "(x - 0x11C000 + 4095) div 4096 = (x - 0x11C000) div 4096 + (if x mod 4096 = 0 then 0 else 1)"
proof -
  obtain y where y: "x = 0x11C000 + y" using assms by (metis le_add_diff_inverse)
  have "x mod 4096 = y mod 4096"
    unfolding y using mod_mult_self2 [of y 4096 284] by (simp add: add.commute)
  moreover have "(y + 4095) div 4096 = y div 4096 + (if y mod 4096 = 0 then 0 else 1)"
  proof -
    define q r where "q = y div 4096" and "r = y mod 4096"
    have yq: "y = 4096 * q + r" "r < 4096" by (simp_all add: q_def r_def)
    show ?thesis
    proof (cases "r = 0")
      case True
      have "(4096 * q + 4095) div 4096 = q" by simp
      with True yq show ?thesis by (simp add: q_def [symmetric] r_def [symmetric])
    next
      case False
      have e: "4096 * q + r + 4095 = 4096 * (q + 1) + (r - 1)" using False by simp
      have "(4096 * (q + 1) + (r - 1)) div 4096 = q + 1" using yq(2) by (subst div_mult_self4) simp_all
      with False yq e show ?thesis by (simp add: q_def [symmetric] r_def [symmetric])
    qed
  qed
  ultimately show ?thesis by (simp add: y)
qed

lemma data_heap_pages_run:
  assumes "brk_ok b"
  shows "data_heap_pages b = int (npages b)"
proof -
  have s: "sint b = int (unat b)" "sint (0x11C000 :: DWord) = 0x11C000"
    using assms sint_small [of b] by (simp_all add: brk_ok_def del: of_nat_unat)
  have "(int (unat b) - 0x11C000) div 4096 = int ((unat b - 0x11C000) div 4096)"
    using assms by (simp add: brk_ok_def zdiv_int of_nat_diff)
  then show ?thesis
    unfolding data_heap_pages_def Let_def s low_bits npages_def
    using assms ceil_page [of "unat b"] by (simp add: brk_ok_def)
qed

lemma pag_heap_run:
  assumes "0x11C000 \<le> unat b"
  shows "unat (pag_heap b) = (unat b - 0x11C000) div 4096"
proof -
  have "(0x11C000 :: DWord) \<le> b" using assms by (simp add: word_le_nat_alt)
  then have "unat (b - 0x11C000) = unat b - 0x11C000" by (simp add: unat_sub)
  then show ?thesis by (simp add: pag_heap_def drop_bit_eq_div unat_div)
qed

lemma heap_page_run:
  assumes "brk_ok b"
  shows "heap_page b (inici_pag b) = word_of_nat (264 + npages b)"
proof -
  have p: "pag_heap b = word_of_nat ((unat b - 0x11C000) div 4096)"
  proof -
    have "(unat b - 0x11C000) div 4096 < 2 ^ 32"
      using unsigned_less [of b, where ?'a = nat] by (simp add: less_mult_imp_div_less)
    then have "unat (word_of_nat ((unat b - 0x11C000) div 4096) :: DWord) = (unat b - 0x11C000) div 4096"
      by (simp add: unat_of_nat take_bit_nat_eq_self)
    then show ?thesis using assms pag_heap_run [of b] by (simp add: word_unat_eq_iff brk_ok_def)
  qed
  show ?thesis
    unfolding heap_page_def inici_pag_def low_bits p npages_def
    using assms ceil_page [of "unat b"] by (simp add: brk_ok_def)
qed

text \<open>The page counts \<^verbatim>\<open>sys_sbrk\<close> computes when it grows and when it shrinks the heap.\<close>

lemma unat_sub_le: "b \<le> a \<Longrightarrow> unat (a - b) = unat a - unat (b :: DWord)"
  by (simp add: unat_sub)

lemma unat_Suc_small: "unat (x :: DWord) < 2 ^ 31 \<Longrightarrow> unat (x + 1) = Suc (unat x)"
  by (simp add: unat_word_ariths)

lemma grow_count:
  assumes "brk_ok b" and "sint n > 0" and "npages b \<le> 400"
  shows "unat (b + n) = unat b + unat n"
    and "sint (if inici_pag b then pag_heap (b + n) - pag_heap b + 1 else pag_heap (b + n) - pag_heap b)
      = int (top_page (b + n) - (264 + npages b))"
proof -
  have b: "0x11C000 \<le> unat b" "unat b < 2 ^ 31" using assms(1) by (simp_all add: brk_ok_def)
  have bl: "unat b < 0x11C000 + 4096 * 381" using assms(3) b(1) unfolding npages_def by linarith
  have n: "unat n < 2 ^ 31"
  proof (rule ccontr)
    assume "\<not> unat n < 2 ^ 31"
    then have "unat n div 2 ^ 31 = 1"
      using unsigned_less [of n, where ?'a = nat] by (intro div_nat_eqI) simp_all
    then have "bit (unat n) 31" by (simp add: bit_iff_odd)
    then have "sint n < 0" using bit_last_iff [of n] by (simp add: bit_unsigned_iff)
    with assms(2) show False by simp
  qed
  show un: "unat (b + n) = unat b + unat n"
    using bl n by (simp add: unat_word_ariths)
  have g: "0x11C000 \<le> unat (b + n)" using un b(1) by simp
  have le: "pag_heap b \<le> pag_heap (b + n)"
    unfolding word_le_nat_alt pag_heap_run [OF b(1)] pag_heap_run [OF g] un by (simp add: div_le_mono)
  have d: "unat (pag_heap (b + n) - pag_heap b) = (unat (b + n) - 0x11C000) div 4096 - (unat b - 0x11C000) div 4096"
    unfolding unat_sub_le [OF le] pag_heap_run [OF b(1)] pag_heap_run [OF g] ..
  have lt: "(unat (b + n) - 0x11C000) div 4096 < 2 ^ 20" using unsigned_less [of "b + n", where ?'a = nat] by simp
  define k where "k = (if inici_pag b then pag_heap (b + n) - pag_heap b + 1 else pag_heap (b + n) - pag_heap b)"
  have uk: "unat k = top_page (b + n) - (264 + npages b)"
  proof (cases "inici_pag b")
    case True
    have "unat (pag_heap (b + n) - pag_heap b) < 2 ^ 31" unfolding d using lt by simp
    then have "unat k = Suc (unat (pag_heap (b + n) - pag_heap b))"
      using True unat_Suc_small by (simp add: k_def)
    with True d le ceil_page [OF b(1)] show ?thesis
      unfolding top_page_def npages_def by (simp add: Suc_diff_le inici_pag_def low_bits word_le_nat_alt pag_heap_run [OF b(1)] pag_heap_run [OF g])
  next
    case False
    with d le ceil_page [OF b(1)] show ?thesis
      unfolding top_page_def npages_def k_def by (simp add: inici_pag_def low_bits word_le_nat_alt pag_heap_run [OF b(1)] pag_heap_run [OF g])
  qed
  have "unat k < 2 ^ 31" unfolding uk top_page_def using lt by simp
  then have sk: "sint k = int (unat k)" by (rule sint_small)
  then show "sint (if inici_pag b then pag_heap (b + n) - pag_heap b + 1 else pag_heap (b + n) - pag_heap b)
      = int (top_page (b + n) - (264 + npages b))" unfolding k_def [symmetric] uk .
qed

lemma vla_ok_nat: "vla_ok (int k) \<longleftrightarrow> k \<le> 768"
  by (simp add: vla_ok_def)

lemma grow_brk:
  assumes "brk_ok b" and "sint n > 0" and "npages b \<le> 400" and "top_page (b + n) - (264 + npages b) \<le> 768"
  shows "brk_ok (b + n)"
proof -
  have "top_page (b + n) \<le> 1032 + npages b" using assms(4) by simp
  then have "unat (b + n) < 2 ^ 31" using assms(3) unfolding top_page_def by simp
  then show ?thesis using grow_count(1) [OF assms(1-3)] assms(1) by (simp add: brk_ok_def)
qed

lemma shrink_pages:
  assumes "brk_ok b" and "sint n < 0" and "int (unat b) + sint n \<ge> 0"
    and "dest = (if b + n < L_HEAP_START then L_HEAP_START else b + n)" and "npages b \<le> 400"
  shows "brk_ok dest" and "unat dest \<le> unat b"
    and "unat dest = nat (max 0x11C000 (int (unat b) + sint n))"
    and "sint (if inici_pag dest then pag_heap b - pag_heap dest + 1 else pag_heap b - pag_heap dest)
      = int (top_page b - (264 + npages dest))"
proof -
  have b: "0x11C000 \<le> unat b" "unat b < 2 ^ 31" using assms(1) by (simp_all add: brk_ok_def)
  have bn: "int (unat (b + n)) = int (unat b) + sint n"
  proof -
    have "b + n = word_of_int (int (unat b) + sint n)" by simp
    moreover have "int (unat b) + sint n < 2 ^ 32" using b assms(2) by (simp del: of_nat_unat)
    moreover have "uint (word_of_int x :: DWord) = x" if "0 \<le> x" "x < 2 ^ 32" for x
      using that by (simp add: unsigned_of_int take_bit_eq_mod)
    ultimately have "uint (b + n) = int (unat b) + sint n" using assms(3) by metis
    then show ?thesis by simp
  qed
  have dest: "int (unat dest) = max 0x11C000 (int (unat b) + sint n)"
    using bn unfolding assms(4) by (auto simp: word_less_nat_alt max_def simp del: of_nat_unat)
  then show "unat dest = nat (max 0x11C000 (int (unat b) + sint n))" by linarith
  show db: "unat dest \<le> unat b" using dest b assms(2) by linarith
  have d0: "0x11C000 \<le> unat dest" using dest by linarith
  with db b show ok: "brk_ok dest" by (simp add: brk_ok_def)
  have le: "pag_heap dest \<le> pag_heap b"
    unfolding word_le_nat_alt pag_heap_run [OF b(1)] pag_heap_run [OF d0] using db by (simp add: div_le_mono)
  have d: "unat (pag_heap b - pag_heap dest) = (unat b - 0x11C000) div 4096 - (unat dest - 0x11C000) div 4096"
    unfolding unat_sub_le [OF le] pag_heap_run [OF b(1)] pag_heap_run [OF d0] ..
  have lt: "(unat b - 0x11C000) div 4096 < 2 ^ 20" using b by simp
  define k where "k = (if inici_pag dest then pag_heap b - pag_heap dest + 1 else pag_heap b - pag_heap dest)"
  have uk: "unat k = top_page b - (264 + npages dest)"
  proof (cases "inici_pag dest")
    case True
    have "unat (pag_heap b - pag_heap dest) < 2 ^ 31" unfolding d using lt by simp
    then have "unat k = Suc (unat (pag_heap b - pag_heap dest))" using True unat_Suc_small by (simp add: k_def)
    with True d le ceil_page [OF d0] show ?thesis
      unfolding top_page_def npages_def by (simp add: Suc_diff_le inici_pag_def low_bits word_le_nat_alt pag_heap_run [OF b(1)] pag_heap_run [OF d0])
  next
    case False
    with d le ceil_page [OF d0] show ?thesis
      unfolding top_page_def npages_def k_def by (simp add: inici_pag_def low_bits word_le_nat_alt pag_heap_run [OF b(1)] pag_heap_run [OF d0])
  qed
  have "unat k < 2 ^ 31" unfolding uk top_page_def using lt by simp
  then have "sint k = int (unat k)" by (rule sint_small)
  then show "sint (if inici_pag dest then pag_heap b - pag_heap dest + 1 else pag_heap b - pag_heap dest)
      = int (top_page b - (264 + npages dest))" unfolding k_def [symmetric] uk .
qed

section \<open>The invariant\<close>

definition procs :: "kernel \<Rightarrow> nat list \<Rightarrow> nat list \<Rightarrow> nat set" where
  "procs s R P = insert (cur s) (set R \<union> set P)"

definition kinv :: "kernel \<Rightarrow> nat list \<Rightarrow> nat list \<Rightarrow> nat list \<Rightarrow> bool" where
  "kinv s F R P \<longleftrightarrow> queues (lists s) F R P
     \<and> (\<exists>i. idle_task s = Some i \<and> mset (i # cur s # F @ R @ P) = mset [0..<10])
     \<and> (\<forall>t \<in> set R. nice (tasks s t) \<noteq> 0) \<and> (\<forall>t \<in> set P. nice (tasks s t) = 0)
     \<and> (\<forall>t \<in> set (R @ P). \<exists>k. kernel_esp (tasks s t) = Some (t, k))
     \<and> (\<forall>t \<in> procs s R P. dir_pages_baseAddr (tasks s t) = Some t \<and> brk_ok (brk (tasks s t)))
     \<and> cr3 (mem s) = Some (cur s)
     \<and> mem_inv (mem s) (procs s R P) (\<lambda>t. npages (brk (tasks s t)))
     \<and> cb_wf (keyboard_buffer s)"

text \<open>The fields the invariant does not mention.\<close>

lemma kinv_upd [simp]:
  "kinv (s\<lparr>scr := a\<rparr>) F R P = kinv s F R P" "kinv (s\<lparr>zeos_ticks := b\<rparr>) F R P = kinv s F R P"
  "kinv (s\<lparr>quantum_ticks := b\<rparr>) F R P = kinv s F R P" "kinv (s\<lparr>spf_ticks := b\<rparr>) F R P = kinv s F R P"
  "kinv (s\<lparr>spf_sem := b\<rparr>) F R P = kinv s F R P" "kinv (s\<lparr>spf_PID := b\<rparr>) F R P = kinv s F R P"
  "kinv (s\<lparr>gfps := b\<rparr>) F R P = kinv s F R P" "kinv (s\<lparr>spf_last_screen := b\<rparr>) F R P = kinv s F R P"
  "kinv (s\<lparr>nextPID := b\<rparr>) F R P = kinv s F R P" "kinv (s\<lparr>tsc_pos := k\<rparr>) F R P = kinv s F R P"
  by (simp_all add: kinv_def procs_def)

lemma kinv_tasks:
  assumes "kinv s F R P"
  obtains i where "idle_task s = Some i" "distinct (i # cur s # F @ R @ P)" "set (i # cur s # F @ R @ P) = {..<10}"
proof -
  from assms obtain i where i: "idle_task s = Some i" "mset (i # cur s # F @ R @ P) = mset [0..<10]"
    by (auto simp: kinv_def)
  have "distinct (i # cur s # F @ R @ P)" using mset_eq_imp_distinct_iff [OF i(2)] by (simp only: distinct_upt)
  moreover have "set (i # cur s # F @ R @ P) = {..<10}"
    using mset_eq_setD [OF i(2)] by (simp only: set_upt lessThan_atLeast0)
  ultimately show ?thesis using that i(1) by blast
qed

lemma kinvD:
  assumes "kinv s F R P"
  shows "queues (lists s) F R P" and "cur s < 10" and "cur s \<notin> set (F @ R @ P)"
    and "\<forall>t \<in> set (R @ P). \<exists>k. kernel_esp (tasks s t) = Some (t, k)"
    and "dir_pages_baseAddr (tasks s (cur s)) = Some (cur s)" and "brk_ok (brk (tasks s (cur s)))"
    and "cr3 (mem s) = Some (cur s)" and "mem_inv (mem s) (procs s R P) (\<lambda>t. npages (brk (tasks s t)))"
    and "cb_wf (keyboard_buffer s)" and "tables_ok (mem s)" and "frames_ok (phys_mem (mem s))"
  using assms kinv_tasks [OF assms] by (auto simp: kinv_def procs_def mem_inv_def)

lemma kinv_frame:
  assumes "kinv s F R P" and "lists s' = lists s" and "cur s' = cur s" and "idle_task s' = idle_task s"
    and "\<And>t. kernel_esp (tasks s' t) = kernel_esp (tasks s t)"
    and "\<And>t. dir_pages_baseAddr (tasks s' t) = dir_pages_baseAddr (tasks s t)"
    and "\<And>t. brk (tasks s' t) = brk (tasks s t)"
    and "\<And>t. t \<noteq> cur s \<Longrightarrow> nice (tasks s' t) = nice (tasks s t)"
    and "mem s' = (mem s)\<lparr>ram := r\<rparr>" and "cb_wf (keyboard_buffer s')"
  shows "kinv s' F R P"
proof -
  have "t \<noteq> cur s" if "t \<in> set R \<union> set P" for t using kinvD(3) [OF assms(1)] that by auto
  with assms(1) show ?thesis unfolding kinv_def procs_def assms(2-7,9) using assms(8,10) by auto
qed

lemma kinv_frame_same_mem:
  assumes "kinv s F R P" and "lists s' = lists s" and "cur s' = cur s" and "idle_task s' = idle_task s"
    and "\<And>t. kernel_esp (tasks s' t) = kernel_esp (tasks s t)"
    and "\<And>t. dir_pages_baseAddr (tasks s' t) = dir_pages_baseAddr (tasks s t)"
    and "\<And>t. brk (tasks s' t) = brk (tasks s t)"
    and "\<And>t. t \<noteq> cur s \<Longrightarrow> nice (tasks s' t) = nice (tasks s t)"
    and "mem s' = mem s" and "keyboard_buffer s' = keyboard_buffer s"
  shows "kinv s' F R P"
  using kinv_frame [OF assms(1-8), of "ram (mem s)"] assms(9,10) kinvD(9) [OF assms(1)] by simp

lemma kinv_kstat: "kinv s F R P \<Longrightarrow> kinv (kstat c st k s) F R P"
  by (rule kinv_frame_same_mem) simp_all

lemma kinv_user_to_sys:
  assumes "kinv s F R P"
  obtains s' where "user_to_sys s = Some s'" "kinv s' F R P"
  using assms kinv_kstat user_to_sys_run by blast

lemma kinv_sys_to_user_ready:
  assumes "kinv s F R P"
  obtains s' where "sys_to_user_ready s = Some s'" "kinv s' F R P"
  using assms kinv_kstat sys_to_user_ready_run by blast

lemma next_task_sets:
  "next_task nc R P = Some (t, R', P') \<Longrightarrow> set R' \<subseteq> set R \<and> set P' \<subseteq> set P"
  by (cases R; cases P) (auto simp: next_task_def split: if_splits)

text \<open>A context switch to a queued task, the current one having been put into a run queue.\<close>

lemma kinv_switch:
  assumes inv: "kinv s F R P" and rq: "requeue (nice (cur_task s)) (cur s) R P = (R2, P2)"
    and nt: "next_task (nice (cur_task s)) R2 P2 = Some (t, R', P')" and t: "t \<in> set (R @ P)"
    and h: "queues h F R' P'"
  shows "kinv (switch_to fp t k st1 st2 (s\<lparr>lists := h, quantum_ticks := q\<rparr>)) F R' P'"
proof -
  let ?s = "switch_to fp t k st1 st2 (s\<lparr>lists := h, quantum_ticks := q\<rparr>)"
  have ms: "mset (t # R' @ P') = mset (cur s # R @ P)"
    using next_task_mset [OF nt] rq by (auto simp: requeue_def split: if_splits)
  then have sets: "insert t (set R' \<union> set P') = insert (cur s) (set R \<union> set P)"
    using mset_eq_setD [OF ms] by simp
  obtain i where i: "idle_task s = Some i" "mset (i # cur s # F @ R @ P) = mset [0..<10]"
    using inv by (auto simp: kinv_def)
  have "mset (i # x # F @ A @ B) = add_mset i (mset F + mset (x # A @ B))" for x A B by simp
  then have m1: "mset (i # t # F @ R' @ P') = mset [0..<10]" using i(2) ms by metis
  have it: "idle_task ?s = Some i" using i(1) by simp
  have ct: "cur ?s = t" by simp
  have m: "\<exists>i. idle_task ?s = Some i \<and> mset (i # cur ?s # F @ R' @ P') = mset [0..<10]"
    unfolding ct using it m1 by blast
  have sub: "set R' \<subseteq> set R \<union> (if nice (cur_task s) \<noteq> 0 then {cur s} else {})"
    "set P' \<subseteq> set P \<union> (if nice (cur_task s) = 0 then {cur s} else {})"
    using next_task_sets [OF nt] rq by (auto simp: requeue_def split: if_splits)
  have nn: "\<forall>x \<in> set R. nice (tasks s x) \<noteq> 0" "\<forall>x \<in> set P. nice (tasks s x) = 0"
    "\<forall>x \<in> set (R @ P). \<exists>k. kernel_esp (tasks s x) = Some (x, k)"
    "\<forall>x \<in> procs s R P. dir_pages_baseAddr (tasks s x) = Some x \<and> brk_ok (brk (tasks s x))"
    using inv by (auto simp: kinv_def)
  have pr: "procs ?s R' P' = procs s R P" using sets by (simp add: procs_def)
  have R': "\<forall>x \<in> set R'. nice (tasks ?s x) \<noteq> 0" using sub(1) nn(1) by (auto simp: cur_task_def current_def split: if_splits)
  have P': "\<forall>x \<in> set P'. nice (tasks ?s x) = 0" using sub(2) nn(2) by (auto simp: cur_task_def current_def split: if_splits)
  have esp: "\<forall>x \<in> set (R' @ P'). \<exists>k. kernel_esp (tasks ?s x) = Some (x, k)"
    using sub nn(3) by (auto split: if_splits)
  have dt: "dir_pages_baseAddr (tasks s t) = Some t" using nn(4) t by (auto simp: procs_def)
  show ?thesis
    unfolding kinv_def pr
    using h m R' P' esp nn(4) kinvD(8,9) [OF inv] dt by simp
qed

lemma kinv_schedule:
  assumes inv: "kinv s F R P" and run: "schedule fp s = Some s'"
  shows "\<exists>R' P'. kinv s' F R' P'"
proof -
  obtain R2 P2 where rq: "requeue (nice (cur_task s)) (cur s) R P = (R2, P2)" by fastforce
  show ?thesis
  proof (rule schedule_cases [OF kinvD(1-4) [OF inv] rq, of fp])
    assume "schedule fp s = Some (s\<lparr>quantum_ticks := quantum_ticks s - 1\<rparr>)"
    then show ?thesis using run inv by auto
  next
    fix st assume "schedule fp s = Some (kstat (cur s) st (tsc_pos s) (s\<lparr>quantum_ticks := quantum (cur_task s)\<rparr>))"
    then have "s' = kstat (cur s) st (tsc_pos s) (s\<lparr>quantum_ticks := quantum (cur_task s)\<rparr>)" using run by simp
    moreover have "kinv (kstat (cur s) st (tsc_pos s) (s\<lparr>quantum_ticks := quantum (cur_task s)\<rparr>)) F R P"
      by (rule kinv_kstat) (simp add: inv)
    ultimately show ?thesis by blast
  next
    fix t k h st1 st2 R' P'
    assume "next_task (nice (cur_task s)) R2 P2 = Some (t, R', P')" "t \<in> set (R @ P)" "queues h F R' P'"
      "schedule fp s = Some (switch_to fp t k st1 st2 (s\<lparr>lists := h, quantum_ticks :=
        (if nice (cur_task s) = 0 then quantum (tasks s t) else quantum (tasks s t) * 5)\<rparr>))"
    with kinv_switch [OF inv rq] run show ?thesis by fastforce
  next
    assume "schedule fp s = None" then show ?thesis using run by simp
  qed
qed

lemma kinv_show_screen: "kinv s F R P \<Longrightarrow> show_screen a s = Some s' \<Longrightarrow> kinv s' F R P"
  by (auto simp: show_screen_def bind_eq_Some_conv)

lemma kinv_put_screen: "kinv s F R P \<Longrightarrow> sys_put_screen a s = Some (r, s') \<Longrightarrow> kinv s' F R P"
  by (auto simp: sys_put_screen_def show_screen_def bind_eq_Some_conv split: if_splits)

lemma kinv_schedule_fps:
  assumes "kinv s F R P" and "schedule_fps s = Some s'"
  shows "kinv s' F R P"
  using assms by (auto simp: schedule_fps_def Let_def dest!: kinv_put_screen [rotated] split: if_splits)

lemma kinv_clock_routine:
  assumes "kinv s F R P" and "clock_routine zsc fp s = Some s'"
  shows "\<exists>R' P'. kinv s' F R' P'"
proof -
  define s1 where "s1 = s\<lparr>scr := zsc (zeos_ticks s) (scr s), zeos_ticks := zeos_ticks s + 1\<rparr>"
  have "kinv s1 F R P" using assms(1) by (simp add: s1_def)
  moreover from assms(2) obtain s2 where "schedule_fps s1 = Some s2" "schedule fp s2 = Some s'"
    by (auto simp: clock_routine_def Let_def s1_def bind_eq_Some_conv)
  ultimately show ?thesis using kinv_schedule_fps kinv_schedule by blast
qed

section \<open>Bounds from ownership\<close>

lemma card_frame_pool: "card frame_pool = 383"
proof -
  have "frame_pool = (\<lambda>i. 2 * i) ` {129..<512}"
  proof (intro set_eqI iffI)
    fix f assume "f \<in> frame_pool"
    then have "f = 2 * (f div 2)" "f div 2 \<in> {129..<512}" by (auto simp: frame_pool_def)
    then show "f \<in> (\<lambda>i. 2 * i) ` {129..<512}" by blast
  qed (auto simp: frame_pool_def)
  moreover have "inj_on (\<lambda>i. 2 * i) {129..<512::nat}" by (simp add: inj_on_def)
  ultimately show ?thesis using card_image [of "(*) 2" "{129..<512::nat}"] by simp
qed

text \<open>The frames of a process; together with the free frames of the pool there are at most 383.\<close>

definition frames_of :: "mm \<Rightarrow> nat \<Rightarrow> nat \<Rightarrow> nat set" where
  "frames_of m t n = frame_of m t ` {264..<264 + n}"

lemma frames_of_process:
  assumes "mem_inv m L N" and "t \<in> L"
  shows "card (frames_of m t (N t)) = N t" and "frames_of m t (N t) \<subseteq> own_pool \<inter> used_frames (phys_mem m)"
    and "N t + card (frame_pool - used_frames (phys_mem m)) \<le> 383"
proof -
  from assms have t: "t < 10" and eo: "entries_owned m" and oi: "owner_inj m"
    and pg: "\<And>p. 264 \<le> p \<Longrightarrow> p < 264 + N t \<Longrightarrow> user_page p \<and> entry m t p \<noteq> 0"
    by (auto simp: mem_inv_def user_page_def)
  have "inj_on (frame_of m t) {264..<264 + N t}"
    using oi t pg unfolding inj_on_def owner_inj_def by auto
  then show c: "card (frames_of m t (N t)) = N t" by (simp add: frames_of_def card_image)
  show s: "frames_of m t (N t) \<subseteq> own_pool \<inter> used_frames (phys_mem m)"
    using entries_ownedD(1,2) [OF eo t] pg by (auto simp: frames_of_def)
  have fin: "finite frame_pool" by (simp add: frame_pool_def)
  have "card (frames_of m t (N t) \<union> (frame_pool - used_frames (phys_mem m)))
      = card (frames_of m t (N t)) + card (frame_pool - used_frames (phys_mem m))"
    using s fin by (intro card_Un_disjoint) (auto simp: frames_of_def)
  moreover have "card (frames_of m t (N t) \<union> (frame_pool - used_frames (phys_mem m))) \<le> 383"
    using s fin card_mono [of frame_pool "frames_of m t (N t) \<union> (frame_pool - used_frames (phys_mem m))"]
    by (auto simp: card_frame_pool own_pool_def)
  ultimately show "N t + card (frame_pool - used_frames (phys_mem m)) \<le> 383" using c by simp
qed

text \<open>The reservation loop in a state that keeps the invariant.\<close>

lemma reserve_frames:
  assumes "mem_inv m L N"
  obtains (got) gs pm where "alloc_loop mm_alloc_frame mm_free_frame n [] m = Some (Some (map int gs), m\<lparr>phys_mem := pm\<rparr>)"
      "length gs = n" "distinct gs" "set gs \<subseteq> own_pool - used_frames (phys_mem m)" "frames_ok pm"
      "used_frames pm = used_frames (phys_mem m) \<union> set gs" "n \<le> card (frame_pool - used_frames (phys_mem m))"
  | (full) pm where "alloc_loop mm_alloc_frame mm_free_frame n [] m = Some (None, m\<lparr>phys_mem := pm\<rparr>)"
      "frames_ok pm" "used_frames pm = used_frames (phys_mem m)" "card (frame_pool - used_frames (phys_mem m)) < n"
proof -
  from assms have ok: "frames_ok (phys_mem m)" and code: "code_frames \<subseteq> used_frames (phys_mem m)"
    by (simp_all add: mem_inv_def)
  from fa.alloc_loop_returns(1) [OF ok, of n] obtain r pm where
    run: "alloc_loop alloc_frame free_frame n [] (phys_mem m) = Some (r, pm)" by blast
  then have mm: "alloc_loop mm_alloc_frame mm_free_frame n [] m = Some (r, m\<lparr>phys_mem := pm\<rparr>)"
    by (simp add: alloc_loop_mm)
  show ?thesis
  proof (cases r)
    case None
    with fa.alloc_loop_failure [OF ok, of n pm] run mm show ?thesis by (intro full [of pm]) simp_all
  next
    case (Some frames)
    with fa.alloc_loop_success [OF ok, of n frames pm] run obtain gs where gs: "frames = map int gs" "length gs = n"
      "distinct gs" "set gs \<subseteq> frame_pool - used_frames (phys_mem m)"
      "used_frames pm = used_frames (phys_mem m) \<union> set gs" "frames_ok pm" by metis
    have "n \<le> card (frame_pool - used_frames (phys_mem m))"
      using gs(2-4) card_mono [of "frame_pool - used_frames (phys_mem m)" "set gs"]
      by (simp add: distinct_card frame_pool_def)
    moreover have "set gs \<subseteq> own_pool - used_frames (phys_mem m)" using gs(4) code by (auto simp: own_pool_def)
    ultimately show ?thesis using gs mm Some by (intro got) simp_all
  qed
qed

section \<open>sys_sbrk\<close>

lemma kinv_PT:
  assumes "kinv s F R P" and "t \<in> procs s R P"
  shows "get_PT s t = Some (row_PT (mem s) t)"
proof -
  from assms have "t < 10" "dir_pages_baseAddr (tasks s t) = Some t"
    by (auto simp: kinv_def mem_inv_def)
  with kinvD(10) [OF assms(1)] show ?thesis by (simp add: get_PT_def get_DIR_def dir_PT_run)
qed

lemma cur_procs [simp]: "cur s \<in> procs s R P"
  by (simp add: procs_def)

abbreviation (input) free_frames :: "kernel \<Rightarrow> nat" where
  "free_frames s \<equiv> card (frame_pool - used_frames (phys_mem (mem s)))"

text \<open>What \<^verbatim>\<open>sys_sbrk\<close> can do; \<open>0 \<le> int (unat b) + sint n\<close> excludes a break below address 0.\<close>

lemma sys_sbrk_outcome:
  assumes inv: "kinv s F R P"
    and b: "b = brk (tasks s (cur s))" and nw: "sint n < 0 \<Longrightarrow> 0 \<le> int (unat b) + sint n"
  obtains (deny) "b = L_HEAP_START" "sint n < 0" "sys_sbrk n s = Some (-1, s)"
  | (query) "sint n = 0" "sys_sbrk n s = Some (b, s)"
  | (undef) "sint n > 0" "768 < top_page (b + n) - (264 + npages b)" "sys_sbrk n s = None"
  | (nomem) pm where "sint n > 0" "brk_ok (b + n)" "frames_ok pm" "used_frames pm = used_frames (phys_mem (mem s))"
      "top_page (b + n) - (264 + npages b) \<le> 768"
      "free_frames s < top_page (b + n) - (264 + npages b)"
      "sys_sbrk n s = Some (-1, s\<lparr>mem := (mem s)\<lparr>phys_mem := pm\<rparr>\<rparr>)"
  | (grow) gs pm where "sint n > 0" "brk_ok (b + n)" "unat (b + n) = unat b + unat n"
      "length gs = top_page (b + n) - (264 + npages b)" "distinct gs"
      "set gs \<subseteq> own_pool - used_frames (phys_mem (mem s))" "frames_ok pm"
      "used_frames pm = used_frames (phys_mem (mem s)) \<union> set gs" "264 + npages b + length gs \<le> 1024"
      "sys_sbrk n s = Some (b, upd_task (cur s) (\<lambda>p. p\<lparr>brk := b + n\<rparr>) (s\<lparr>mem := with_entries (cur s) (264 + npages b) (length gs)
        (\<lambda>i. user_pte (word_of_int (map int gs ! i))) ((mem s)\<lparr>phys_mem := pm\<rparr>)\<rparr>))"
  | (shrink) dest pm where "sint n < 0" "brk_ok dest" "unat dest \<le> unat b"
      "unat dest = nat (max 0x11C000 (int (unat b) + sint n))"
      "frames_ok pm"
      "used_frames pm = used_frames (phys_mem (mem s))
        - {frame_of (mem s) (cur s) p | p. 264 + npages dest \<le> p \<and> p < top_page b \<and> entry (mem s) (cur s) p \<noteq> 0}"
      "top_page b \<le> 1024"
      "sys_sbrk n s = Some (b, upd_task (cur s) (\<lambda>p. p\<lparr>brk := dest\<rparr>) (s\<lparr>mem := with_entries (cur s) (264 + npages dest)
        (top_page b - (264 + npages dest)) (\<lambda>_. 0) ((mem s)\<lparr>phys_mem := pm\<rparr>)\<rparr>))"
proof -
  let ?c = "cur s" and ?m = "mem s"
  have ok: "brk_ok b" and mi: "mem_inv ?m (procs s R P) (\<lambda>t. npages (brk (tasks s t)))" and c10: "?c < 10"
    using kinvD [OF inv] b by simp_all
  have pt: "get_PT s ?c = Some (row_PT ?m ?c)" using kinv_PT [OF inv cur_procs] .
  note bd = frames_of_process(3) [OF mi cur_procs, folded b]
  then have np: "npages b \<le> 400" by simp
  consider "sint n > 0" | "sint n = 0" | "sint n < 0" by linarith
  then show ?thesis
  proof cases
    case 1
    let ?k = "if inici_pag b then pag_heap (b + n) - pag_heap b + 1 else pag_heap (b + n) - pag_heap b"
    let ?n = "top_page (b + n) - (264 + npages b)"
    note g = grow_count [OF ok 1 np]
    have nk: "nat (sint ?k) = ?n" unfolding g(2) by simp
    show ?thesis
    proof (cases "?n \<le> 768")
      case False
      then have "\<not> vla_ok (sint ?k)" unfolding g(2) vla_ok_nat .
      then have "sys_sbrk n s = None" using 1 pt by (auto simp: sys_sbrk_def current_def Let_def b [symmetric])
      with 1 False show ?thesis by (intro undef) simp_all
    next
      case True
      then have vla: "vla_ok (sint ?k)" unfolding g(2) vla_ok_nat .
      note gb = grow_brk [OF ok 1 np True]
      have r1: "sys_sbrk n s = do {
          (fs, m) \<leftarrow> alloc_loop mm_alloc_frame mm_free_frame ?n [] ?m;
          let s = s\<lparr>mem := m\<rparr>;
          case fs of
             None \<Rightarrow> Some (-1, s)
           | Some frames \<Rightarrow> do {
               s \<leftarrow> with_mem (map_frames (row_PT ?m ?c) (word_of_nat (264 + npages b)) frames) s;
               Some (b, upd_task ?c (\<lambda>p. p\<lparr>brk := b + n\<rparr>) s) } }"
        using 1 pt vla unfolding sys_sbrk_def current_def b [symmetric] Let_def nk heap_page_run [OF ok] by simp
      show ?thesis
      proof (rule reserve_frames [OF mi, of ?n])
        fix pm assume f: "alloc_loop mm_alloc_frame mm_free_frame ?n [] ?m = Some (None, ?m\<lparr>phys_mem := pm\<rparr>)"
          "frames_ok pm" "used_frames pm = used_frames (phys_mem ?m)" "free_frames s < ?n"
        with r1 show ?thesis using 1 g gb True by (intro nomem [of pm]) auto
      next
        fix gs pm assume f: "alloc_loop mm_alloc_frame mm_free_frame ?n [] ?m = Some (Some (map int gs), ?m\<lparr>phys_mem := pm\<rparr>)"
          "length gs = ?n" "distinct gs" "set gs \<subseteq> own_pool - used_frames (phys_mem ?m)" "frames_ok pm"
          "used_frames pm = used_frames (phys_mem ?m) \<union> set gs" "?n \<le> free_frames s"
        have le: "264 + npages b + length gs \<le> 1024" using bd f(2,7) by simp
        have "map_frames (row_PT (?m\<lparr>phys_mem := pm\<rparr>) ?c) (word_of_nat (264 + npages b)) (map int gs) (?m\<lparr>phys_mem := pm\<rparr>)
            = Some (with_entries ?c (264 + npages b) (length (map int gs)) (\<lambda>i. user_pte (word_of_int (map int gs ! i))) (?m\<lparr>phys_mem := pm\<rparr>))"
          using le by (intro map_frames_run [OF c10]) simp
        with r1 f(1) have "sys_sbrk n s = Some (b, upd_task ?c (\<lambda>p. p\<lparr>brk := b + n\<rparr>) (s\<lparr>mem := with_entries ?c (264 + npages b) (length gs)
            (\<lambda>i. user_pte (word_of_int (map int gs ! i))) (?m\<lparr>phys_mem := pm\<rparr>)\<rparr>))"
          by (auto simp: with_mem_def)
        with 1 g(1) gb f le show ?thesis by (intro grow [of gs pm])
      qed
    qed
  next
    case 2
    have "upd_task ?c (\<lambda>p. p\<lparr>brk := b\<rparr>) s = s" by (simp add: upd_task_def b)
    with 2 pt show ?thesis by (intro query) (auto simp: sys_sbrk_def current_def Let_def b [symmetric])
  next
    case 3
    show ?thesis
    proof (cases "b = L_HEAP_START")
      case True
      with 3 pt show ?thesis by (intro deny) (auto simp: sys_sbrk_def current_def Let_def b [symmetric])
    next
      case False
      define dest where "dest = (if b + n < L_HEAP_START then L_HEAP_START else b + n)"
      note g = shrink_pages [OF ok 3 nw [OF 3] dest_def np]
      let ?q = "264 + npages dest" and ?k = "top_page b - (264 + npages dest)"
      have tb: "top_page b \<le> 1024" using npages_top(2) [of b] bd by simp
      have qk: "?q + ?k \<le> 1024" using tb npages_mono(1) [OF g(2)] npages_top(1) [of b] by linarith
      have nk: "nat (sint (if inici_pag dest then pag_heap b - pag_heap dest + 1 else pag_heap b - pag_heap dest)) = ?k"
        unfolding g(4) by simp
      have c0: "\<not> (b = L_HEAP_START \<and> sint n < 0)" "\<not> sint n > 0" using False 3 by simp_all
      have r1: "sys_sbrk n s = do {
          s \<leftarrow> with_mem (unmap_pages (row_PT ?m ?c) (word_of_nat ?q) ?k) s;
          Some (b, upd_task ?c (\<lambda>p. p\<lparr>brk := dest\<rparr>) s) }"
        using c0 3 pt unfolding sys_sbrk_def current_def b [symmetric] Let_def dest_def [symmetric] nk heap_page_run [OF g(1)]
        by simp
      let ?g = "\<lambda>i. if entry ?m ?c (?q + i) = 0 then 0 else frame_of ?m ?c (?q + i)"
      from mi have eo: "entries_owned ?m" by (simp add: mem_inv_def)
      have up: "user_page (?q + i)" if "i < ?k" for i using that qk by (simp add: user_page_def)
      have gi: "\<forall>i < ?k. pte_pbase (entry ?m ?c (?q + i)) = word_of_nat (?g i) \<and> (?g i = 0 \<or> ?g i \<in> frame_pool)"
        using entries_ownedD(1,5) [OF eo c10 up] own_pool_bounds by auto
      from unmap_pages_run [OF c10 qk kinvD(11) [OF inv] gi] obtain pm where pm:
        "unmap_pages (row_PT ?m ?c) (word_of_nat ?q) ?k ?m = Some (with_entries ?c ?q ?k (\<lambda>_. 0) (?m\<lparr>phys_mem := pm\<rparr>))"
        "frames_ok pm" "used_frames pm = used_frames (phys_mem ?m) - {?g i | i. i < ?k \<and> ?g i \<noteq> 0}" by blast
      have "{?g i | i. i < ?k \<and> ?g i \<noteq> 0} = {frame_of ?m ?c p | p. ?q \<le> p \<and> p < top_page b \<and> entry ?m ?c p \<noteq> 0}"
      proof (intro set_eqI iffI)
        fix f assume "f \<in> {?g i | i. i < ?k \<and> ?g i \<noteq> 0}"
        then show "f \<in> {frame_of ?m ?c p | p. ?q \<le> p \<and> p < top_page b \<and> entry ?m ?c p \<noteq> 0}"
          by (auto split: if_splits)
      next
        fix f assume "f \<in> {frame_of ?m ?c p | p. ?q \<le> p \<and> p < top_page b \<and> entry ?m ?c p \<noteq> 0}"
        then obtain p where p: "f = frame_of ?m ?c p" "?q \<le> p" "p < top_page b" "entry ?m ?c p \<noteq> 0" by blast
        then have "p - ?q < ?k" "?q + (p - ?q) = p" by auto
        moreover have "f \<noteq> 0" using entries_ownedD(1) [OF eo c10 _ p(4)] p own_pool_bounds [of f] tb
          by (auto simp: user_page_def)
        ultimately show "f \<in> {?g i | i. i < ?k \<and> ?g i \<noteq> 0}" using p(1,4) by (intro CollectI exI [of _ "p - ?q"]) simp
      qed
      with pm(3) have u: "used_frames pm = used_frames (phys_mem ?m)
        - {frame_of ?m ?c p | p. ?q \<le> p \<and> p < top_page b \<and> entry ?m ?c p \<noteq> 0}" by simp
      from r1 pm(1) have "sys_sbrk n s = Some (b, upd_task ?c (\<lambda>p. p\<lparr>brk := dest\<rparr>) (s\<lparr>mem := with_entries ?c ?q ?k (\<lambda>_. 0) (?m\<lparr>phys_mem := pm\<rparr>)\<rparr>))"
        by (auto simp: with_mem_def)
      with 3 g(1-3) pm(2) u tb show ?thesis by (intro shrink [of dest pm])
    qed
  qed
qed

lemma sys_sbrk_cases:
  assumes inv: "kinv s F R P" and run: "sys_sbrk n s = Some (r, s')"
    and b: "b = brk (tasks s (cur s))" and nw: "sint n < 0 \<Longrightarrow> 0 \<le> int (unat b) + sint n"
  obtains (deny) "b = L_HEAP_START" "sint n < 0" "r = -1" "s' = s"
  | (query) "sint n = 0" "r = b" "s' = s"
  | (nomem) pm where "sint n > 0" "brk_ok (b + n)" "frames_ok pm" "used_frames pm = used_frames (phys_mem (mem s))"
      "free_frames s < top_page (b + n) - (264 + npages b)"
      "r = -1" "s' = s\<lparr>mem := (mem s)\<lparr>phys_mem := pm\<rparr>\<rparr>"
  | (grow) gs pm where "sint n > 0" "brk_ok (b + n)" "unat (b + n) = unat b + unat n"
      "length gs = top_page (b + n) - (264 + npages b)" "distinct gs"
      "set gs \<subseteq> own_pool - used_frames (phys_mem (mem s))" "frames_ok pm"
      "used_frames pm = used_frames (phys_mem (mem s)) \<union> set gs" "264 + npages b + length gs \<le> 1024"
      "r = b" "s' = upd_task (cur s) (\<lambda>p. p\<lparr>brk := b + n\<rparr>) (s\<lparr>mem := with_entries (cur s) (264 + npages b) (length gs)
        (\<lambda>i. user_pte (word_of_int (map int gs ! i))) ((mem s)\<lparr>phys_mem := pm\<rparr>)\<rparr>)"
  | (shrink) dest pm where "sint n < 0" "brk_ok dest" "unat dest \<le> unat b"
      "unat dest = nat (max 0x11C000 (int (unat b) + sint n))"
      "r = b" "frames_ok pm"
      "used_frames pm = used_frames (phys_mem (mem s))
        - {frame_of (mem s) (cur s) p | p. 264 + npages dest \<le> p \<and> p < top_page b \<and> entry (mem s) (cur s) p \<noteq> 0}"
      "top_page b \<le> 1024"
      "s' = upd_task (cur s) (\<lambda>p. p\<lparr>brk := dest\<rparr>) (s\<lparr>mem := with_entries (cur s) (264 + npages dest)
        (top_page b - (264 + npages dest)) (\<lambda>_. 0) ((mem s)\<lparr>phys_mem := pm\<rparr>)\<rparr>)"
proof (rule sys_sbrk_outcome [OF inv b])
  show "sint n < 0 \<Longrightarrow> 0 \<le> int (unat b) + sint n" by (rule nw)
next
  assume "b = L_HEAP_START" "sint n < 0" "sys_sbrk n s = Some (-1, s)"
  with run show thesis by (intro deny) simp_all
next
  assume "sint n = 0" "sys_sbrk n s = Some (b, s)"
  with run show thesis by (intro query) simp_all
next
  assume "sys_sbrk n s = None"
  with run show thesis by simp
next
  fix pm assume a: "sint n > 0" "brk_ok (b + n)" "frames_ok pm" "used_frames pm = used_frames (phys_mem (mem s))"
    "free_frames s < top_page (b + n) - (264 + npages b)"
    and e: "sys_sbrk n s = Some (-1, s\<lparr>mem := (mem s)\<lparr>phys_mem := pm\<rparr>\<rparr>)"
  from run e have "r = -1" "s' = s\<lparr>mem := (mem s)\<lparr>phys_mem := pm\<rparr>\<rparr>" by simp_all
  with a show thesis by (rule nomem)
next
  fix gs pm assume a: "sint n > 0" "brk_ok (b + n)" "unat (b + n) = unat b + unat n"
    "length gs = top_page (b + n) - (264 + npages b)" "distinct gs"
    "set gs \<subseteq> own_pool - used_frames (phys_mem (mem s))" "frames_ok pm"
    "used_frames pm = used_frames (phys_mem (mem s)) \<union> set gs" "264 + npages b + length gs \<le> 1024"
    and e: "sys_sbrk n s = Some (b, upd_task (cur s) (\<lambda>p. p\<lparr>brk := b + n\<rparr>) (s\<lparr>mem := with_entries (cur s) (264 + npages b)
      (length gs) (\<lambda>i. user_pte (word_of_int (map int gs ! i))) ((mem s)\<lparr>phys_mem := pm\<rparr>)\<rparr>))"
  note e' = trans [OF run [symmetric] e, unfolded option.inject prod.inject]
  from a conjunct1 [OF e'] conjunct2 [OF e'] show thesis by (rule grow)
next
  fix dest pm assume a: "sint n < 0" "brk_ok dest" "unat dest \<le> unat b"
    "unat dest = nat (max 0x11C000 (int (unat b) + sint n))"
    and p: "frames_ok pm"
    "used_frames pm = used_frames (phys_mem (mem s))
      - {frame_of (mem s) (cur s) p | p. 264 + npages dest \<le> p \<and> p < top_page b \<and> entry (mem s) (cur s) p \<noteq> 0}"
    "top_page b \<le> 1024"
    and e: "sys_sbrk n s = Some (b, upd_task (cur s) (\<lambda>p. p\<lparr>brk := dest\<rparr>) (s\<lparr>mem := with_entries (cur s) (264 + npages dest)
      (top_page b - (264 + npages dest)) (\<lambda>_. 0) ((mem s)\<lparr>phys_mem := pm\<rparr>)\<rparr>))"
  note e' = trans [OF run [symmetric] e, unfolded option.inject prod.inject]
  from a conjunct1 [OF e'] p conjunct2 [OF e'] show thesis by (rule shrink)
qed

lemma owner_injD:
  "owner_inj m \<Longrightarrow> t < 10 \<Longrightarrow> u < 10 \<Longrightarrow> user_page p \<Longrightarrow> user_page q \<Longrightarrow> entry m t p \<noteq> 0 \<Longrightarrow>
    entry m u q \<noteq> 0 \<Longrightarrow> frame_of m t p = frame_of m u q \<Longrightarrow> t = u \<and> p = q"
  by (simp add: owner_inj_def)

lemma kinv_ram:
  "kinv s F R P \<Longrightarrow> kinv (s\<lparr>mem := (mem s)\<lparr>ram := r\<rparr>\<rparr>) F R P"
  by (rule kinv_frame [of s _ _ _ _ r]) (simp_all add: kinvD(9))

text \<open>Changing the memory and the break of the running process.\<close>

lemma kinv_brk:
  assumes inv: "kinv s F R P" and ok: "brk_ok b'" and c3: "cr3 m' = cr3 (mem s)"
    and mi: "mem_inv m' (procs s R P) (\<lambda>t. npages (if t = cur s then b' else brk (tasks s t)))"
  shows "kinv (upd_task (cur s) (\<lambda>p. p\<lparr>brk := b'\<rparr>) (s\<lparr>mem := m'\<rparr>)) F R P"
proof -
  let ?s = "upd_task (cur s) (\<lambda>p. p\<lparr>brk := b'\<rparr>) (s\<lparr>mem := m'\<rparr>)"
  have t: "nice (tasks ?s t) = nice (tasks s t)" "kernel_esp (tasks ?s t) = kernel_esp (tasks s t)"
    "dir_pages_baseAddr (tasks ?s t) = dir_pages_baseAddr (tasks s t)"
    "brk (tasks ?s t) = (if t = cur s then b' else brk (tasks s t))" for t
    by (simp_all add: upd_task_def)
  have f: "lists ?s = lists s" "idle_task ?s = idle_task s" "cur ?s = cur s" "mem ?s = m'" "procs ?s R P = procs s R P"
    "keyboard_buffer ?s = keyboard_buffer s" by (simp_all add: upd_task_def procs_def)
  show ?thesis using inv ok c3 mi unfolding kinv_def t f by auto
qed

lemma kinv_phys_mem:
  assumes inv: "kinv s F R P" and pm: "frames_ok pm" "used_frames pm = used_frames (phys_mem (mem s))"
  shows "kinv (s\<lparr>mem := (mem s)\<lparr>phys_mem := pm\<rparr>\<rparr>) F R P"
proof -
  have "mem_inv ((mem s)\<lparr>phys_mem := pm\<rparr>) L N = mem_inv (mem s) L N" for L N
    using pm kinvD(11) [OF inv] by (simp add: mem_inv_def entries_owned_def owner_inj_def kernel_ok_def code_ok_def frame_of_def)
  with inv show ?thesis by (simp add: kinv_def procs_def)
qed

lemma kinv_sbrk:
  assumes inv: "kinv s F R P" and run: "sys_sbrk n s = Some (r, s')"
    and nw: "sint n < 0 \<Longrightarrow> 0 \<le> int (unat (brk (tasks s (cur s)))) + sint n"
  shows "kinv s' F R P"
proof -
  let ?c = "cur s" and ?m = "mem s" and ?b = "brk (tasks s (cur s))"
  have mi: "mem_inv ?m (procs s R P) (\<lambda>t. npages (brk (tasks s t)))" and c10: "?c < 10"
    using kinvD [OF inv] by simp_all
  from mi have code: "code_frames \<subseteq> used_frames (phys_mem ?m)" and eo: "entries_owned ?m" and oi: "owner_inj ?m"
    and low: "code_ok ?m ?c"
    and pg: "\<And>p. 264 \<le> p \<Longrightarrow> p < 264 + npages ?b \<Longrightarrow> p < 1024 \<and> entry ?m ?c p \<noteq> 0"
    using cur_procs [of s R P] unfolding mem_inv_def by blast+
  show ?thesis
  proof (rule sys_sbrk_cases [OF inv run refl nw])
    assume "s' = s" then show ?thesis using inv by simp
  next
    assume "s' = s" then show ?thesis using inv by simp
  next
    fix pm assume "frames_ok pm" "used_frames pm = used_frames (phys_mem ?m)" "s' = s\<lparr>mem := ?m\<lparr>phys_mem := pm\<rparr>\<rparr>"
    then show ?thesis using kinv_phys_mem [OF inv] by simp
  next
    fix gs pm assume a: "sint n > 0" "brk_ok (?b + n)" "unat (?b + n) = unat ?b + unat n"
      "length gs = top_page (?b + n) - (264 + npages ?b)" "distinct gs"
      "set gs \<subseteq> own_pool - used_frames (phys_mem ?m)" "frames_ok pm"
      "used_frames pm = used_frames (phys_mem ?m) \<union> set gs" "264 + npages ?b + length gs \<le> 1024"
      "s' = upd_task ?c (\<lambda>p. p\<lparr>brk := ?b + n\<rparr>) (s\<lparr>mem := with_entries ?c (264 + npages ?b) (length gs)
        (\<lambda>i. user_pte (word_of_int (map int gs ! i))) (?m\<lparr>phys_mem := pm\<rparr>)\<rparr>)"
    let ?e = "\<lambda>i. user_pte (word_of_int (map int gs ! i))"
    have m: "gs ! i \<in> own_pool - used_frames (phys_mem ?m)" if "i < length gs" for i
      using a(6) nth_mem [OF that] by blast
    have e: "?e i = user_pte (word_of_nat (gs ! i))" "gs ! i \<in> own_pool" "gs ! i \<in> used_frames pm"
      "gs ! i \<notin> used_frames (phys_mem ?m)" "?e i \<noteq> 0" if "i < length gs" for i
      using that a(8) m [OF that] own_pool_bounds [of "gs ! i"] user_pte_frame(2) [of "gs ! i"] by auto
    have "mem_inv (with_entries ?c (264 + npages ?b) (length gs) ?e (?m\<lparr>phys_mem := pm\<rparr>)) (procs s R P)
       (\<lambda>t. npages (if t = ?c then ?b + n else brk (tasks s t)))"
    proof (rule mem_inv_with_entries [OF mi c10 _ a(9,7)])
      show "\<forall>i < length gs. ?e i = 0 \<or> (\<exists>f. f \<in> own_pool \<and> f \<in> used_frames pm \<and> f \<notin> used_frames (phys_mem ?m)
          \<and> ?e i = user_pte (word_of_nat f))" using e by blast
      show "\<forall>i < length gs. \<forall>j < length gs. ?e i \<noteq> 0 \<longrightarrow> ?e i = ?e j \<longrightarrow> i = j"
      proof (intro allI impI)
        fix i j assume ij: "i < length gs" "j < length gs" "?e i = ?e j"
        then have "unat (pte_pbase (user_pte (word_of_nat (gs ! i)))) = unat (pte_pbase (user_pte (word_of_nat (gs ! j))))"
          using e(1) by metis
        then have "gs ! i = gs ! j" using user_pte_frame(1) own_pool_bounds [OF e(2) [OF ij(1)]] own_pool_bounds [OF e(2) [OF ij(2)]] by metis
        with a(5) ij show "i = j" by (simp add: nth_eq_iff_index_eq)
      qed
      show "\<forall>u < 10. \<forall>p. user_page p \<longrightarrow> entry ?m u p \<noteq> 0 \<longrightarrow>
          \<not> (u = ?c \<and> 264 + npages ?b \<le> p \<and> p < 264 + npages ?b + length gs) \<longrightarrow> frame_of ?m u p \<in> used_frames pm"
        using entries_ownedD(2) [OF eo] a(8) by blast
      show "code_frames \<subseteq> used_frames pm" using code a(8) by blast
      have np: "264 + npages (?b + n) \<le> 264 + npages ?b + length gs"
        using a(4) npages_top(1) [of "?b + n"] by simp
      show "code_ok ?m ?c \<and> (\<forall>p. 264 \<le> p \<and> p < 264 + npages (if ?c = ?c then ?b + n else brk (tasks s ?c)) \<longrightarrow> p < 1024 \<and>
          (if 264 + npages ?b \<le> p \<and> p < 264 + npages ?b + length gs then ?e (p - (264 + npages ?b)) \<noteq> 0 else entry ?m ?c p \<noteq> 0))"
        using low pg np a(9) e(5) by auto
    qed simp_all
    then show ?thesis unfolding a(10) by (intro kinv_brk [OF inv a(2)]) simp_all
  next
    fix dest pm assume a: "brk_ok dest" "unat dest \<le> unat ?b" "frames_ok pm"
      "used_frames pm = used_frames (phys_mem ?m)
        - {frame_of ?m ?c p | p. 264 + npages dest \<le> p \<and> p < top_page ?b \<and> entry ?m ?c p \<noteq> 0}"
      "top_page ?b \<le> 1024"
      "s' = upd_task ?c (\<lambda>p. p\<lparr>brk := dest\<rparr>) (s\<lparr>mem := with_entries ?c (264 + npages dest)
        (top_page ?b - (264 + npages dest)) (\<lambda>_. 0) (?m\<lparr>phys_mem := pm\<rparr>)\<rparr>)"
    let ?q = "264 + npages dest" and ?k = "top_page ?b - (264 + npages dest)"
    have le: "npages dest \<le> npages ?b" "?q \<le> top_page ?b"
      using npages_mono(1) [OF a(2)] npages_top(1) [of ?b] by simp_all
    have "mem_inv (with_entries ?c ?q ?k (\<lambda>_. 0) (?m\<lparr>phys_mem := pm\<rparr>)) (procs s R P)
       (\<lambda>t. npages (if t = ?c then dest else brk (tasks s t)))"
    proof (rule mem_inv_with_entries [OF mi c10 _ _ a(3)])
      show "?q + ?k \<le> 1024" using le a(5) by simp
      show "\<forall>u < 10. \<forall>p. user_page p \<longrightarrow> entry ?m u p \<noteq> 0 \<longrightarrow> \<not> (u = ?c \<and> ?q \<le> p \<and> p < ?q + ?k) \<longrightarrow>
          frame_of ?m u p \<in> used_frames pm"
      proof (intro allI impI)
        fix u p assume u: "u < 10" "user_page p" "entry ?m u p \<noteq> 0" "\<not> (u = ?c \<and> ?q \<le> p \<and> p < ?q + ?k)"
        have "frame_of ?m u p \<noteq> frame_of ?m ?c p'" if "?q \<le> p'" "p' < top_page ?b" "entry ?m ?c p' \<noteq> 0" for p'
        proof
          assume "frame_of ?m u p = frame_of ?m ?c p'"
          moreover have "user_page p'" using that a(5) by (simp add: user_page_def)
          ultimately have "u = ?c \<and> p = p'" using owner_injD [OF oi u(1) c10 u(2) _ u(3) that(3)] by blast
          with u(4) that le show False by simp
        qed
        with entries_ownedD(2) [OF eo u(1-3)] show "frame_of ?m u p \<in> used_frames pm" unfolding a(4) by blast
      qed
      show "code_frames \<subseteq> used_frames pm"
        using code entries_ownedD(1) [OF eo c10] own_pool_bounds a(5) unfolding a(4) user_page_def by fastforce
      show "code_ok ?m ?c \<and> (\<forall>p. 264 \<le> p \<and> p < 264 + npages (if ?c = ?c then dest else brk (tasks s ?c)) \<longrightarrow> p < 1024 \<and>
          (if ?q \<le> p \<and> p < ?q + ?k then (0::DWord) \<noteq> 0 else entry ?m ?c p \<noteq> 0))"
        using low pg le(1) by auto
    qed simp_all
    then show ?thesis unfolding a(6) by (intro kinv_brk [OF inv a(1)]) simp_all
  qed simp_all
qed

end
