(* ===== verification/Zeos_Calls.thy ===== *)
theory Zeos_Calls
  imports Zeos_Inv
begin

text \<open>
  Each system call, interrupt and store of a process keeps the invariant of the kernel. For \<^verbatim>\<open>sys_fork\<close>
  and \<^verbatim>\<open>sys_exit\<close> a case rule gives the outcome: which frames are taken or released, what the
  tables hold, which queue the process is in.
\<close>

section \<open>The simple calls and the keyboard\<close>

lemma kinv_set_fps:
  assumes "kinv s F R P" and "sys_set_fps fps s = Some (r, s')"
  shows "kinv s' F R P"
  using assms(2) by (auto simp: sys_set_fps_def Let_def upd_task_def current_def split: if_splits
    intro!: kinv_frame_same_mem [OF assms(1)])

lemma kinv_fflush:
  assumes inv: "kinv s F R P" and run: "sys_fflush s = Some (r, s')"
  shows "kinv s' F R P"
proof -
  have "length (cb_buffer (keyboard_buffer s)) = MAX_VAL" using kinvD(9) [OF inv] by (simp add: cb_wf_def)
  from cb_rep_init [OF this] obtain b where b: "circular_init (keyboard_buffer s) = Some b" "cb_rep b []" by blast
  have "cb_wf b" using cb_rep_slots [OF b(2)] by (simp add: cb_slots_def)
  with run b(1) show ?thesis
    by (auto simp: sys_fflush_def intro!: kinv_frame [OF inv, of _ "ram (mem s)"])
qed

lemma kinv_store_user:
  assumes "kinv s F R P" and "store_user bs q s = Some s'"
  shows "kinv s' F R P" and "\<exists>r. s' = s\<lparr>mem := (mem s)\<lparr>ram := r\<rparr>\<rparr>"
  using assms kinv_ram [OF assms(1)] by (auto simp: store_user_def bind_eq_Some_conv)

lemma kinv_get_key:
  assumes inv: "kinv s F R P" and run: "sys_get_key c s = Some (r, s')"
  shows "kinv s' F R P"
proof (cases "c = 0")
  case True
  with run inv show ?thesis by (simp add: sys_get_key_def)
next
  case False
  with run obtain ret aux b where b: "circular_read (keyboard_buffer s) = Some (ret, aux, b)"
    "store_user [aux] c (s\<lparr>keyboard_buffer := b\<rparr>) = Some s'"
    by (auto simp: sys_get_key_def Let_def bind_eq_Some_conv)
  have "cb_wf b" using circular_read_wf [OF kinvD(9) [OF inv] b(1)] .
  then have "kinv (s\<lparr>keyboard_buffer := b\<rparr>) F R P" by (intro kinv_frame [OF inv, of _ "ram (mem s)"]) simp_all
  then show ?thesis using kinv_store_user(1) b(2) by blast
qed

lemma kinv_get_stats:
  assumes inv: "kinv s F R P" and run: "sys_get_stats pid st s = Some (r, s')"
  shows "kinv s' F R P"
proof (cases "access_ok VERIFY_WRITE st 28 = 0 \<or> sint pid < 0 \<or> get_task s pid = None")
  case True
  with run inv show ?thesis by (auto simp: sys_get_stats_def split: if_splits)
next
  case False
  then obtain t where t: "get_task s pid = Some t" by blast
  let ?s = "upd_stat t (\<lambda>st. st\<lparr>remaining_ticks := quantum_ticks s\<rparr>) s"
  have "kinv ?s F R P" by (intro kinv_frame_same_mem [OF inv]) (simp_all add: upd_stat_def upd_task_def)
  moreover from run False t have "store_user (stats_bytes (estat (tasks ?s t))) st ?s = Some s'"
    by (auto simp: sys_get_stats_def Let_def bind_eq_Some_conv split: if_splits)
  ultimately show ?thesis by (rule kinv_store_user(1))
qed

lemma write_chunk_screen: "write_chunk p n dest s = Some (r, dest', s') \<Longrightarrow> \<exists>d. s' = s\<lparr>scr := d\<rparr>"
  by (auto simp: write_chunk_def bind_eq_Some_conv)

lemma write_loop_screen: "write_loop buffer limit i tot dest s = Some (r, s') \<Longrightarrow> \<exists>d. s' = s\<lparr>scr := d\<rparr>"
proof (induction buffer limit i tot dest s rule: write_loop.induct)
  case (1 buffer limit i tot dest s)
  show ?case
  proof (cases "i < limit")
    case False
    with "1.prems" have "s' = s\<lparr>scr := scr s\<rparr>" by (subst (asm) write_loop.simps) simp
    then show ?thesis by blast
  next
    case True
    with "1.prems" obtain ret dest1 s1 where c: "write_chunk (buffer + word_of_int i) 500 dest s = Some (ret, dest1, s1)"
      "(if ret > 0 then write_loop buffer limit (i + 500) (tot + ret) dest1 s1 else Some (Inl ret, s1)) = Some (r, s')"
      by (subst (asm) write_loop.simps) (auto simp: bind_eq_Some_conv)
    from write_chunk_screen [OF c(1)] obtain d where d: "s1 = s\<lparr>scr := d\<rparr>" by blast
    from "1.IH" [OF True c(1) refl refl] c d show ?thesis by (auto split: if_splits)
  qed
qed

lemma write_screen: "sys_write fd buffer sz s = Some (r, s') \<Longrightarrow> \<exists>d. s' = s\<lparr>scr := d\<rparr>"
proof -
  assume run: "sys_write fd buffer sz s = Some (r, s')"
  show ?thesis
  proof (cases "s' = s")
    case True
    then show ?thesis by (intro exI [of _ "scr s"]) simp
  next
    case False
    with run obtain x s1 where l: "write_loop buffer (sint sz div 500) 0 0 (replicate 500 0) s = Some (x, s1)"
      by (cases "write_loop buffer (sint sz div 500) 0 0 (replicate 500 0) s") (auto simp: sys_write_def Let_def split: if_splits)
    have "s1 = s' \<or> (\<exists>p n dest ret dest'. write_chunk p n dest s1 = Some (ret, dest', s'))"
    proof (cases x)
      case (Inl ret)
      with l run False show ?thesis by (simp add: sys_write_def Let_def split: if_splits)
    next
      case (Inr y)
      with l run False show ?thesis
        by (cases y) (auto simp: sys_write_def Let_def bind_eq_Some_conv split: if_splits)
    qed
    with write_loop_screen [OF l] show ?thesis by (auto dest!: write_chunk_screen)
  qed
qed

lemma kinv_write: "kinv s F R P \<Longrightarrow> sys_write fd buffer sz s = Some (r, s') \<Longrightarrow> kinv s' F R P"
  using write_screen by fastforce

lemma kinv_keyboard:
  assumes inv: "kinv s F R P" and run: "keyboard_routine v s = Some s'"
  shows "kinv s' F R P"
proof -
  have "\<exists>b. s' = s\<lparr>keyboard_buffer := b\<rparr> \<and> cb_wf b"
    using run kinvD(9) [OF inv] circular_write_wf [OF kinvD(9) [OF inv]]
    by (auto simp: keyboard_routine_def Let_def bind_eq_Some_conv split: if_splits intro: exI [of _ "keyboard_buffer s"])
  then show ?thesis by (auto intro!: kinv_frame [OF inv, of _ "ram (mem s)"])
qed

lemma kinv_user_store: "kinv s F R P \<Longrightarrow> user_store va b s = Some s' \<Longrightarrow> kinv s' F R P"
  by (auto simp: user_store_def bind_eq_Some_conv kinv_ram split: if_splits)

section \<open>The address space of a child\<close>

lemma with_entries_mem:
  "with_entries t p n e (m\<lparr>phys_mem := pm\<rparr>) = (with_entries t p n e m)\<lparr>phys_mem := pm\<rparr>"
  "with_entries t p n e (m\<lparr>ram := r\<rparr>) = (with_entries t p n e m)\<lparr>ram := r\<rparr>"
  by (auto simp: with_entries_def intro!: mm.equality)

lemma with_entries_cong:
  "(\<And>i. i < n \<Longrightarrow> e i = e' i) \<Longrightarrow> with_entries t p n e m = with_entries t p n e' m"
  by (auto simp: with_entries_def fun_eq_iff intro!: mm.equality)

text \<open>The tables after \<^verbatim>\<open>sys_fork\<close> of task \<open>t\<close> into table \<open>u\<close>: \<open>n\<close> pages in the frames \<open>gs\<close>.\<close>

definition fork_tables :: "nat \<Rightarrow> nat \<Rightarrow> nat list \<Rightarrow> mm \<Rightarrow> mm" where
  "fork_tables t u gs m = with_entries t (264 + length gs) (length gs) (\<lambda>_. 0)
     (with_entries u 264 (length gs) (\<lambda>i. user_pte (word_of_nat (gs ! i)))
       (with_entries u 256 8 (\<lambda>j. user_pte (pte_pbase (entry m t (256 + j))))
         (with_entries u 2 255 (\<lambda>j. entry m t (2 + j)) m)))"

lemma fork_tables_mem:
  "fork_tables t u gs (m\<lparr>phys_mem := pm\<rparr>) = (fork_tables t u gs m)\<lparr>phys_mem := pm\<rparr>"
  "fork_tables t u gs (m\<lparr>ram := r\<rparr>) = (fork_tables t u gs m)\<lparr>ram := r\<rparr>"
  by (simp_all add: fork_tables_def with_entries_mem)

lemma fork_tables_simps [simp]:
  "phys_mem (fork_tables t u gs m) = phys_mem m" "cr3 (fork_tables t u gs m) = cr3 m"
  "ram (fork_tables t u gs m) = ram m" "row_PT (fork_tables t u gs m) = row_PT m"
  by (simp_all add: fork_tables_def)

lemma entry_fork_tables:
  assumes "264 + 2 * length gs \<le> 1024" and "p < 1024" and "t \<noteq> u"
  shows "entry (fork_tables t u gs m) v p =
    (if v = t \<and> 264 + length gs \<le> p \<and> p < 264 + 2 * length gs then 0
     else if v = u \<and> 264 \<le> p \<and> p < 264 + length gs then user_pte (word_of_nat (gs ! (p - 264)))
     else if v = u \<and> 256 \<le> p \<and> p < 264 then user_pte (pte_pbase (entry m t p))
     else if v = u \<and> 2 \<le> p \<and> p < 256 then entry m t p else entry m v p)"
proof -
  have "2 + (p - 2) = p" if "2 \<le> p" using that by simp
  then show ?thesis using assms unfolding fork_tables_def by (auto simp: entry_with_entries simp del: add_2_eq_Suc)
qed

lemma fork_space:
  assumes inv: "mem_inv m L N" and t: "t \<in> L" and u: "u < 10" "u \<notin> L" and c3: "cr3 m = Some t"
    and gs: "length gs = N t" "distinct gs" "set gs \<subseteq> own_pool - used_frames (phys_mem m)"
    and n: "264 + 2 * N t \<le> 1024"
  shows "\<exists>r. do {
        x \<leftarrow> share_kernel_pages (row_PT m t) (row_PT m u) 1 (m\<lparr>phys_mem := pm\<rparr>);
        x \<leftarrow> share_code_pages (row_PT m t) (row_PT m u) 0 x;
        x \<leftarrow> map_frames (row_PT m u) 264 (map int gs) x;
        copy_pages (row_PT m t) 264 (word_of_nat (N t)) (map int gs) x }
      = Some ((fork_tables t u gs m)\<lparr>phys_mem := pm, ram := r\<rparr>)
    \<and> (\<forall>i < N t. frame_eq r (gs ! i) (ram m) (frame_of m t (264 + i)))
    \<and> (\<forall>a. drop_bit 12 a \<notin> word_of_nat ` set gs \<longrightarrow> r a = ram m a)"
proof -
  have tl: "t < 10" "t \<noteq> u" using inv t u by (auto simp: mem_inv_def)
  have eo: "entries_owned m" and pg: "\<And>p. 264 \<le> p \<Longrightarrow> p < 264 + N t \<Longrightarrow> user_page p \<and> entry m t p \<noteq> 0"
    using inv t by (auto simp: mem_inv_def user_page_def)
  let ?m1 = "m\<lparr>phys_mem := pm\<rparr>"
  define m2 where "m2 = with_entries u 2 255 (\<lambda>j. entry m t (2 + j)) ?m1"
  define m3 where "m3 = with_entries u 256 8 (\<lambda>j. user_pte (pte_pbase (entry m2 t (256 + j)))) m2"
  define m4 where "m4 = with_entries u 264 (N t) (\<lambda>i. user_pte (word_of_int (map int gs ! i))) m3"
  have rows: "row_PT m2 = row_PT m" "row_PT m3 = row_PT m" "row_PT m4 = row_PT m"
    by (simp_all add: m2_def m3_def m4_def)
  have s2: "share_kernel_pages (row_PT m t) (row_PT m u) 1 ?m1 = Some m2"
    using share_kernel_run [OF tl(1) u(1) tl(2), of 1 ?m1] by (simp only: m2_def one_add_one entry_upd add_2_eq_Suc numeral_2_eq_2 [symmetric]) (simp add: numeral_2_eq_2)
  have s3: "share_code_pages (row_PT m t) (row_PT m u) 0 m2 = Some m3"
    using share_code_run [OF tl(1) u(1) tl(2), of 0 m2] by (simp add: m3_def rows)
  have s4: "map_frames (row_PT m u) 264 (map int gs) m3 = Some m4"
    using map_frames_run [OF u(1), of 264 "map int gs" m3] gs(1) n by (simp add: m4_def rows del: nth_map)
  have ent: "entry m4 t p = entry m t p" if "p < 1024" for p
    using that tl(2) n by (simp add: m2_def m3_def m4_def entry_with_entries)
  have "\<exists>r. copy_pages (row_PT m4 t) (word_of_nat 264) (word_of_nat (N t)) (map int gs) m4
      = Some (with_entries t (264 + N t) (length gs) (\<lambda>_. 0) (m4\<lparr>ram := r\<rparr>))
    \<and> (\<forall>i < length gs. frame_eq r (gs ! i) (ram m4) (frame_of m t (264 + i)))
    \<and> (\<forall>a. drop_bit 12 a \<notin> word_of_nat ` set gs \<longrightarrow> r a = ram m4 a)"
  proof (rule copy_pages_run [where src = "\<lambda>i. frame_of m t (264 + i)"])
    show "tables_ok m4" "cr3 m4 = Some t"
      using inv c3 by (simp_all add: m4_def m3_def m2_def mem_inv_def)
    show "\<forall>i < length gs. pte_present (entry m4 t (264 + i)) \<and> pte_pbase (entry m4 t (264 + i)) = word_of_nat (frame_of m t (264 + i))
      \<and> 256 \<le> frame_of m t (264 + i) \<and> frame_of m t (264 + i) < 2 ^ 20"
    proof (intro allI impI)
      fix i assume i: "i < length gs"
      then have p: "user_page (264 + i)" "entry m t (264 + i) \<noteq> 0" "264 + i < 1024"
        using pg [of "264 + i"] gs(1) n by simp_all
      show "pte_present (entry m4 t (264 + i)) \<and> pte_pbase (entry m4 t (264 + i)) = word_of_nat (frame_of m t (264 + i))
        \<and> 256 \<le> frame_of m t (264 + i) \<and> frame_of m t (264 + i) < 2 ^ 20"
        using entries_ownedD(1,4,5) [OF eo tl(1) p(1,2)] own_pool_bounds by (simp add: ent [OF p(3)] less_imp_le)
    qed
    show "\<forall>g \<in> set gs. 256 \<le> g \<and> g < 2 ^ 20" using gs(3) own_pool_bounds by fastforce
    show "\<forall>i < length gs. frame_of m t (264 + i) \<notin> set gs"
      using entries_ownedD(2) [OF eo tl(1)] pg gs(1,3) by fastforce
  qed (use gs n tl in simp_all)
  then obtain r where r: "copy_pages (row_PT m t) 264 (word_of_nat (N t)) (map int gs) m4
      = Some (with_entries t (264 + N t) (length gs) (\<lambda>_. 0) (m4\<lparr>ram := r\<rparr>))"
    "\<forall>i < N t. frame_eq r (gs ! i) (ram m) (frame_of m t (264 + i))"
    "\<forall>a. drop_bit 12 a \<notin> word_of_nat ` set gs \<longrightarrow> r a = ram m a"
    using gs(1) by (auto simp: rows) (auto simp: m4_def m3_def m2_def)
  have e2: "entry m2 t (256 + j) = entry m t (256 + j)" if "j < 8" for j
    using that tl(2) by (simp add: m2_def entry_with_entries)
  have m3: "m3 = with_entries u 256 8 (\<lambda>j. user_pte (pte_pbase (entry m t (256 + j)))) m2"
    unfolding m3_def by (rule with_entries_cong) (simp add: e2)
  have m4: "m4 = with_entries u 264 (N t) (\<lambda>i. user_pte (word_of_nat (gs ! i))) m3"
    unfolding m4_def by (rule with_entries_cong) (simp add: gs(1))
  have "with_entries t (264 + N t) (length gs) (\<lambda>_. 0) (m4\<lparr>ram := r\<rparr>) = (fork_tables t u gs m)\<lparr>phys_mem := pm, ram := r\<rparr>"
    unfolding fork_tables_def m4 m3 m2_def gs(1) by (simp only: with_entries_mem)
  with r s2 s3 s4 show ?thesis by (intro exI [of _ r]) simp
qed


lemma fork_mem_inv:
  assumes inv: "mem_inv m L N" and t: "t \<in> L" and u: "u < 10" "u \<notin> L"
    and gs: "length gs = N t" "distinct gs" "set gs \<subseteq> own_pool - used_frames (phys_mem m)"
    and n: "264 + 2 * N t \<le> 1024" and pm: "frames_ok pm" "used_frames pm = used_frames (phys_mem m) \<union> set gs"
  shows "mem_inv ((fork_tables t u gs m)\<lparr>phys_mem := pm\<rparr>) (insert u L) (N(u := N t))"
proof -
  have tl: "t < 10" "t \<noteq> u" and code: "code_frames \<subseteq> used_frames (phys_mem m)" using inv t u by (auto simp: mem_inv_def)
  have "kernel_ok m" using inv by (simp add: mem_inv_def)
  then have ker: "entry m t p = boot_entry p" if "p < 256" for p
    using tl(1) that unfolding kernel_ok_def by blast
  let ?m2 = "with_entries u 2 255 (\<lambda>j. entry m t (2 + j)) m"
  let ?m3 = "with_entries u 256 8 (\<lambda>j. user_pte (pte_pbase (entry m t (256 + j)))) ?m2"
  let ?e = "\<lambda>i. user_pte (word_of_nat (gs ! i))"
  let ?m4 = "with_entries u 264 (N t) ?e (?m3\<lparr>phys_mem := pm\<rparr>)"
  have i2: "mem_inv ?m2 L N" by (rule mem_inv_low [OF inv u(2)], simp) (intro allI impI, rule ker)
  have i3: "mem_inv ?m3 L N" by (rule mem_inv_low [OF i2 u(2)], simp) (intro allI impI, simp)
  have m: "gs ! i \<in> own_pool - used_frames (phys_mem m)" if "i < N t" for i
    using gs(3) nth_mem [of i gs] that unfolding gs(1) by blast
  have e: "gs ! i \<in> own_pool" "gs ! i \<in> used_frames pm" "gs ! i \<notin> used_frames (phys_mem m)" "?e i \<noteq> 0" if "i < N t" for i
    using m [OF that] that pm(2) gs(1) own_pool_bounds [of "gs ! i"] user_pte_frame(2) [of "gs ! i"] by auto
  have c3: "code_ok ?m3 u"
  proof -
    have "code_ok m t" using inv t by (simp add: mem_inv_def)
    moreover have "take_bit 20 (word_of_nat (256 + 2 * i)) = (word_of_nat (256 + 2 * i) :: DWord)" if "i < 8" for i :: nat
      unfolding take_bit_of_nat using that by (subst take_bit_nat_eq_self) simp_all
    ultimately show ?thesis by (simp add: code_ok_def entry_with_entries)
  qed
  have i4: "mem_inv ?m4 (insert u L) (N(u := N t))"
  proof (rule mem_inv_with_entries [OF i3 u(1) _ _ pm(1)])
    show "\<forall>i < N t. ?e i = 0 \<or> (\<exists>f. f \<in> own_pool \<and> f \<in> used_frames pm \<and> f \<notin> used_frames (phys_mem ?m3)
        \<and> ?e i = user_pte (word_of_nat f))" using e by auto
    show "\<forall>i < N t. \<forall>j < N t. ?e i \<noteq> 0 \<longrightarrow> ?e i = ?e j \<longrightarrow> i = j"
    proof (intro allI impI)
      fix i j assume ij: "i < N t" "j < N t" "?e i = ?e j"
      then have "gs ! i = gs ! j"
        using user_pte_frame(1) own_pool_bounds [OF e(1) [OF ij(1)]] own_pool_bounds [OF e(1) [OF ij(2)]] by metis
      with gs ij show "i = j" by (simp add: nth_eq_iff_index_eq)
    qed
    have "entries_owned ?m3" using i3 by (simp add: mem_inv_def)
    from entries_ownedD(2) [OF this] show "\<forall>v < 10. \<forall>p. user_page p \<longrightarrow> entry ?m3 v p \<noteq> 0 \<longrightarrow>
        \<not> (v = u \<and> 264 \<le> p \<and> p < 264 + N t) \<longrightarrow> frame_of ?m3 v p \<in> used_frames pm"
      using pm(2) by auto
    show "code_frames \<subseteq> used_frames pm" using code pm(2) by blast
  qed (use n c3 e(4) in auto)
  have "mem_inv (with_entries t (264 + N t) (N t) (\<lambda>_. 0) (?m4\<lparr>phys_mem := pm\<rparr>)) (insert u L) (N(u := N t))"
  proof (rule mem_inv_with_entries [OF i4 tl(1) _ _ pm(1)])
    have "entries_owned ?m4" using i4 by (simp add: mem_inv_def)
    from entries_ownedD(2) [OF this] show "\<forall>v < 10. \<forall>p. user_page p \<longrightarrow> entry ?m4 v p \<noteq> 0 \<longrightarrow>
        \<not> (v = t \<and> 264 + N t \<le> p \<and> p < 264 + N t + N t) \<longrightarrow> frame_of ?m4 v p \<in> used_frames pm" by auto
    show "code_frames \<subseteq> used_frames pm" using code pm(2) by blast
    have "code_ok ?m4 t" "\<forall>p. 264 \<le> p \<and> p < 264 + N t \<longrightarrow> p < 1024 \<and> entry ?m4 t p \<noteq> 0"
      using i4 t tl(2) unfolding mem_inv_def by auto
    with tl(2) show "code_ok ?m4 t \<and> (\<forall>p. 264 \<le> p \<and> p < 264 + (N(u := N t)) t \<longrightarrow> p < 1024 \<and>
        (if 264 + N t \<le> p \<and> p < 264 + N t + N t then (0::DWord) \<noteq> 0 else entry ?m4 t p \<noteq> 0))" by auto
  qed (use n in auto)
  moreover have "with_entries t (264 + N t) (N t) (\<lambda>_. 0) (?m4\<lparr>phys_mem := pm\<rparr>) = (fork_tables t u gs m)\<lparr>phys_mem := pm\<rparr>"
    unfolding fork_tables_def gs(1) by (simp add: with_entries_mem)
  ultimately show ?thesis by simp
qed

section \<open>sys_fork\<close>

text \<open>The task structure and stack of a child of task \<open>c\<close> in slot \<open>ch\<close>.\<close>

definition child_task :: "kernel \<Rightarrow> nat \<Rightarrow> stats \<Rightarrow> task" where
  "child_task s ch st = (cur_task s)\<lparr>dir_pages_baseAddr := Some ch, PID := nextPID s, kernel_esp := Some (ch, 1005),
     estat := st, stack := (stack (cur_task s))(1005 := 0, 1006 := sym_ret_from_fork s)\<rparr>"

lemma frame_room:
  assumes "mem_inv m L N" and "t \<in> L" and "N t \<le> card (frame_pool - used_frames (phys_mem m))"
  shows "264 + 2 * N t \<le> 1024"
  using frames_of_process(3) [OF assms(1,2)] assms(3) by simp

lemma npages_fit:
  assumes "kinv s F R P"
  shows "npages (brk (tasks s (cur s))) \<le> 383" and "vla_ok (int (npages (brk (tasks s (cur s)))))"
  using frames_of_process(3) [OF kinvD(8) [OF assms] cur_procs] by (simp_all add: vla_ok_def)

lemma queues_self_copy:
  assumes "queues h F R P" and "t < 10" "t \<notin> set (F @ R @ P)" and "u < 10" "u \<notin> set (F @ R @ P)"
  shows "h(TASK_LIST t := h (TASK_LIST u)) = h"
  using queues_free_node(3) [OF assms(1-3)] queues_free_node(3) [OF assms(1) assms(4,5)] by auto

lemma set_cr3_same: "cr3 m = c \<Longrightarrow> m\<lparr>cr3 := c\<rparr> = m"
  by (auto intro!: mm.equality)

lemma fork_child_run:
  assumes q: "queues (lists x) F R P" and ch: "ch < 10" "ch \<notin> set (F @ R @ P)" "ch \<noteq> cur x" and c: "cur x < 10"
    and dirs: "dir_pages_baseAddr (tasks x (cur x)) = Some (cur x)" "dir_pages_baseAddr (tasks x ch) = Some ch"
    and m: "tables_ok (mem x)" "cr3 m' = Some (cur x)"
    and run: "do {
        y \<leftarrow> share_kernel_pages (row_PT (mem x) (cur x)) (row_PT (mem x) ch) 1 (mem x);
        y \<leftarrow> share_code_pages (row_PT (mem x) (cur x)) (row_PT (mem x) ch) 0 y;
        y \<leftarrow> map_frames (row_PT (mem x) ch) 264 frames y;
        copy_pages (row_PT (mem x) (cur x)) 264 (word_of_nat n) frames y } = Some m'"
    and rq: "requeue (nice (tasks x ch)) ch R P = (R2, P2)"
  shows "\<exists>h st. queues h F R2 P2 \<and> fork_child ch (int n) frames x = Some (nextPID x, x\<lparr>
     tasks := (tasks x)(ch := (tasks x ch)\<lparr>PID := nextPID x, kernel_esp := Some (ch, 1005), estat := st,
       stack := (stack (tasks x ch))(1005 := 0, 1006 := sym_ret_from_fork x)\<rparr>),
     lists := h, mem := m', nextPID := nextPID x + 1, tsc_pos := tsc_pos x + 1, tlb := Map.empty\<rparr>)"
proof -
  from run obtain m1 m2 m3 where ms: "share_kernel_pages (row_PT (mem x) (cur x)) (row_PT (mem x) ch) 1 (mem x) = Some m1"
    "share_code_pages (row_PT (mem x) (cur x)) (row_PT (mem x) ch) 0 m1 = Some m2"
    "map_frames (row_PT (mem x) ch) 264 frames m2 = Some m3"
    "copy_pages (row_PT (mem x) (cur x)) 264 (word_of_nat n) frames m3 = Some m'"
    by (auto simp: bind_eq_Some_conv)
  have pt: "get_PT x (cur x) = Some (row_PT (mem x) (cur x))" "get_PT x ch = Some (row_PT (mem x) ch)"
    using dir_PT_run [OF m(1)] ch c dirs by (simp_all add: get_PT_def get_DIR_def)
  obtain h where h: "queues h F R2 P2"
    "(if nice (tasks x ch) \<noteq> 0 then list_add_tail (Some (TASK_LIST ch)) (Some READYQUEUE) (lists x)
      else list_add_tail (Some (TASK_LIST ch)) (Some PRIORITYQUEUE) (lists x)) = Some h"
    using queues_add_tail(2,3) [OF q ch(1,2)] rq by (auto simp: requeue_def split: if_splits)
  define x1 where "x1 = x\<lparr>mem := m', tlb := Map.empty, nextPID := nextPID x + 1\<rparr>"
  obtain st where st: "init_stat ch (upd_task ch (\<lambda>p. p\<lparr>PID := nextPID x\<rparr>) x1)
      = Some (kstat ch st (tsc_pos x + 1) (upd_task ch (\<lambda>p. p\<lparr>PID := nextPID x\<rparr>) x1))"
    by (simp add: init_stat_run upd_task_def x1_def)
  let ?y = "x\<lparr>tasks := (tasks x)(ch := (tasks x ch)\<lparr>PID := nextPID x, kernel_esp := Some (ch, 1005), estat := st,
       stack := (stack (tasks x ch))(1005 := 0, 1006 := sym_ret_from_fork x)\<rparr>),
     lists := h, mem := m', nextPID := nextPID x + 1, tsc_pos := tsc_pos x + 1, tlb := Map.empty\<rparr>"
  have "fork_child ch (int n) frames x = do {
     s \<leftarrow> init_stat ch (upd_task ch (\<lambda>p. p\<lparr>PID := nextPID x\<rparr>) x1);
     let s = set_stack ch 1005 0 s;
     let s = set_stack ch 1006 (sym_ret_from_fork s) s;
     let s = upd_task ch (\<lambda>p. p\<lparr>kernel_esp := Some (ch, 1005)\<rparr>) s;
     s \<leftarrow> (if nice (tasks s ch) \<noteq> 0 then with_lists (list_add_tail (Some (TASK_LIST ch)) (Some READYQUEUE)) s
          else with_lists (list_add_tail (Some (TASK_LIST ch)) (Some PRIORITYQUEUE)) s);
     Some (nextPID x, s) }"
    using ms pt dirs(1) set_cr3_same [OF m(2)]
    by (simp add: fork_child_def with_mem_def current_def Let_def set_cr3_def get_DIR_def x1_def)
  also have "\<dots> = Some (nextPID x, ?y)"
    unfolding st using h(2)
    by (auto simp: kstat_def upd_task_def set_stack_def with_lists_def Let_def x1_def
      intro!: kernel.equality task.equality split: if_splits)
  finally show ?thesis using h(1) by blast
qed

lemma sys_fork_outcome:
  assumes inv: "kinv s F R P" and n: "n = npages (brk (tasks s (cur s)))"
  obtains (again) "F = []" "sys_fork s = Some (- EAGAIN, s)"
  | (nomem) ch F' h pm where "F = ch # F'" "free_frames s < n" "queues h F R P" "frames_ok pm"
      "used_frames pm = used_frames (phys_mem (mem s))"
      "sys_fork s = Some (- ENOMEM, s\<lparr>tasks := (tasks s)(ch := (cur_task s)\<lparr>dir_pages_baseAddr := Some ch\<rparr>), lists := h,
        mem := (mem s)\<lparr>phys_mem := pm\<rparr>\<rparr>)"
  | (child) ch F' h pm gs ra st R2 P2 where "F = ch # F'" "n \<le> free_frames s"
      "requeue (nice (cur_task s)) ch R P = (R2, P2)" "queues h F' R2 P2"
      "length gs = n" "distinct gs" "set gs \<subseteq> own_pool - used_frames (phys_mem (mem s))" "frames_ok pm"
      "used_frames pm = used_frames (phys_mem (mem s)) \<union> set gs" "264 + 2 * n \<le> 1024"
      "\<forall>i < n. frame_eq ra (gs ! i) (ram (mem s)) (frame_of (mem s) (cur s) (264 + i))"
      "\<forall>a. drop_bit 12 a \<notin> word_of_nat ` set gs \<longrightarrow> ra a = ram (mem s) a"
      "sys_fork s = Some (nextPID s, s\<lparr>tasks := (tasks s)(ch := child_task s ch st), lists := h,
        mem := (fork_tables (cur s) ch gs (mem s))\<lparr>phys_mem := pm, ram := ra\<rparr>, nextPID := nextPID s + 1,
        tsc_pos := tsc_pos s + 1, tlb := Map.empty\<rparr>)"
proof (cases F)
  case Nil
  with queues_empty(1) [OF kinvD(1) [OF inv]] show ?thesis by (intro again) (simp_all add: sys_fork_def)
next
  case (Cons ch F')
  note q = kinvD(1) [OF inv] and mi = kinvD(8) [OF inv]
  let ?c = "cur s" and ?m = "mem s"
  from q Cons obtain h where h: "list_del (Some (TASK_LIST ch)) (lists s) = Some h" "queues h F' R P"
    using queues_pop(1) [of "lists s" ch F' R P] by auto
  have ch: "ch < 10" "ch \<noteq> ?c" "ch \<notin> set (F' @ R @ P)" "?c \<notin> set (F' @ R @ P)" "?c < 10" "ch \<notin> procs s R P"
    using queues_tasks [OF q] kinvD(2,3) [OF inv] Cons by (auto simp: procs_def)
  have hc: "h(TASK_LIST ch := h (TASK_LIST ?c)) = h" using queues_self_copy [OF h(2) ch(1,3,5,4)] .
  have b: "data_heap_pages (brk (tasks s ?c)) = int n" "vla_ok (int n)"
    using data_heap_pages_run kinvD(6) [OF inv] npages_fit(2) [OF inv] n by simp_all
  have first: "list_empty (Some FREEQUEUE) (lists s) = Some False" "list_first (Some FREEQUEUE) (lists s) = Some (Some (TASK_LIST ch))"
    using queues_empty(1) [OF q] queues_first(1) [OF q] Cons by simp_all
  let ?s1 = "\<lambda>m. s\<lparr>tasks := (tasks s)(ch := (cur_task s)\<lparr>dir_pages_baseAddr := Some ch\<rparr>), lists := h, mem := m\<rparr>"
  have s1: "s\<lparr>lists := h(TASK_LIST ch := h (TASK_LIST ?c)),
      tasks := (tasks s)(ch := (tasks s ?c)\<lparr>dir_pages_baseAddr := Some ch\<rparr>), mem := m\<rparr> = ?s1 m" for m
    by (rule kernel.equality) (simp_all add: hc cur_task_def current_def)
  have r1: "sys_fork s = do {
      (fs, m) \<leftarrow> alloc_loop mm_alloc_frame mm_free_frame n [] ?m;
      case fs of
        None \<Rightarrow> do {
          s \<leftarrow> with_lists (list_add (Some (TASK_LIST ch)) (Some FREEQUEUE)) (?s1 m);
          Some (- ENOMEM, s) }
      | Some frames \<Rightarrow> fork_child ch (int n) frames (?s1 m) }"
    using first h(1) b ch(2) unfolding s1 [symmetric]
    by (simp add: sys_fork_def with_lists_def list_head_to_task_struct_def current_def cur_task_def Let_def
      upd_task_def allocate_DIR_def cong: option.case_cong)
  show ?thesis
  proof (rule reserve_frames [OF mi, of n])
    fix pm assume f: "alloc_loop mm_alloc_frame mm_free_frame n [] ?m = Some (None, ?m\<lparr>phys_mem := pm\<rparr>)"
      "frames_ok pm" "used_frames pm = used_frames (phys_mem ?m)" "free_frames s < n"
    obtain h2 where h2: "list_add (Some (TASK_LIST ch)) (Some FREEQUEUE) h = Some h2" "queues h2 F R P"
      using queues_push_free [OF h(2) ch(1,3)] Cons by blast
    from f h2(1) r1 have "sys_fork s = Some (- ENOMEM, (?s1 (?m\<lparr>phys_mem := pm\<rparr>))\<lparr>lists := h2\<rparr>)" by (auto simp: with_lists_def)
    with Cons f(2-4) h2(2) show ?thesis by (intro nomem [of ch F' h2 pm]) (auto intro!: kernel.equality)
  next
    fix gs pm assume f: "alloc_loop mm_alloc_frame mm_free_frame n [] ?m = Some (Some (map int gs), ?m\<lparr>phys_mem := pm\<rparr>)"
      "length gs = n" "distinct gs" "set gs \<subseteq> own_pool - used_frames (phys_mem ?m)" "frames_ok pm"
      "used_frames pm = used_frames (phys_mem ?m) \<union> set gs" "n \<le> free_frames s"
    have nn: "npages (brk (tasks s ?c)) = n" using n by simp
    have room: "264 + 2 * n \<le> 1024"
      using frame_room [OF mi cur_procs, unfolded nn] f(7) .
    let ?x = "?s1 (?m\<lparr>phys_mem := pm\<rparr>)"
    from fork_space [OF mi cur_procs ch(1,6) kinvD(7) [OF inv], unfolded nn, OF f(2-4) room, of pm] obtain ra where ra:
      "do { x \<leftarrow> share_kernel_pages (row_PT ?m ?c) (row_PT ?m ch) 1 (?m\<lparr>phys_mem := pm\<rparr>);
        x \<leftarrow> share_code_pages (row_PT ?m ?c) (row_PT ?m ch) 0 x;
        x \<leftarrow> map_frames (row_PT ?m ch) 264 (map int gs) x;
        copy_pages (row_PT ?m ?c) 264 (word_of_nat n) (map int gs) x }
      = Some ((fork_tables ?c ch gs ?m)\<lparr>phys_mem := pm, ram := ra\<rparr>)"
      "\<forall>i < n. frame_eq ra (gs ! i) (ram ?m) (frame_of ?m ?c (264 + i))"
      "\<forall>a. drop_bit 12 a \<notin> word_of_nat ` set gs \<longrightarrow> ra a = ram ?m a" by blast
    obtain R2 P2 where rq: "requeue (nice (cur_task s)) ch R P = (R2, P2)" by fastforce
    have "\<exists>h st. queues h F' R2 P2 \<and> fork_child ch (int n) (map int gs) ?x = Some (nextPID ?x, ?x\<lparr>
       tasks := (tasks ?x)(ch := (tasks ?x ch)\<lparr>PID := nextPID ?x, kernel_esp := Some (ch, 1005), estat := st,
         stack := (stack (tasks ?x ch))(1005 := 0, 1006 := sym_ret_from_fork ?x)\<rparr>),
       lists := h, mem := (fork_tables ?c ch gs ?m)\<lparr>phys_mem := pm, ram := ra\<rparr>, nextPID := nextPID ?x + 1,
       tsc_pos := tsc_pos ?x + 1, tlb := Map.empty\<rparr>)"
    proof (rule fork_child_run)
      show "queues (lists ?x) F' R P" "ch \<notin> set (F' @ R @ P)" "ch < 10" "ch \<noteq> cur ?x" "cur ?x < 10"
        using h(2) ch by simp_all
      show "requeue (nice (tasks ?x ch)) ch R P = (R2, P2)" using rq by simp
    qed (use ch(2) ra(1) kinvD(5,7,10) [OF inv] in simp_all)
    then obtain h3 st where h3: "queues h3 F' R2 P2" "fork_child ch (int n) (map int gs) ?x = Some (nextPID s,
      s\<lparr>tasks := (tasks s)(ch := child_task s ch st), lists := h3,
        mem := (fork_tables ?c ch gs ?m)\<lparr>phys_mem := pm, ram := ra\<rparr>, nextPID := nextPID s + 1,
        tsc_pos := tsc_pos s + 1, tlb := Map.empty\<rparr>)"
      by (auto simp: child_task_def)
    from r1 f(1) h3(2) have "sys_fork s = Some (nextPID s, s\<lparr>tasks := (tasks s)(ch := child_task s ch st), lists := h3,
        mem := (fork_tables ?c ch gs ?m)\<lparr>phys_mem := pm, ram := ra\<rparr>, nextPID := nextPID s + 1,
        tsc_pos := tsc_pos s + 1, tlb := Map.empty\<rparr>)" by auto
    with Cons f(2-7) rq h3(1) room ra(2,3) show ?thesis by (intro child [of ch F' R2 P2 h3 gs pm ra st])
  qed
qed


lemma sys_fork_cases:
  assumes inv: "kinv s F R P" and run: "sys_fork s = Some (r, s')" and n: "n = npages (brk (tasks s (cur s)))"
  obtains (again) "F = []" "r = - EAGAIN" "s' = s"
  | (nomem) ch F' h pm where "F = ch # F'" "r = - ENOMEM" "free_frames s < n" "queues h F R P" "frames_ok pm"
      "used_frames pm = used_frames (phys_mem (mem s))"
      "s' = s\<lparr>tasks := (tasks s)(ch := (cur_task s)\<lparr>dir_pages_baseAddr := Some ch\<rparr>), lists := h,
        mem := (mem s)\<lparr>phys_mem := pm\<rparr>\<rparr>"
  | (child) ch F' h pm gs ra st R2 P2 where "F = ch # F'" "r = nextPID s" "n \<le> free_frames s"
      "requeue (nice (cur_task s)) ch R P = (R2, P2)" "queues h F' R2 P2"
      "length gs = n" "distinct gs" "set gs \<subseteq> own_pool - used_frames (phys_mem (mem s))" "frames_ok pm"
      "used_frames pm = used_frames (phys_mem (mem s)) \<union> set gs" "264 + 2 * n \<le> 1024"
      "\<forall>i < n. frame_eq ra (gs ! i) (ram (mem s)) (frame_of (mem s) (cur s) (264 + i))"
      "\<forall>a. drop_bit 12 a \<notin> word_of_nat ` set gs \<longrightarrow> ra a = ram (mem s) a"
      "s' = s\<lparr>tasks := (tasks s)(ch := child_task s ch st), lists := h,
        mem := (fork_tables (cur s) ch gs (mem s))\<lparr>phys_mem := pm, ram := ra\<rparr>, nextPID := nextPID s + 1,
        tsc_pos := tsc_pos s + 1, tlb := Map.empty\<rparr>"
proof (rule sys_fork_outcome [OF inv n])
  assume "F = []" "sys_fork s = Some (- EAGAIN, s)"
  with run show ?thesis by (intro again) simp_all
next
  fix ch F' h pm
  assume "F = ch # F'" "free_frames s < n" "queues h F R P" "frames_ok pm" "used_frames pm = used_frames (phys_mem (mem s))"
    "sys_fork s = Some (- ENOMEM, s\<lparr>tasks := (tasks s)(ch := (cur_task s)\<lparr>dir_pages_baseAddr := Some ch\<rparr>), lists := h,
        mem := (mem s)\<lparr>phys_mem := pm\<rparr>\<rparr>)"
  with run show ?thesis by (intro nomem [of ch F' h pm]) simp_all
next
  fix ch F' h pm gs ra st R2 P2
  assume a: "F = ch # F'" "n \<le> free_frames s"
      "requeue (nice (cur_task s)) ch R P = (R2, P2)" "queues h F' R2 P2"
      "length gs = n" "distinct gs" "set gs \<subseteq> own_pool - used_frames (phys_mem (mem s))" "frames_ok pm"
      "used_frames pm = used_frames (phys_mem (mem s)) \<union> set gs" "264 + 2 * n \<le> 1024"
      "\<forall>i < n. frame_eq ra (gs ! i) (ram (mem s)) (frame_of (mem s) (cur s) (264 + i))"
      "\<forall>a. drop_bit 12 a \<notin> word_of_nat ` set gs \<longrightarrow> ra a = ram (mem s) a"
      "sys_fork s = Some (nextPID s, s\<lparr>tasks := (tasks s)(ch := child_task s ch st), lists := h,
        mem := (fork_tables (cur s) ch gs (mem s))\<lparr>phys_mem := pm, ram := ra\<rparr>, nextPID := nextPID s + 1,
        tsc_pos := tsc_pos s + 1, tlb := Map.empty\<rparr>)"
  from run [unfolded a(13)] show ?thesis using a(1-12) by (intro child [of ch F' R2 P2 h gs pm ra st]) auto
qed

lemma kinv_free_reorder:
  assumes "kinv s F R P" and "lists s' = h" "queues h F R P" and "cur s' = cur s" and "idle_task s' = idle_task s"
    and "\<And>t. t \<noteq> ch \<Longrightarrow> tasks s' t = tasks s t" and "ch \<in> set F"
    and "mem s' = (mem s)\<lparr>phys_mem := pm\<rparr>" and "frames_ok pm" and "used_frames pm = used_frames (phys_mem (mem s))"
    and "keyboard_buffer s' = keyboard_buffer s"
  shows "kinv s' F R P"
proof -
  have "kinv (s\<lparr>mem := (mem s)\<lparr>phys_mem := pm\<rparr>\<rparr>) F R P" by (rule kinv_phys_mem [OF assms(1,9,10)])
  moreover have "ch \<notin> procs s R P"
    using queues_tasks(1) [OF assms(3)] kinvD(3) [OF assms(1)] assms(7) by (auto simp: procs_def)
  then have t: "tasks s' t = tasks s t" if "t \<in> procs s R P" for t
    using that assms(6) [of t] by metis
  have pr: "procs s' R P = procs s R P" using assms(4) by (simp add: procs_def)
  have "mem_inv (mem s') (procs s R P) (\<lambda>t. npages (brk (tasks s' t)))
      = mem_inv (mem s') (procs s R P) (\<lambda>t. npages (brk (tasks s t)))"
    using t by (simp add: mem_inv_def)
  ultimately show ?thesis
    using t assms unfolding kinv_def pr by (auto simp: procs_def)
qed

lemma kinv_fork:
  assumes inv: "kinv s F R P" and run: "sys_fork s = Some (r, s')"
  shows "\<exists>F' R' P'. kinv s' F' R' P'"
proof -
  let ?c = "cur s" and ?m = "mem s" and ?n = "npages (brk (tasks s (cur s)))"
  note mi = kinvD(8) [OF inv]
  show ?thesis
  proof (rule sys_fork_cases [OF inv run refl])
    assume "s' = s" with inv show ?thesis by blast
  next
    fix ch F' h pm assume a: "F = ch # F'" "queues h F R P" "frames_ok pm" "used_frames pm = used_frames (phys_mem ?m)"
      "s' = s\<lparr>tasks := (tasks s)(ch := (cur_task s)\<lparr>dir_pages_baseAddr := Some ch\<rparr>), lists := h, mem := ?m\<lparr>phys_mem := pm\<rparr>\<rparr>"
    have "kinv s' F R P" by (rule kinv_free_reorder [OF inv _ a(2), where ch = ch and pm = pm]) (use a in simp_all)
    then show ?thesis by blast
  next
    fix ch F' h pm gs ra st R2 P2 assume a: "F = ch # F'" "requeue (nice (cur_task s)) ch R P = (R2, P2)"
      "queues h F' R2 P2" "length gs = ?n" "distinct gs" "set gs \<subseteq> own_pool - used_frames (phys_mem ?m)" "frames_ok pm"
      "used_frames pm = used_frames (phys_mem ?m) \<union> set gs" "264 + 2 * ?n \<le> 1024"
      "s' = s\<lparr>tasks := (tasks s)(ch := child_task s ch st), lists := h,
        mem := (fork_tables ?c ch gs ?m)\<lparr>phys_mem := pm, ram := ra\<rparr>, nextPID := nextPID s + 1, tsc_pos := tsc_pos s + 1, tlb := Map.empty\<rparr>"
    have ch: "ch < 10" "ch \<notin> procs s R P" "ch \<noteq> ?c" "ch \<notin> set (R @ P)"
      using queues_tasks [OF kinvD(1) [OF inv]] kinvD(3) [OF inv] a(1) by (auto simp: procs_def)
    have pr: "procs s' R2 P2 = insert ch (procs s R P)"
      using a(2,10) by (auto simp: procs_def requeue_def split: if_splits)
    have t: "tasks s' u = (if u = ch then child_task s ch st else tasks s u)" for u using a(10) by simp
    have c: "dir_pages_baseAddr (child_task s ch st) = Some ch" "kernel_esp (child_task s ch st) = Some (ch, 1005)"
      "brk (child_task s ch st) = brk (tasks s ?c)" "nice (child_task s ch st) = nice (cur_task s)"
      by (simp_all add: child_task_def cur_task_def current_def)
    have "mem_inv ((fork_tables ?c ch gs ?m)\<lparr>phys_mem := pm\<rparr>) (insert ch (procs s R P))
        ((\<lambda>t. npages (brk (tasks s t)))(ch := ?n))"
      using fork_mem_inv [OF mi cur_procs ch(1,2) a(4-6,9,7,8)] .
    moreover have "(\<lambda>t. npages (brk (tasks s t)))(ch := ?n) = (\<lambda>t. npages (brk (tasks s' t)))"
      using t c(3) by (auto simp: fun_eq_iff)
    ultimately have m: "mem_inv (mem s') (insert ch (procs s R P)) (\<lambda>t. npages (brk (tasks s' t)))"
      using a(10) by simp
    have fields: "lists s' = h" "cur s' = ?c" "idle_task s' = idle_task s" "cr3 (mem s') = Some ?c"
      "keyboard_buffer s' = keyboard_buffer s" using a(10) kinvD(7) [OF inv] by simp_all
    obtain i where i: "idle_task s = Some i" "mset (i # ?c # F @ R @ P) = mset [0..<10]"
      using inv by (auto simp: kinv_def)
    have "mset (F' @ R2 @ P2) = mset (F @ R @ P)" using a(1,2) by (auto simp: requeue_def split: if_splits)
    then have i2: "\<exists>i. idle_task s' = Some i \<and> mset (i # cur s' # F' @ R2 @ P2) = mset [0..<10]"
      unfolding fields using i by (metis mset.simps(2))
    have sets: "set R2 \<subseteq> insert ch (set R)" "set P2 \<subseteq> insert ch (set P)"
      "ch \<in> set R2 \<Longrightarrow> nice (cur_task s) \<noteq> 0" "ch \<in> set P2 \<Longrightarrow> nice (cur_task s) = 0"
      using a(2) ch(4) by (auto simp: requeue_def split: if_splits)
    have "\<forall>t \<in> set R2. nice (tasks s' t) \<noteq> 0" "\<forall>t \<in> set P2. nice (tasks s' t) = 0"
      "\<forall>t \<in> set (R2 @ P2). \<exists>k. kernel_esp (tasks s' t) = Some (t, k)"
      "\<forall>t \<in> insert ch (procs s R P). dir_pages_baseAddr (tasks s' t) = Some t \<and> brk_ok (brk (tasks s' t))"
      using inv sets c kinvD(6) [OF inv] unfolding kinv_def t by auto
    then have "kinv s' F' R2 P2"
      unfolding kinv_def pr using a(3) i2 m fields kinvD(9) [OF inv] by simp
    then show ?thesis by blast
  qed
qed

section \<open>sys_exit\<close>

text \<open>The state \<^verbatim>\<open>sys_exit\<close> hands to the scheduler: the pages unmapped, the PID void, the task on the free queue.\<close>

definition exited :: "kernel \<Rightarrow> node lheap \<Rightarrow> frame_map \<Rightarrow> kernel" where
  "exited s h pm = s\<lparr>tasks := (tasks s)(cur s := (cur_task s)\<lparr>PID := -1\<rparr>), lists := h,
     mem := with_entries (cur s) 264 (npages (brk (tasks s (cur s)))) (\<lambda>_. 0) ((mem s)\<lparr>phys_mem := pm\<rparr>)\<rparr>"

lemma exited_simps [simp]:
  "lists (exited s h pm) = h" "cur (exited s h pm) = cur s" "idle_task (exited s h pm) = idle_task s"
  "mem (exited s h pm) = with_entries (cur s) 264 (npages (brk (tasks s (cur s)))) (\<lambda>_. 0) ((mem s)\<lparr>phys_mem := pm\<rparr>)"
  "nice (tasks (exited s h pm) t) = nice (tasks s t)" "brk (tasks (exited s h pm) t) = brk (tasks s t)"
  "dir_pages_baseAddr (tasks (exited s h pm) t) = dir_pages_baseAddr (tasks s t)"
  "kernel_esp (tasks (exited s h pm) t) = kernel_esp (tasks s t)" "stack (tasks (exited s h pm) t) = stack (tasks s t)"
  "quantum (tasks (exited s h pm) t) = quantum (tasks s t)" "keyboard_buffer (exited s h pm) = keyboard_buffer s"
  "nice (cur_task (exited s h pm)) = nice (cur_task s)"
  by (auto simp: exited_def cur_task_def current_def)

lemma sys_exit_run:
  assumes inv: "kinv s F R P" and n: "n = npages (brk (tasks s (cur s)))"
  obtains h pm where "queues h (F @ [cur s]) R P" "frames_ok pm"
      "used_frames pm = used_frames (phys_mem (mem s)) - frames_of (mem s) (cur s) n"
      "sys_exit fp s = sched_next_rr fp (exited s h pm)"
proof -
  let ?c = "cur s" and ?m = "mem s"
  note mi = kinvD(8) [OF inv]
  have fit: "264 + n \<le> 1024" using npages_fit(1) [OF inv] n by simp
  have c10: "?c < 10" using kinvD(2) [OF inv] .
  from mi have eo: "entries_owned ?m" by (simp add: mem_inv_def)
  have ne: "user_page (264 + i) \<and> entry ?m ?c (264 + i) \<noteq> 0" if "i < n" for i
    using mi that n fit cur_procs [of s R P] unfolding mem_inv_def user_page_def by auto
  have gi: "\<forall>i < n. pte_pbase (entry ?m ?c (264 + i)) = word_of_nat (frame_of ?m ?c (264 + i))
      \<and> (frame_of ?m ?c (264 + i) = 0 \<or> frame_of ?m ?c (264 + i) \<in> frame_pool)"
    using entries_ownedD(1,5) [OF eo c10] ne own_pool_bounds by blast
  from unmap_pages_run [OF c10 fit kinvD(11) [OF inv] gi] obtain pm where pm:
    "unmap_pages (row_PT ?m ?c) (word_of_nat 264) n ?m = Some (with_entries ?c 264 n (\<lambda>_. 0) (?m\<lparr>phys_mem := pm\<rparr>))"
    "frames_ok pm" "used_frames pm = used_frames (phys_mem ?m)
      - {frame_of ?m ?c (264 + i) | i. i < n \<and> frame_of ?m ?c (264 + i) \<noteq> 0}" by blast
  have "{frame_of ?m ?c (264 + i) | i. i < n \<and> frame_of ?m ?c (264 + i) \<noteq> 0} = frames_of ?m ?c n"
  proof (intro set_eqI iffI)
    fix f assume "f \<in> frames_of ?m ?c n"
    then obtain p where p: "264 \<le> p" "p < 264 + n" "f = frame_of ?m ?c p" by (auto simp: frames_of_def)
    then have "p - 264 < n" "264 + (p - 264) = p" by auto
    moreover have "f \<noteq> 0" using entries_ownedD(1) [OF eo c10] ne [of "p - 264"] own_pool_bounds [of f] p by auto
    ultimately show "f \<in> {frame_of ?m ?c (264 + i) | i. i < n \<and> frame_of ?m ?c (264 + i) \<noteq> 0}"
      using p(3) by (intro CollectI exI [of _ "p - 264"]) simp
  qed (auto simp: frames_of_def)
  with pm(3) have used: "used_frames pm = used_frames (phys_mem ?m) - frames_of ?m ?c n" by simp
  let ?x = "s\<lparr>mem := with_entries ?c 264 n (\<lambda>_. 0) (?m\<lparr>phys_mem := pm\<rparr>), tasks := (tasks s)(?c := (cur_task s)\<lparr>PID := -1\<rparr>)\<rparr>"
  obtain h where h: "update_process_state_rr ?c (Some FREEQUEUE) ?x = Some (?x\<lparr>lists := h\<rparr>)" "queues h (F @ [?c]) R P"
    using update_process_state_rr_run(1) [of ?x F R P ?c] kinvD(1-3) [OF inv] by auto
  have "?x\<lparr>lists := h\<rparr> = exited s h pm" by (auto simp: exited_def n intro!: kernel.equality)
  moreover have "sys_exit fp s = update_process_state_rr ?c (Some FREEQUEUE) ?x \<bind> sched_next_rr fp"
    using kinv_PT [OF inv cur_procs] pm(1) data_heap_pages_run [OF kinvD(6) [OF inv]] n
    by (simp add: sys_exit_def current_def cur_task_def Let_def with_mem_def upd_task_def)
  ultimately show ?thesis using that h pm(2) used by simp
qed

lemma kinv_exit:
  assumes inv: "kinv s F R P" and run: "sys_exit fp s = Some s'"
  obtains t R' P' where "next_task (nice (cur_task s)) R P = Some (t, R', P')" "cur s' = t" "kinv s' (F @ [cur s]) R' P'"
    "used_frames (phys_mem (mem s')) = used_frames (phys_mem (mem s)) - frames_of (mem s) (cur s) (npages (brk (tasks s (cur s))))"
    "PID (tasks s' (cur s)) = -1" "\<And>u. u \<noteq> cur s \<Longrightarrow> PID (tasks s' u) = PID (tasks s u)"
proof -
  let ?c = "cur s" and ?m = "mem s" and ?n = "npages (brk (tasks s (cur s)))"
  note mi = kinvD(8) [OF inv] and c10 = kinvD(2) [OF inv]
  obtain h pm where e: "queues h (F @ [?c]) R P" "frames_ok pm"
      "used_frames pm = used_frames (phys_mem ?m) - frames_of ?m ?c ?n"
      "sys_exit fp s = sched_next_rr fp (exited s h pm)" by (rule sys_exit_run [OF inv refl])
  let ?x = "exited s h pm"
  obtain t R' P' where nt: "next_task (nice (cur_task s)) R P = Some (t, R', P')"
    using sched_next_rr_stuck [of ?x "F @ [?c]" R P fp] e(1,4) run
    by (cases "next_task (nice (cur_task s)) R P") auto
  have ms: "mset (t # R' @ P') = mset (R @ P)" by (rule next_task_mset [OF nt])
  have sets: "insert t (set R' \<union> set P') = set R \<union> set P" using mset_eq_setD [OF ms] by simp
  have tc: "t \<noteq> ?c" "t \<in> set (R @ P)" using sets kinvD(3) [OF inv] by auto
  obtain k where k: "kernel_esp (tasks s t) = Some (t, k)" using kinvD(4) [OF inv] tc(2) by blast
  obtain h2 st1 st2 q where r: "queues h2 (F @ [?c]) R' P'"
    "s' = switch_to fp t k st1 st2 (?x\<lparr>lists := h2, quantum_ticks := q\<rparr>)"
    using sched_next_rr_switch [of ?x "F @ [?c]" R P t R' P' k fp] e(1,4) nt k tc(1) run by auto
  have nd: "?c \<notin> set R \<union> set P" using kinvD(3) [OF inv] by auto
  have pr: "procs s' R' P' = set R \<union> set P" using sets r(2) by (auto simp: procs_def)
  have fit: "264 + ?n \<le> 1024" using npages_fit(1) [OF inv] by simp
  have eo: "entries_owned ?m" and oi: "owner_inj ?m" and code: "code_frames \<subseteq> used_frames (phys_mem ?m)"
    using mi by (simp_all add: mem_inv_def)
  have ne: "user_page p \<and> entry ?m ?c p \<noteq> 0" if "264 \<le> p" "p < 264 + ?n" for p
    using mi that cur_procs [of s R P] unfolding mem_inv_def user_page_def by auto
  have "mem_inv (mem ?x) (set R \<union> set P) (\<lambda>t. npages (brk (tasks s t)))"
    unfolding exited_simps
  proof (rule mem_inv_with_entries [OF mi c10 _ fit e(2)])
    show "\<forall>u < 10. \<forall>p. user_page p \<longrightarrow> entry ?m u p \<noteq> 0 \<longrightarrow> \<not> (u = ?c \<and> 264 \<le> p \<and> p < 264 + ?n) \<longrightarrow>
        frame_of ?m u p \<in> used_frames pm"
    proof (intro allI impI)
      fix u p assume u: "u < 10" "user_page p" "entry ?m u p \<noteq> 0" "\<not> (u = ?c \<and> 264 \<le> p \<and> p < 264 + ?n)"
      have "frame_of ?m u p \<noteq> frame_of ?m ?c p'" if p': "264 \<le> p'" "p' < 264 + ?n" for p'
        using owner_injD [OF oi u(1) c10 u(2) _ u(3)] ne [OF p'] u(4) p' by blast
      then have "frame_of ?m u p \<notin> frames_of ?m ?c ?n" unfolding frames_of_def by fastforce
      with entries_ownedD(2) [OF eo u(1-3)] show "frame_of ?m u p \<in> used_frames pm" unfolding e(3) by blast
    qed
    show "code_frames \<subseteq> used_frames pm"
      using code entries_ownedD(1) [OF eo c10] ne own_pool_bounds unfolding e(3) frames_of_def by fastforce
  qed (use nd in \<open>auto simp: procs_def\<close>)
  then have m: "mem_inv (mem s') (procs s' R' P') (\<lambda>t. npages (brk (tasks s' t)))"
    unfolding pr by (simp add: r(2))
  obtain i where i: "idle_task s = Some i" "mset (i # ?c # F @ R @ P) = mset [0..<10]"
    using inv by (auto simp: kinv_def)
  have "mset (i # t # (F @ [?c]) @ R' @ P') = add_mset i (add_mset ?c (mset F + mset (t # R' @ P')))" by simp
  also have "\<dots> = mset (i # ?c # F @ R @ P)" unfolding ms by simp
  finally have i1: "mset (i # t # (F @ [?c]) @ R' @ P') = mset [0..<10]" using i(2) by (simp only:)
  have ct: "cur s' = t" "idle_task s' = Some i" using i(1) by (simp_all add: r(2))
  have i2: "\<exists>i. idle_task s' = Some i \<and> mset (i # cur s' # (F @ [?c]) @ R' @ P') = mset [0..<10]"
    unfolding ct(1) using ct(2) i1 by blast
  have fields: "lists s' = h2" "keyboard_buffer s' = keyboard_buffer s" by (simp_all add: r(2))
  have sub: "set R' \<subseteq> set R" "set P' \<subseteq> set P" using next_task_sets [OF nt] by simp_all
  have "\<forall>u \<in> set R'. nice (tasks s' u) \<noteq> 0" "\<forall>u \<in> set P'. nice (tasks s' u) = 0"
    "\<forall>u \<in> set (R' @ P'). \<exists>k. kernel_esp (tasks s' u) = Some (u, k)"
    "\<forall>u \<in> set R \<union> set P. dir_pages_baseAddr (tasks s' u) = Some u \<and> brk_ok (brk (tasks s' u))"
    "cr3 (mem s') = Some t"
    using inv sub nd sets unfolding kinv_def procs_def r(2) by auto
  then have "kinv s' (F @ [?c]) R' P'"
    unfolding kinv_def pr ct(1) using r(1) i2 m [unfolded pr] kinvD(9) [OF inv] ct(1) fields by simp
  then show ?thesis using that [OF nt] r(2) e(3) by (auto simp: exited_def)
qed

section \<open>The handlers\<close>

text \<open>
  The one request after which the tables and the break disagree: a decrement of the break below address
  0, which \<^verbatim>\<open>sys_sbrk\<close> computes modulo \<open>2 ^ 32\<close> and takes for a break above the heap.
\<close>

definition brk_safe :: "DWord \<Rightarrow> kernel \<Rightarrow> bool" where
  "brk_safe n s \<longleftrightarrow> (sint n < 0 \<longrightarrow> 0 \<le> int (unat (brk (cur_task s))) + sint n)"

lemma kinv_sys_call:
  assumes inv: "kinv s F R P" and run: "sys_call fp n ebx ecx edx s = Some (r, s')" and nw: "n = 19 \<Longrightarrow> brk_safe ebx s"
  shows "\<exists>F' R' P'. kinv s' F' R' P'"
proof (cases "n = 1")
  case True
  with run have "sys_exit fp s = Some s'" by (simp add: sys_call_def map_option_case split: option.splits)
  then show ?thesis by (rule kinv_exit [OF inv]) blast
next
  case False
  have sb: "n = 19 \<Longrightarrow> sint ebx < 0 \<Longrightarrow> 0 \<le> int (unat (brk (tasks s (cur s)))) + sint ebx"
    using nw by (simp add: brk_safe_def cur_task_def current_def)
  show ?thesis
  proof (cases "n = 2 \<or> n = 19")
    case True
    with False run obtain x where "n = 2 \<and> sys_fork s = Some (x, s') \<or> n = 19 \<and> sys_sbrk ebx s = Some (x, s')"
      by (auto simp: sys_call_def map_option_case split: if_splits option.splits)
    then show ?thesis using kinv_fork [OF inv] kinv_sbrk [OF inv _ sb] by blast
  next
    case no: False
    with False run obtain x where x: "(if n = 4 then sys_write ebx ecx edx s
        else if n = 10 then sys_gettime s else if n = 15 then sys_get_key ebx s
        else if n = 16 then sys_put_screen ebx s else if n = 17 then sys_set_fps ebx s
        else if n = 18 then sys_fflush s else if n = 20 then sys_getpid s
        else if n = 35 then sys_get_stats ebx ecx s else sys_ni_syscall s) = Some (x, s')"
      unfolding sys_call_def by (simp add: map_option_case split: if_split_asm option.split_asm prod.split_asm)
    have "kinv s' F R P"
    proof (cases "n = 10 \<or> n = 20 \<or> n \<notin> {4, 10, 15, 16, 17, 18, 20, 35}")
      case True
      with x inv show ?thesis by (auto simp: sys_gettime_def sys_getpid_def sys_ni_syscall_def)
    next
      case False
      then consider "n = 4" | "n = 15" | "n = 16" | "n = 17" | "n = 18" | "n = 35" by blast
      then show ?thesis
        by cases (use x kinv_write [OF inv] kinv_get_key [OF inv] kinv_put_screen [OF inv] kinv_set_fps [OF inv]
            kinv_fflush [OF inv] kinv_get_stats [OF inv] in simp_all)
    qed
    then show ?thesis by blast
  qed
qed

lemma kinv_system_call_handler:
  assumes inv: "kinv s F R P" and run: "system_call_handler fp eax ebx ecx edx s = Some (r, s')"
    and nw: "eax = 19 \<Longrightarrow> brk_safe ebx s"
  shows "\<exists>F' R' P'. kinv s' F' R' P'"
proof (cases "sint eax < 0 \<or> sint eax > MAX_SYSCALL")
  case True
  with run inv show ?thesis by (auto simp: system_call_handler_def)
next
  case False
  obtain s1 where s1: "user_to_sys s = Some s1" "kinv s1 F R P" by (rule kinv_user_to_sys [OF inv])
  with run False obtain r2 s2 where s2: "sys_call fp (nat (sint eax)) ebx ecx edx s1 = Some (r2, s2)"
    "sys_to_user_ready s2 = Some s'"
    by (auto simp: system_call_handler_def bind_eq_Some_conv)
  have b: "brk (cur_task s1) = brk (cur_task s)"
    using s1(1) by (auto simp: user_to_sys_run cur_task_def current_def kstat_def)
  have "eax = 19" if "nat (sint eax) = 19"
  proof -
    have "sint eax = sint (19 :: DWord)" using that by simp
    then show ?thesis by (rule signed_word_eqI)
  qed
  then have "brk_safe ebx s1" if "nat (sint eax) = 19" using nw that b by (simp add: brk_safe_def)
  from kinv_sys_call [OF s1(2) s2(1) this] obtain F' R' P' where k: "kinv s2 F' R' P'" by blast
  from k obtain s3 where "sys_to_user_ready s2 = Some s3" "kinv s3 F' R' P'" by (rule kinv_sys_to_user_ready)
  with s2(2) show ?thesis by auto
qed

lemma kinv_clock_handler:
  assumes inv: "kinv s F R P" and run: "clock_handler zsc fp s = Some s'"
  shows "\<exists>R' P'. kinv s' F R' P'"
proof -
  obtain s1 where s1: "user_to_sys s = Some s1" "kinv s1 F R P" by (rule kinv_user_to_sys [OF inv])
  with run obtain s2 where s2: "clock_routine zsc fp s1 = Some s2" "sys_to_user_ready s2 = Some s'"
    by (auto simp: clock_handler_def bind_eq_Some_conv)
  from kinv_clock_routine [OF s1(2) s2(1)] obtain R' P' where k: "kinv s2 F R' P'" by blast
  from k obtain s3 where "sys_to_user_ready s2 = Some s3" "kinv s3 F R' P'" by (rule kinv_sys_to_user_ready)
  with s2(2) show ?thesis by auto
qed

lemma kinv_keyboard_handler:
  assumes inv: "kinv s F R P" and run: "keyboard_handler v s = Some s'"
  shows "kinv s' F R P"
proof -
  obtain s1 where s1: "user_to_sys s = Some s1" "kinv s1 F R P" by (rule kinv_user_to_sys [OF inv])
  with run obtain s2 where s2: "keyboard_routine v s1 = Some s2" "sys_to_user_ready s2 = Some s'"
    by (auto simp: keyboard_handler_def bind_eq_Some_conv)
  from kinv_keyboard [OF s1(2) s2(1)] obtain s3 where "sys_to_user_ready s2 = Some s3" "kinv s3 F R P"
    by (rule kinv_sys_to_user_ready)
  with s2(2) show ?thesis by auto
qed

end
