(* ===== verification/Zeos_Machine.thy ===== *)
theory Zeos_Machine
  imports Zeos_Calls
begin

text \<open>
  The machine as a whole: a step relation over the events that reach the kernel and the stores of the
  running process, the states reachable from a state, the invariant of all of them, and the
  isolation of the processes from each other and of the kernel from the processes.
\<close>

section \<open>Stores through a copy\<close>

text \<open>A property that every single store keeps is kept by the copy routines.\<close>

lemma copy_words_keep:
  assumes "copy_words ld st s p q sz = Some (s', r)" and "Q s" and st: "\<And>s q b s'. Q s \<Longrightarrow> st s q b = Some s' \<Longrightarrow> Q s'"
  shows "Q s'"
  using assms(1,2)
proof (induction "nat sz" arbitrary: s p q sz rule: less_induct)
  case less
  show ?case
  proof (cases "sz > 4")
    case False
    with less.prems show ?thesis by (subst (asm) copy_words.simps) simp
  next
    case True
    with less.prems(1) obtain b0 b1 b2 b3 s1 s2 s3 s4 where
      r: "st s q b0 = Some s1" "st s1 (q + 1) b1 = Some s2" "st s2 (q + 2) b2 = Some s3" "st s3 (q + 3) b3 = Some s4"
      "copy_words ld st s4 (p + 4) (q + 4) (sz - 4) = Some (s', r)"
      by (subst (asm) copy_words.simps) (auto simp: bind_eq_Some_conv)
    have "Q s4" using less.prems(2) st r(1-4) by blast
    from less.hyps [OF _ r(5) this] True show ?thesis by simp
  qed
qed

lemma copy_bytes_keep:
  assumes "copy_bytes ld st s p q sz = Some s'" and "Q s" and st: "\<And>s q b s'. Q s \<Longrightarrow> st s q b = Some s' \<Longrightarrow> Q s'"
  shows "Q s'"
  using assms(1,2)
proof (induction "nat sz" arbitrary: s p q sz rule: less_induct)
  case less
  show ?case
  proof (cases "sz > 0")
    case False
    with less.prems show ?thesis by (subst (asm) copy_bytes.simps) simp
  next
    case True
    with less.prems(1) obtain b s1 where
      r: "st s q b = Some s1" "copy_bytes ld st s1 (p + 1) (q + 1) (sz - 1) = Some s'"
      by (subst (asm) copy_bytes.simps) (auto simp: bind_eq_Some_conv)
    from less.hyps [OF _ r(2) st [OF less.prems(2) r(1)]] True show ?thesis by simp
  qed
qed

lemma copy_to_user_keep:
  assumes "copy_to_user ld st p q sz s = Some (r, s')" and "Q s" and "\<And>s q b s'. Q s \<Longrightarrow> st s q b = Some s' \<Longrightarrow> Q s'"
  shows "Q s'"
  using assms copy_words_keep [of ld st s p q sz _ _ Q] copy_bytes_keep [of ld st _ _ _ _ s' Q]
  by (auto simp: copy_to_user_def bind_eq_Some_conv)

lemma store_user_ram:
  assumes "store_user bs q s = Some s'"
  obtains r where "s' = s\<lparr>mem := (mem s)\<lparr>ram := r\<rparr>\<rparr>" and "\<forall>a. (\<forall>v. user_map (mem s) v \<noteq> Some a) \<longrightarrow> r a = ram (mem s) a"
proof -
  from assms obtain x r where r: "copy_to_user (obj_ld bs) (user_st (user_map (mem s))) 0 q (int (length bs)) (ram (mem s)) = Some (x, r)"
    "s' = s\<lparr>mem := (mem s)\<lparr>ram := r\<rparr>\<rparr>"
    by (auto simp: store_user_def bind_eq_Some_conv)
  have "\<forall>a. (\<forall>v. user_map (mem s) v \<noteq> Some a) \<longrightarrow> r a = ram (mem s) a"
    by (rule copy_to_user_keep [OF r(1), of "\<lambda>m. \<forall>a. (\<forall>v. user_map (mem s) v \<noteq> Some a) \<longrightarrow> m a = ram (mem s) a"])
      (auto simp: user_st_def)
  with that r(2) show ?thesis by blast
qed

section \<open>What a process reads\<close>

text \<open>The byte task \<open>t\<close> reads at a virtual address, through its own page table.\<close>

definition reads :: "mm \<Rightarrow> nat \<Rightarrow> DWord \<Rightarrow> Byte option" where
  "reads m t va = map_option (ram m) (translate (m\<lparr>cr3 := Some t\<rparr>) va)"

definition page_of :: "DWord \<Rightarrow> nat" where
  "page_of va = unat (drop_bit 12 va)"

lemma page_of_less: "drop_bit 22 va = 0 \<Longrightarrow> page_of va < 1024"
proof -
  assume "drop_bit 22 va = 0"
  then have "unat (drop_bit 22 va) = 0" by simp
  then have "unat va div 2 ^ 22 = 0" by (simp add: drop_bit_eq_div unat_div)
  then have "unat va < 2 ^ 22" by (simp add: div_eq_0_iff)
  then show ?thesis by (simp add: page_of_def drop_bit_eq_div unat_div)
qed

lemma translate_table:
  assumes "tables_ok m" and "t < 10"
  shows "translate (m\<lparr>cr3 := Some t\<rparr>) va = (if drop_bit 22 va = 0 \<and> pte_present (entry m t (page_of va))
     then Some (phys_addr (pte_pbase (entry m t (page_of va))) va) else None)"
  using translate_run [of "m\<lparr>cr3 := Some t\<rparr>" t va] assms
  by (simp add: Let_def entry_def page_of_def phys_addr_def)

lemma reads_table:
  assumes "tables_ok m" and "t < 10"
  shows "reads m t va = (if drop_bit 22 va = 0 \<and> pte_present (entry m t (page_of va))
     then Some (ram m (phys_addr (pte_pbase (entry m t (page_of va))) va)) else None)"
  using translate_table [OF assms] by (simp add: reads_def)

text \<open>The frame of a translated address.\<close>

lemma pbase_small: "take_bit 20 (pte_pbase e) = pte_pbase e"
  unfolding pte_pbase_def by (rule bit_word_eqI) (auto simp: bit_simps dest: bit_imp_le_length)

lemma unat_frame: "f < 2 ^ 20 \<Longrightarrow> unat (word_of_nat f :: DWord) = f"
  by (simp add: unat_of_nat take_bit_eq_mod)

lemma pbase_kernel_pte [simp]: "pte_pbase (kernel_pte f) = take_bit 20 f"
  unfolding pte_pbase_def kernel_pte_def by (rule bit_word_eqI) (auto simp: bit_simps)

lemma translate_frame:
  assumes "tables_ok m" and "cr3 m = Some t" and "t < 10" and "translate m va = Some pa"
  shows "page_of va < 1024" and "pte_present (entry m t (page_of va))" and "drop_bit 12 pa = pte_pbase (entry m t (page_of va))"
proof -
  have "m\<lparr>cr3 := Some t\<rparr> = m" using assms(2) by (auto intro!: mm.equality)
  with translate_table [OF assms(1,3), of va] assms(4) have "drop_bit 22 va = 0" "pte_present (entry m t (page_of va))"
    "pa = phys_addr (pte_pbase (entry m t (page_of va))) va" by (auto split: if_splits)
  then show "page_of va < 1024" "pte_present (entry m t (page_of va))" "drop_bit 12 pa = pte_pbase (entry m t (page_of va))"
    using page_of_less by (simp_all add: phys_addr_frame pbase_small)
qed

lemma code_frames_even: "i < 8 \<Longrightarrow> 256 + 2 * i \<in> code_frames"
proof -
  assume "i < 8"
  then consider "i = 0" | "i = 1" | "i = 2" | "i = 3" | "i = 4" | "i = 5" | "i = 6" | "i = 7" by linarith
  then show ?thesis by cases (simp_all add: code_frames_def)
qed

lemma boot_entry_present: "pte_present (boot_entry p) \<Longrightarrow> boot_entry p = kernel_pte (word_of_nat p)"
  by (cases "1 \<le> p \<and> p < 256") (auto simp: boot_entry_def)

text \<open>The current process translates no address into a frame that another task owns.\<close>

lemma other_frame:
  assumes inv: "kinv s F R P" and u: "u < 10" "u \<noteq> cur s" "user_page p" "entry (mem s) u p \<noteq> 0"
    and tr: "translate (mem s) va = Some a"
  shows "drop_bit 12 a \<noteq> word_of_nat (frame_of (mem s) u p)"
proof
  let ?m = "mem s" and ?c = "cur s" and ?p = "page_of va"
  assume e: "drop_bit 12 a = (word_of_nat (frame_of ?m u p) :: DWord)"
  note mi = kinvD(8) [OF inv]
  have c: "?c < 10" and eo: "entries_owned ?m" and oi: "owner_inj ?m" and ko: "kernel_ok ?m" and co: "code_ok ?m ?c"
    using kinvD(2) [OF inv] mi cur_procs [of s R P] by (auto simp: mem_inv_def)
  note t = translate_frame [OF kinvD(10,7) [OF inv] c tr]
  have own: "frame_of ?m u p \<in> own_pool" using entries_ownedD(1) [OF eo u(1,3,4)] .
  then have "unat (pte_pbase (entry ?m ?c ?p)) = frame_of ?m u p"
    using e t(3) own_pool_bounds [OF own] unat_frame by metis
  then have f: "frame_of ?m ?c ?p = frame_of ?m u p" by (simp add: frame_of_def)
  consider "?p < 256" | "256 \<le> ?p" "?p < 264" | "264 \<le> ?p" by linarith
  then show False
  proof cases
    case 1
    then have "entry ?m ?c ?p = boot_entry ?p" using ko c by (simp add: kernel_ok_def)
    with t(2) have "entry ?m ?c ?p = kernel_pte (word_of_nat ?p)" using boot_entry_present by metis
    moreover have "take_bit 20 (word_of_nat ?p :: DWord) = word_of_nat ?p"
      unfolding take_bit_of_nat using 1 by (subst take_bit_nat_eq_self) simp_all
    ultimately have "frame_of ?m ?c ?p = ?p" using 1 unat_frame [of ?p] by (simp add: frame_of_def)
    then have "frame_of ?m u p < 256" using f 1 by linarith
    with own_pool_bounds [OF own] show False by linarith
  next
    case 2
    define i where "i = ?p - 256"
    have i: "?p = 256 + i" "i < 8" using 2 by (simp_all add: i_def)
    have "pte_pbase (entry ?m ?c ?p) = word_of_nat (256 + 2 * i)"
      using co i(2) unfolding i(1) code_ok_def by blast
    then have "frame_of ?m ?c ?p = 256 + 2 * i" using i(2) unat_frame [of "256 + 2 * i"] by (simp add: frame_of_def)
    moreover have "256 + 2 * i \<in> code_frames"
      by (rule code_frames_even [OF i(2)])
    ultimately show False using f own own_pool_bounds by metis
  next
    case 3
    then have "user_page ?p" using t(1) by (simp add: user_page_def)
    moreover have "entry ?m ?c ?p \<noteq> 0" using t(2) by auto
    ultimately show False using owner_injD [OF oi u(1) c u(3) _ u(4) _ f [symmetric]] u(2) by blast
  qed
qed

section \<open>Isolation\<close>

text \<open>From \<open>m\<close> to \<open>m'\<close>, task \<open>u\<close> keeps its data and heap: the entries and the frames behind them.\<close>

definition untouched :: "nat \<Rightarrow> mm \<Rightarrow> mm \<Rightarrow> bool" where
  "untouched u m m' \<longleftrightarrow> (\<forall>p. user_page p \<longrightarrow> entry m' u p = entry m u p \<and>
     (entry m u p \<noteq> 0 \<longrightarrow> (\<forall>a. drop_bit 12 a = word_of_nat (frame_of m u p) \<longrightarrow> ram m' a = ram m a)))"

lemma untouched_refl [simp]: "untouched u m m"
  by (simp add: untouched_def)

lemma untouched_trans: "untouched u m m' \<Longrightarrow> untouched u m' m'' \<Longrightarrow> untouched u m m''"
  by (auto simp: untouched_def frame_of_def)

lemma untouched_upd [simp]:
  "untouched u m (m'\<lparr>cr3 := c\<rparr>) = untouched u m m'" "untouched u m (m'\<lparr>phys_mem := pm\<rparr>) = untouched u m m'"
  by (simp_all add: untouched_def)

text \<open>New entries in another table.\<close>

lemma untouched_with_entries:
  "t \<noteq> u \<Longrightarrow> p + n \<le> 1024 \<Longrightarrow> untouched u m (with_entries t p n e m') = untouched u m m'"
  by (auto simp: untouched_def user_page_def entry_with_entries)

text \<open>A new content that differs only where the current process can write.\<close>

lemma untouched_ram:
  assumes inv: "kinv s F R P" and u: "u < 10" "u \<noteq> cur s"
    and r: "\<And>a. (\<And>v. translate (mem s) v \<noteq> Some a) \<Longrightarrow> r a = ram (mem s) a"
  shows "untouched u (mem s) ((mem s)\<lparr>ram := r\<rparr>)"
  using other_frame [OF inv u] r unfolding untouched_def by simp blast

lemma user_map_translate: "user_map m v = Some a \<Longrightarrow> translate m v = Some a"
  by (auto simp: user_map_def bind_eq_Some_conv split: if_splits)

lemma untouched_store_user:
  assumes "kinv s F R P" and "u < 10" "u \<noteq> cur s" and "store_user bs q s = Some s'"
  shows "untouched u (mem s) (mem s')"
proof -
  from assms(4) obtain r where r: "s' = s\<lparr>mem := (mem s)\<lparr>ram := r\<rparr>\<rparr>"
    "\<forall>a. (\<forall>v. user_map (mem s) v \<noteq> Some a) \<longrightarrow> r a = ram (mem s) a" by (rule store_user_ram)
  have "untouched u (mem s) ((mem s)\<lparr>ram := r\<rparr>)"
    using user_map_translate r(2) by (intro untouched_ram [OF assms(1-3)]) blast
  then show ?thesis by (simp add: r(1))
qed

lemma untouched_user_store:
  assumes "kinv s F R P" and "u < 10" "u \<noteq> cur s" and "user_store va b s = Some s'"
  shows "untouched u (mem s) (mem s')"
proof -
  from assms(4) obtain a where a: "translate (mem s) va = Some a" "s' = s\<lparr>mem := (mem s)\<lparr>ram := (ram (mem s))(a := b)\<rparr>\<rparr>"
    by (auto simp: user_store_def bind_eq_Some_conv split: if_splits)
  have "untouched u (mem s) ((mem s)\<lparr>ram := (ram (mem s))(a := b)\<rparr>)"
    using a(1) by (intro untouched_ram [OF assms(1-3)]) auto
  then show ?thesis by (simp add: a(2))
qed

lemma untouched_get_key:
  assumes inv: "kinv s F R P" and u: "u < 10" "u \<noteq> cur s" and run: "sys_get_key c s = Some (r, s')"
  shows "untouched u (mem s) (mem s')"
proof (cases "c = 0")
  case True
  with run show ?thesis by (simp add: sys_get_key_def)
next
  case False
  with run obtain ret aux b where b: "circular_read (keyboard_buffer s) = Some (ret, aux, b)"
    "store_user [aux] c (s\<lparr>keyboard_buffer := b\<rparr>) = Some s'"
    by (auto simp: sys_get_key_def Let_def bind_eq_Some_conv)
  have "kinv (s\<lparr>keyboard_buffer := b\<rparr>) F R P"
    using circular_read_wf [OF kinvD(9) [OF inv] b(1)] by (intro kinv_frame [OF inv, of _ "ram (mem s)"]) simp_all
  from untouched_store_user [OF this, of u] b(2) u show ?thesis by simp
qed

lemma untouched_get_stats:
  assumes inv: "kinv s F R P" and u: "u < 10" "u \<noteq> cur s" and run: "sys_get_stats pid st s = Some (r, s')"
  shows "untouched u (mem s) (mem s')"
proof (cases "access_ok VERIFY_WRITE st 28 = 0 \<or> sint pid < 0 \<or> get_task s pid = None")
  case True
  with run show ?thesis by (auto simp: sys_get_stats_def split: if_splits)
next
  case False
  then obtain t where t: "get_task s pid = Some t" by blast
  let ?s = "upd_stat t (\<lambda>st. st\<lparr>remaining_ticks := quantum_ticks s\<rparr>) s"
  have "kinv ?s F R P" by (intro kinv_frame_same_mem [OF inv]) (simp_all add: upd_stat_def upd_task_def)
  moreover from run False t have "store_user (stats_bytes (estat (tasks ?s t))) st ?s = Some s'"
    by (auto simp: sys_get_stats_def Let_def bind_eq_Some_conv split: if_splits)
  moreover have "mem ?s = mem s" "cur ?s = cur s" by (simp_all add: upd_stat_def upd_task_def)
  ultimately show ?thesis using untouched_store_user [of ?s F R P u] u by simp
qed

lemma untouched_fork:
  assumes inv: "kinv s F R P" and u: "u \<in> procs s R P" "u \<noteq> cur s" and run: "sys_fork s = Some (r, s')"
  shows "untouched u (mem s) (mem s')"
proof (rule sys_fork_cases [OF inv run refl])
  fix ch F' h pm gs ra st R2 P2 assume a: "F = ch # F'"
    "length gs = npages (brk (tasks s (cur s)))" "set gs \<subseteq> own_pool - used_frames (phys_mem (mem s))"
    "264 + 2 * npages (brk (tasks s (cur s))) \<le> 1024"
    "\<forall>a. drop_bit 12 a \<notin> word_of_nat ` set gs \<longrightarrow> ra a = ram (mem s) a"
    "s' = s\<lparr>tasks := (tasks s)(ch := child_task s ch st), lists := h,
      mem := (fork_tables (cur s) ch gs (mem s))\<lparr>phys_mem := pm, ram := ra\<rparr>, nextPID := nextPID s + 1,
      tsc_pos := tsc_pos s + 1, tlb := Map.empty\<rparr>"
  have ne: "u \<noteq> ch" "ch \<noteq> cur s" "u < 10"
    using u queues_tasks [OF kinvD(1) [OF inv]] kinvD(2,3) [OF inv] a(1) by (auto simp: procs_def)
  have eo: "entries_owned (mem s)" using kinvD(8) [OF inv] by (simp add: mem_inv_def)
  have "drop_bit 12 a \<notin> word_of_nat ` set gs"
    if p: "user_page p" "entry (mem s) u p \<noteq> 0" and e: "drop_bit 12 a = (word_of_nat (frame_of (mem s) u p) :: DWord)" for p a
  proof
    assume "drop_bit 12 a \<in> (word_of_nat ` set gs :: DWord set)"
    then obtain g where g: "g \<in> set gs" "(word_of_nat g :: DWord) = word_of_nat (frame_of (mem s) u p)" using e by auto
    have "g = frame_of (mem s) u p"
      using g word_frame_eq own_pool_bounds [of g] own_pool_bounds [OF entries_ownedD(1) [OF eo ne(3) p]] a(3) by blast
    with entries_ownedD(2) [OF eo ne(3) p] g(1) a(3) show False by blast
  qed
  moreover have "entry (mem s') u p = entry (mem s) u p" if "user_page p" for p
    using that u(2) ne(1,2) a(2,4) by (simp add: a(6) entry_fork_tables user_page_def)
  ultimately show ?thesis using a(5) by (simp add: untouched_def a(6))
qed simp_all

lemma untouched_exit:
  assumes inv: "kinv s F R P" and u: "u \<noteq> cur s" and run: "sys_exit fp s = Some s'"
  shows "untouched u (mem s) (mem s')"
proof -
  obtain h pm where e: "queues h (F @ [cur s]) R P" "sys_exit fp s = sched_next_rr fp (exited s h pm)"
    by (rule sys_exit_run [OF inv refl]) blast
  have fit: "264 + npages (brk (tasks s (cur s))) \<le> 1024" using npages_fit(1) [OF inv] by simp
  show ?thesis
  proof (cases "next_task (nice (cur_task s)) R P")
    case None
    then have "sched_next_rr fp (exited s h pm) = None" using e(1) by (intro sched_next_rr_stuck) simp_all
    with run e(2) show ?thesis by simp
  next
    case (Some x)
    then obtain t R' P' where nt: "next_task (nice (cur_task s)) R P = Some (t, R', P')" by (cases x) auto
    have "t \<in> set (R @ P)" using mset_eq_setD [OF next_task_mset [OF nt]] by auto
    then have k: "t \<noteq> cur s" "\<exists>k. kernel_esp (tasks s t) = Some (t, k)" using kinvD(3,4) [OF inv] by auto
    then obtain k h2 st1 st2 q where "s' = switch_to fp t k st1 st2 ((exited s h pm)\<lparr>lists := h2, quantum_ticks := q\<rparr>)"
      using sched_next_rr_switch [of "exited s h pm" "F @ [cur s]" R P t R' P' _ fp] e nt run by auto
    then show ?thesis using u fit by (simp add: untouched_with_entries)
  qed
qed

lemma untouched_sbrk:
  assumes inv: "kinv s F R P" and u: "u \<noteq> cur s" and run: "sys_sbrk n s = Some (r, s')"
    and nw: "sint n < 0 \<Longrightarrow> 0 \<le> int (unat (brk (tasks s (cur s)))) + sint n"
  shows "untouched u (mem s) (mem s')"
proof (rule sys_sbrk_cases [OF inv run refl nw])
  fix dest pm assume a: "unat dest \<le> unat (brk (tasks s (cur s)))" "top_page (brk (tasks s (cur s))) \<le> 1024"
    "s' = upd_task (cur s) (\<lambda>p. p\<lparr>brk := dest\<rparr>) (s\<lparr>mem := with_entries (cur s) (264 + npages dest)
        (top_page (brk (tasks s (cur s))) - (264 + npages dest)) (\<lambda>_. 0) ((mem s)\<lparr>phys_mem := pm\<rparr>)\<rparr>)"
  have "264 + npages dest \<le> top_page (brk (tasks s (cur s)))"
    using npages_mono(1) [OF a(1)] npages_top(1) [of "brk (tasks s (cur s))"] by simp
  then show ?thesis using u a(2) by (simp add: a(3) upd_task_def untouched_with_entries)
qed (use u in \<open>auto simp: upd_task_def untouched_with_entries\<close>)

lemma schedule_mem:
  assumes inv: "kinv s F R P" and run: "schedule fp s = Some s'"
  shows "\<exists>c. mem s' = (mem s)\<lparr>cr3 := c\<rparr>"
proof -
  have same: "\<exists>c. mem s = (mem s)\<lparr>cr3 := c\<rparr>" by (rule exI [of _ "cr3 (mem s)"]) simp
  obtain R2 P2 where rq: "requeue (nice (cur_task s)) (cur s) R P = (R2, P2)" by fastforce
  show ?thesis
    by (rule schedule_cases [OF kinvD(1-4) [OF inv] rq, of fp]) (use run same in auto)
qed

lemma put_screen_mem: "sys_put_screen a s = Some (r, s') \<Longrightarrow> mem s' = mem s"
  by (auto simp: sys_put_screen_def show_screen_def bind_eq_Some_conv split: if_splits)

lemma clock_routine_mem:
  assumes inv: "kinv s F R P" and run: "clock_routine zsc fp s = Some s'"
  shows "\<exists>c. mem s' = (mem s)\<lparr>cr3 := c\<rparr>"
proof -
  define s1 where "s1 = s\<lparr>scr := zsc (zeos_ticks s) (scr s), zeos_ticks := zeos_ticks s + 1\<rparr>"
  have k1: "kinv s1 F R P" using inv by (simp add: s1_def)
  from run obtain s2 where s2: "schedule_fps s1 = Some s2" "schedule fp s2 = Some s'"
    by (auto simp: clock_routine_def Let_def s1_def bind_eq_Some_conv)
  have "mem s2 = mem s1" using s2(1) by (auto simp: schedule_fps_def Let_def dest!: put_screen_mem split: if_splits)
  with schedule_mem [OF kinv_schedule_fps [OF k1 s2(1)] s2(2)] show ?thesis by (simp add: s1_def)
qed

lemma untouched_sys_call:
  assumes inv: "kinv s F R P" and u: "u \<in> procs s R P" "u \<noteq> cur s"
    and run: "sys_call fp n ebx ecx edx s = Some (r, s')" and nw: "n = 19 \<Longrightarrow> brk_safe ebx s"
  shows "untouched u (mem s) (mem s')"
proof (cases "n = 1")
  case True
  with run have "sys_exit fp s = Some s'" by (simp add: sys_call_def map_option_case split: option.splits)
  then show ?thesis by (rule untouched_exit [OF inv u(2)])
next
  case False
  have u10: "u < 10" using kinvD(8) [OF inv] u(1) by (simp add: mem_inv_def)
  have sb: "n = 19 \<Longrightarrow> sint ebx < 0 \<Longrightarrow> 0 \<le> int (unat (brk (tasks s (cur s)))) + sint ebx"
    using nw by (simp add: brk_safe_def cur_task_def current_def)
  from False run obtain x where x: "(if n = 2 then sys_fork s else if n = 4 then sys_write ebx ecx edx s
      else if n = 10 then sys_gettime s else if n = 15 then sys_get_key ebx s
      else if n = 16 then sys_put_screen ebx s else if n = 17 then sys_set_fps ebx s
      else if n = 18 then sys_fflush s else if n = 19 then sys_sbrk ebx s else if n = 20 then sys_getpid s
      else if n = 35 then sys_get_stats ebx ecx s else sys_ni_syscall s) = Some (x, s')"
    unfolding sys_call_def by (simp add: map_option_case split: if_split_asm option.split_asm prod.split_asm)
  show ?thesis
  proof (cases "n = 10 \<or> n = 20 \<or> n \<notin> {2, 4, 10, 15, 16, 17, 18, 19, 20, 35}")
    case True
    with x show ?thesis by (auto simp: sys_gettime_def sys_getpid_def sys_ni_syscall_def)
  next
    case False
    have w: "mem s' = mem s" if "sys_write ebx ecx edx s = Some (x, s')" using write_screen [OF that] by auto
    have f: "mem s' = mem s" if "sys_fflush s = Some (x, s')" using that by (auto simp: sys_fflush_def bind_eq_Some_conv)
    have p: "mem s' = mem s" if "sys_set_fps ebx s = Some (x, s')"
      using that by (auto simp: sys_set_fps_def Let_def upd_task_def split: if_splits)
    from False consider "n = 2" | "n = 4" | "n = 15" | "n = 16" | "n = 17" | "n = 18" | "n = 19" | "n = 35" by blast
    then show ?thesis
      by cases (use x w f p put_screen_mem untouched_fork [OF inv u] untouched_get_key [OF inv u10 u(2)]
          untouched_get_stats [OF inv u10 u(2)] untouched_sbrk [OF inv u(2) _ sb] in simp_all)
  qed
qed

lemma handler_mem:
  "user_to_sys s = Some s' \<Longrightarrow> mem s' = mem s \<and> cur s' = cur s \<and> brk (cur_task s') = brk (cur_task s)"
  "sys_to_user_ready s = Some s' \<Longrightarrow> mem s' = mem s \<and> cur s' = cur s"
  by (auto simp: user_to_sys_run sys_to_user_ready_run cur_task_def current_def)

lemma untouched_system_call_handler:
  assumes inv: "kinv s F R P" and u: "u \<in> procs s R P" "u \<noteq> cur s"
    and run: "system_call_handler fp eax ebx ecx edx s = Some (r, s')" and nw: "eax = 19 \<Longrightarrow> brk_safe ebx s"
  shows "untouched u (mem s) (mem s')"
proof (cases "sint eax < 0 \<or> sint eax > MAX_SYSCALL")
  case True
  with run show ?thesis by (auto simp: system_call_handler_def)
next
  case False
  obtain s1 where s1: "user_to_sys s = Some s1" "kinv s1 F R P" by (rule kinv_user_to_sys [OF inv])
  with run False obtain r2 s2 where s2: "sys_call fp (nat (sint eax)) ebx ecx edx s1 = Some (r2, s2)"
    "sys_to_user_ready s2 = Some s'"
    by (auto simp: system_call_handler_def bind_eq_Some_conv)
  note h1 = handler_mem(1) [OF s1(1)] and h2 = handler_mem(2) [OF s2(2)]
  have "eax = 19" if "nat (sint eax) = 19"
  proof -
    have "sint eax = sint (19 :: DWord)" using that by simp
    then show ?thesis by (rule signed_word_eqI)
  qed
  then have "brk_safe ebx s1" if "nat (sint eax) = 19" using nw that h1 by (simp add: brk_safe_def)
  from untouched_sys_call [OF s1(2) _ _ s2(1) this, of u] h1 h2 u show ?thesis by (simp add: procs_def)
qed

section \<open>Steps of the machine\<close>

text \<open>
  One step: a clock or keyboard interrupt, a system call, a store of the running process. A call of
  \<^verbatim>\<open>sbrk\<close> below address 0 is left out (\<open>brk_safe\<close>).
\<close>

inductive zeos_step :: "(DWord \<Rightarrow> screen \<Rightarrow> screen) \<Rightarrow> event \<Rightarrow> kernel \<Rightarrow> kernel \<Rightarrow> bool" for zsc where
  clock: "clock_handler zsc fp s = Some s' \<Longrightarrow> zeos_step zsc (Clock fp) s s'"
| key: "keyboard_handler v s = Some s' \<Longrightarrow> zeos_step zsc (Key v) s s'"
| syscall: "system_call_handler fp eax ebx ecx edx s = Some (r, s') \<Longrightarrow> (eax = 19 \<Longrightarrow> brk_safe ebx s) \<Longrightarrow>
    zeos_step zsc (Syscall fp eax ebx ecx edx) s s'"
| store: "user_store va b s = Some s' \<Longrightarrow> zeos_step zsc (Store va b) s s'"

inductive_cases clock_stepE [elim!]: "zeos_step zsc (Clock fp) s s'"
inductive_cases key_stepE [elim!]: "zeos_step zsc (Key v) s s'"
inductive_cases syscall_stepE [elim!]: "zeos_step zsc (Syscall fp eax ebx ecx edx) s s'"
inductive_cases store_stepE [elim!]: "zeos_step zsc (Store va b) s s'"

inductive_simps store_step_iff: "zeos_step zsc (Store va b) s s'"

lemma zeos_step_handle:
  "zeos_step zsc e s s' \<Longrightarrow> handle zsc e s = Some s'"
  by (induction rule: zeos_step.induct) simp_all

inductive zeos_run :: "(DWord \<Rightarrow> screen \<Rightarrow> screen) \<Rightarrow> kernel \<Rightarrow> kernel \<Rightarrow> bool" for zsc where
  none: "zeos_run zsc s s"
| more: "zeos_run zsc s s' \<Longrightarrow> zeos_step zsc e s' s'' \<Longrightarrow> zeos_run zsc s s''"

lemma step_keeps_kinv:
  assumes "zeos_step zsc e s s'" and "kinv s F R P"
  shows "\<exists>F' R' P'. kinv s' F' R' P'"
  using assms
proof (induction rule: zeos_step.induct)
  case (clock fp s s')
  from kinv_clock_handler [OF clock.prems clock.hyps] show ?case by blast
next
  case (key v s s')
  from kinv_keyboard_handler [OF key.prems key.hyps] show ?case by blast
next
  case (syscall fp eax ebx ecx edx s r s')
  then show ?case using kinv_system_call_handler by blast
next
  case (store va b s s')
  from kinv_user_store [OF store.prems store.hyps] show ?case by blast
qed

lemma run_keeps_kinv:
  assumes "zeos_run zsc s s'" and "kinv s F R P"
  shows "\<exists>F' R' P'. kinv s' F' R' P'"
  using assms
proof (induction rule: zeos_run.induct)
  case (more s s' e s'')
  then show ?case using step_keeps_kinv by blast
qed blast

lemma step_untouched:
  assumes "zeos_step zsc e s s'" and "kinv s F R P" and "u \<in> procs s R P" and "u \<noteq> cur s"
  shows "untouched u (mem s) (mem s')"
  using assms
proof (induction rule: zeos_step.induct)
  case (clock fp s s')
  obtain s1 where s1: "user_to_sys s = Some s1" "kinv s1 F R P" by (rule kinv_user_to_sys [OF clock.prems(1)])
  with clock.hyps obtain s2 where s2: "clock_routine zsc fp s1 = Some s2" "sys_to_user_ready s2 = Some s'"
    by (auto simp: clock_handler_def bind_eq_Some_conv)
  from clock_routine_mem [OF s1(2) s2(1)] handler_mem(1) [OF s1(1)] handler_mem(2) [OF s2(2)] show ?case by auto
next
  case (key v s s')
  then have "mem s' = mem s"
    by (auto simp: keyboard_handler_def keyboard_routine_def Let_def bind_eq_Some_conv
        dest!: handler_mem split: if_splits)
  then show ?case by simp
next
  case (syscall fp eax ebx ecx edx s r s')
  then show ?case using untouched_system_call_handler by blast
next
  case (store va b s s')
  have "u < 10" using kinvD(8) [OF store.prems(1)] store.prems(2) by (simp add: mem_inv_def)
  then show ?case using untouched_user_store store by blast
qed

end
