(* ===== verification/Zeos_Boot.thy ===== *)
theory Zeos_Boot
  imports Zeos_Machine
begin

text \<open>
  Start-up: \<^verbatim>\<open>main\<close> of \<^verbatim>\<open>system.c\<close> from the state the boot loader leaves to the first
  instruction of the first process. The boot sequence establishes the invariant, and so
  every state the machine reaches from it satisfies the invariant.
\<close>

section \<open>Strings\<close>

definition cstr :: "string \<Rightarrow> Byte list" where
  "cstr xs = map of_char xs @ [0]"

section \<open>The boot sequence\<close>

text \<open>
  \<^verbatim>\<open>main\<close> of \<^verbatim>\<open>system.c\<close>. \<open>img\<close> is the user program, which the boot loader puts behind the kernel, \<open>rdtr\<close> the word \<^verbatim>\<open>*p_rdtr\<close>,
  which \<^verbatim>\<open>return_gate\<close> stores above the user's stack before it leaves the kernel. The first entry from user mode takes its
  stack from the TSS, so the current task is the one \<^verbatim>\<open>esp0\<close> points into.
\<close>

definition boot_tables :: "(idt \<Rightarrow> idt) \<Rightarrow> kernel \<Rightarrow> kernel" where
  "boot_tables set_handlers s =
    (let (r, t) = setGdt (sym_gdt s) (sym_tss s) (gdt s);
         s = s\<lparr>gdtR := r, gdt := t, cpu := set_gdt_reg r (cpu s)\<rparr>;
         (r, (cs, e, eip), t) = setIdt set_handlers (sym_idt s) (sym_clock_handler s) (sym_keyboard_handler s)
           (sym_system_call_handler s) (sym_syscall_handler_sysenter s) (KERNEL_ESP 1) (idt s);
         s = s\<lparr>idtR := r, msr_cs := cs, msr_esp := Some e, msr_eip := eip, idt := t, cpu := set_idt_reg r (cpu s)\<rparr>
     in s\<lparr>tss_esp0 := Some (KERNEL_ESP 1), tss := fst setTSS, cpu := set_task_reg (snd setTSS) (cpu s)\<rparr>)"

definition return_gate :: "Word16 \<Rightarrow> Word16 \<Rightarrow> DWord \<Rightarrow> Word16 \<Rightarrow> DWord \<Rightarrow> DWord \<Rightarrow> kernel \<Rightarrow> kernel option" where
  "return_gate ds ss esp cs eip rdtr s = do {
     let c = (cpu s)\<lparr>seg_es := ds, seg_ds := ds\<rparr>;
     r \<leftarrow> put_bytes (user_st (user_map (mem s))) (ram (mem s)) (esp + 12) (dword_bytes rdtr);
     c \<leftarrow> far_return (gdt s) ss esp cs eip c;
     Some (s\<lparr>cpu := c, mem := (mem s)\<lparr>ram := r\<rparr>\<rparr>) }"

definition zeos_main :: "(idt \<Rightarrow> idt) \<Rightarrow> Byte list \<Rightarrow> DWord \<Rightarrow> kernel \<Rightarrow> kernel option" where
  "zeos_main set_handlers img rdtr s = do {
     let s = s\<lparr>cpu := set_eflags (cpu s)\<rparr>;
     let s = s\<lparr>cpu := set_seg_regs KERNEL_DS KERNEL_DS (task_addr (sym_task s) 4) (cpu s)\<rparr>;
     d \<leftarrow> printk (cstr ''Kernel Loaded!    '') (scr s);
     let s = s\<lparr>scr := d\<rparr>;
     let s = boot_tables set_handlers s;
     s \<leftarrow> init_mm s;
     s \<leftarrow> init_sched s;
     s \<leftarrow> init_idle s;
     s \<leftarrow> init_task1 s;
     b \<leftarrow> circular_init (keyboard_buffer s);
     let s = s\<lparr>keyboard_buffer := b\<rparr>;
     r \<leftarrow> copy_data (obj_ld img) (user_st (user_map (mem s))) 0 L_USER_START (int (length img)) (ram (mem s));
     let s = s\<lparr>mem := (mem s)\<lparr>ram := r\<rparr>\<rparr>;
     d \<leftarrow> printk (cstr ''Entering user mode...'') (scr s);
     let s = s\<lparr>scr := d, zeos_ticks := 0\<rparr>;
     let s = s\<lparr>cpu := enable_int (cpu s)\<rparr>;
     s \<leftarrow> return_gate USER_DS USER_DS USER_ESP USER_CS L_USER_START rdtr s;
     (t, _) \<leftarrow> tss_esp0 s;
     Some (s\<lparr>cur := t\<rparr>) }"


lemma boot_tables_simps [simp]:
  "gdt (boot_tables h s) = snd (setGdt (sym_gdt s) (sym_tss s) (gdt s))"
  "cpu (boot_tables h s) = set_task_reg KERNEL_TSS (set_idt_reg (256 * 8 - 1, sym_idt s) (set_gdt_reg (256 * 8, sym_gdt s) (cpu s)))"
  "lists (boot_tables h s) = lists s" "mem (boot_tables h s) = mem s" "tasks (boot_tables h s) = tasks s"
  "keyboard_buffer (boot_tables h s) = keyboard_buffer s" "nextPID (boot_tables h s) = nextPID s"
  by (simp_all add: boot_tables_def Let_def setGdt_def setIdt_def setTSS_def)

section \<open>The state after booting\<close>

text \<open>The state the boot loader hands over: static data zeroed, the page tables' array aligned (\<^verbatim>\<open>system.lds\<close>),
  and its own segment descriptors.\<close>

definition powered :: "kernel \<Rightarrow> bool" where
  "powered s \<longleftrightarrow> lists s = (\<lambda>n. if n \<in> heads \<union> TASK_LIST ` {..<10} then Some null_node else None)
     \<and> length (phys_mem (mem s)) = 1024 \<and> length (cb_buffer (keyboard_buffer s)) = MAX_VAL
     \<and> take_bit 12 (pagusr_base (mem s)) = 0 \<and> uint (pagusr_base (mem s)) + 40960 \<le> 2 ^ 32
     \<and> (\<forall>r < 10. \<forall>k. 0 < k \<and> k < 1024 \<longrightarrow> \<not> pte_present (dir_pages (mem s) r k)) \<and> nextPID s = 2
     \<and> user_segments (gdt s)"

lemma init_heads:
  assumes "h = (\<lambda>n. if n \<in> heads \<union> TASK_LIST ` {..<10} then Some null_node else None)"
  shows "\<exists>h'. do { h \<leftarrow> INIT_LIST_HEAD (Some FREEQUEUE) h; h \<leftarrow> INIT_LIST_HEAD (Some READYQUEUE) h;
      INIT_LIST_HEAD (Some PRIORITYQUEUE) h } = Some h' \<and> queues h' [] [] []"
proof -
  let ?h = "\<lambda>n. if n \<in> heads then Some \<lparr>lh_next = Some n, lh_prev = Some n\<rparr> else h n"
  have "do { h \<leftarrow> INIT_LIST_HEAD (Some FREEQUEUE) h; h \<leftarrow> INIT_LIST_HEAD (Some READYQUEUE) h;
      INIT_LIST_HEAD (Some PRIORITYQUEUE) h } = Some ?h"
    by (auto simp: assms list_op_defs null_node_def fun_eq_iff heads_def)
  moreover have "queues ?h [] [] []"
    by (auto simp: queues_def qheap_def heads_def is_queue_def edge_def assms split: if_splits)
  ultimately show ?thesis by blast
qed

lemma free_tasks_run:
  assumes "queues (lists s) F [] []" and "set F \<subseteq> {..<i}" and "i \<le> 10"
  shows "\<exists>h. free_tasks i s = Some (s\<lparr>lists := h\<rparr>) \<and> queues h (rev [i..<10] @ F) [] []"
  using assms
proof (induction "10 - i" arbitrary: i s F)
  case 0
  then show ?case by (subst free_tasks.simps) (auto intro!: exI [of _ "lists s"])
next
  case (Suc k)
  then have i: "i < 10" by simp
  then obtain h where h: "list_add (Some (TASK_LIST i)) (Some FREEQUEUE) (lists s) = Some h" "queues h (i # F) [] []"
    using queues_push_free [OF Suc.prems(1), of i] Suc.prems(2) by auto
  have "free_tasks i s = free_tasks (Suc i) (s\<lparr>lists := h\<rparr>)"
    using i h(1) by (subst free_tasks.simps) (simp add: with_lists_def)
  moreover have "\<exists>h'. free_tasks (Suc i) (s\<lparr>lists := h\<rparr>) = Some (s\<lparr>lists := h, lists := h'\<rparr>)
      \<and> queues h' (rev [Suc i..<10] @ i # F) [] []"
    using Suc.hyps(2) Suc.prems(2) h(2) i by (intro Suc.hyps(1)) (auto simp: less_Suc_eq)
  moreover have "rev [i..<10] = rev [Suc i..<10] @ [i]" using i by (simp add: upt_conv_Cons)
  ultimately show ?case by auto
qed

lemma init_sched_run:
  assumes "lists s = (\<lambda>n. if n \<in> heads \<union> TASK_LIST ` {..<10} then Some null_node else None)"
  shows "\<exists>h. init_sched s = Some (s\<lparr>quantum_ticks := -1, spf_ticks := -1, spf_sem := -1, lists := h\<rparr>)
    \<and> queues h (rev [0..<10]) [] []"
proof -
  from init_heads [OF assms] obtain h h1 h2 where
    h: "INIT_LIST_HEAD (Some FREEQUEUE) (lists s) = Some h1" "INIT_LIST_HEAD (Some READYQUEUE) h1 = Some h2"
      "INIT_LIST_HEAD (Some PRIORITYQUEUE) h2 = Some h" "queues h [] [] []"
    by (auto simp: bind_eq_Some_conv)
  let ?s = "s\<lparr>lists := h, quantum_ticks := -1, spf_ticks := -1, spf_sem := -1\<rparr>"
  have "init_sched s = free_tasks 0 ?s" using h by (simp add: init_sched_def with_lists_def Let_def)
  with free_tasks_run [of ?s "[]" 0] h(4) show ?thesis by auto
qed

lemma init_idle_run:
  assumes "queues (lists s) (t # F) R P"
  shows "\<exists>h. init_idle s = Some (s\<lparr>tasks := (tasks s)(t := (tasks s t)\<lparr>PID := 0, dir_pages_baseAddr := Some t,
      kernel_esp := Some (t, 1022), stack := (stack (tasks s t))(1023 := sym_cpu_idle s, 1022 := 0)\<rparr>),
      idle_task := Some t, lists := h\<rparr>) \<and> queues h F R P"
proof -
  obtain h where h: "list_del (Some (TASK_LIST t)) (lists s) = Some h" "queues h F R P"
    using queues_pop(1) [OF assms] by blast
  have "init_idle s = Some (s\<lparr>tasks := (tasks s)(t := (tasks s t)\<lparr>PID := 0, dir_pages_baseAddr := Some t,
      kernel_esp := Some (t, 1022), stack := (stack (tasks s t))(1023 := sym_cpu_idle s, 1022 := 0)\<rparr>),
      idle_task := Some t, lists := h\<rparr>)"
    using queues_first(1) [OF assms] h(1)
    by (auto simp: init_idle_def with_lists_def list_head_to_task_struct_def Let_def upd_task_def set_stack_def
        allocate_DIR_def intro!: kernel.equality task.equality)
  with h(2) show ?thesis by blast
qed

lemma init_task1_run:
  assumes "queues (lists s) (t # F) R P" and "set_user_pages (Some t) (mem s) = Some m"
  shows "\<exists>h st. init_task1 s = Some (s\<lparr>tasks := (tasks s)(t := (tasks s t)\<lparr>PID := 1, brk := L_HEAP_START, quantum := QUANTUM,
      nice := 1, dir_pages_baseAddr := Some t, kernel_esp := Some (KERNEL_ESP t), estat := st\<rparr>),
      tss_esp0 := Some (KERNEL_ESP t), msr_esp := Some (KERNEL_ESP t), mem := m\<lparr>cr3 := Some t\<rparr>, tlb := Map.empty,
      tsc_pos := tsc_pos s + 1, lists := h\<rparr>) \<and> queues h F R P"
proof -
  obtain h where h: "list_del (Some (TASK_LIST t)) (lists s) = Some h" "queues h F R P"
    using queues_pop(1) [OF assms(1)] by blast
  define x where "x = s\<lparr>lists := h, tasks := (tasks s)(t := (tasks s t)\<lparr>PID := 1, brk := L_HEAP_START, quantum := QUANTUM,
      nice := 1, dir_pages_baseAddr := Some t, kernel_esp := Some (KERNEL_ESP t)\<rparr>), mem := m\<lparr>cr3 := Some t\<rparr>, tlb := Map.empty,
      tss_esp0 := Some (KERNEL_ESP t), msr_esp := Some (KERNEL_ESP t)\<rparr>"
  obtain st where st: "init_stat t x = Some (kstat t st (tsc_pos x + 1) x)" using init_stat_run by blast
  have "init_task1 s = init_stat t x"
    using queues_first(1) [OF assms(1)] h(1) assms(2)
    by (auto simp: init_task1_def with_lists_def with_mem_def list_head_to_task_struct_def Let_def upd_task_def
        allocate_DIR_def get_DIR_def set_quantum_def writeMSR_esp_def set_cr3_def x_def
        intro!: arg_cong [where f = "init_stat t"] kernel.equality)
  also have "\<dots> = Some (s\<lparr>tasks := (tasks s)(t := (tasks s t)\<lparr>PID := 1, brk := L_HEAP_START, quantum := QUANTUM,
      nice := 1, dir_pages_baseAddr := Some t, kernel_esp := Some (KERNEL_ESP t), estat := st\<rparr>),
      tss_esp0 := Some (KERNEL_ESP t), msr_esp := Some (KERNEL_ESP t), mem := m\<lparr>cr3 := Some t\<rparr>, tlb := Map.empty,
      tsc_pos := tsc_pos s + 1, lists := h\<rparr>)"
    unfolding st by (auto simp: kstat_def x_def intro!: kernel.equality)
  finally show ?thesis using h(2) by blast
qed

lemma user_ro_pte_fields [simp]:
  "pte_present (user_ro_pte f)" "pte_user (user_ro_pte f)" "\<not> pte_rw (user_ro_pte f)" "pte_pbase (user_ro_pte f) = take_bit 20 f"
proof -
  show "pte_present (user_ro_pte f)" "pte_user (user_ro_pte f)" "\<not> pte_rw (user_ro_pte f)"
    by (auto simp: pte_defs user_ro_pte_def bit_simps)
  show "pte_pbase (user_ro_pte f) = take_bit 20 f"
    unfolding pte_pbase_def user_ro_pte_def by (rule bit_word_eqI) (auto simp: bit_simps)
qed

text \<open>The memory of the first process: the invariant holds with it as the only process.\<close>

lemma boot_mem_inv:
  assumes m: "tables_ok m" "phys_mem m = boot_map 0" "\<And>u p. u < 10 \<Longrightarrow> p < 1024 \<Longrightarrow> entry m u p = boot_entry p"
    and t: "t < 10"
  shows "\<exists>m'. set_user_pages (Some t) m = Some m' \<and> ram m' = ram m \<and> phys_mem m' = boot_map 28 \<and> mem_inv m' {t} (\<lambda>_. 20)
    \<and> (\<forall>i < 28. pte_present (entry m' t (256 + i)) \<and> pte_pbase (entry m' t (256 + i)) = word_of_nat (256 + 2 * i))"
proof -
  from set_user_pages_run [OF m(1) t m(2)] obtain m' where m': "set_user_pages (Some t) m = Some m'"
    "m' = m\<lparr>phys_mem := boot_map 28, pagusr_table := \<lambda>k. if 1024 * t + 256 \<le> k \<and> k < 1024 * t + 264
       then user_ro_pte (256 + 2 * word_of_nat (k - (1024 * t + 256)))
       else if 1024 * t + 264 \<le> k \<and> k < 1024 * t + 284
       then user_pte (256 + 2 * word_of_nat (k - (1024 * t + 256))) else pagusr_table m k\<rparr>" by blast
  let ?e = "\<lambda>i. user_pte (word_of_nat (256 + 2 * (8 + i)))"
  let ?f = "\<lambda>i. user_ro_pte (word_of_nat (256 + 2 * i))"
  have w: "m' = with_entries t 256 8 ?f (with_entries t 264 20 ?e (m\<lparr>phys_mem := boot_map 28\<rparr>))"
    unfolding m'(2) by (auto simp: with_entries_def fun_eq_iff algebra_simps intro!: mm.equality arg_cong [where f = user_pte] arg_cong [where f = user_ro_pte])
  have ent: "entry m' u p = (if u = t \<and> 256 \<le> p \<and> p < 264 then ?f (p - 256)
      else if u = t \<and> 264 \<le> p \<and> p < 284 then ?e (p - 264) else boot_entry p)"
    if "u < 10" "p < 1024" for u p
    unfolding w using that m(3) by (simp add: entry_with_entries)
  have user: "entry m' u p = (if u = t \<and> p < 284 then ?e (p - 264) else 0)" if "u < 10" "user_page p" for u p
    using that ent [of u p] by (auto simp: user_page_def boot_entry_def)
  have low: "entry m' u p = boot_entry p" if "u < 10" "p < 256" for u p using that ent [of u p] by simp
  have tb: "tables_ok m'" using m(1) by (simp add: w)
  have pm: "phys_mem m' = boot_map 28" by (simp add: w)
  have small: "(word_of_nat (256 + 2 * i) :: DWord) = take_bit 20 (word_of_nat (256 + 2 * i))" if "i < 28" for i
    unfolding take_bit_of_nat using that by (subst take_bit_nat_eq_self) simp_all
  have fr: "frame_of m' t p = 256 + 2 * (p - 256)" if "264 \<le> p" "p < 284" for p
  proof -
    have "user_page p" using that by (simp add: user_page_def)
    then have "frame_of m' t p = 256 + 2 * (8 + (p - 264))"
      using that user [OF t] user_pte_frame(1) [of "256 + 2 * (8 + (p - 264))"] by (simp add: frame_of_def)
    then show ?thesis using that by simp
  qed
  have zero: "u = t \<and> p < 284" if "u < 10" "user_page p" "entry m' u p \<noteq> 0" for u p
    using user [OF that(1,2)] that(3) by (simp split: if_splits)
  have fok: "frames_ok (boot_map 28)" by (auto simp: frames_ok_def boot_map_def)
  have uf: "f \<in> used_frames (boot_map 28)" if "even f" "256 \<le> f" "f < 312" for f
    using that by (simp add: used_frames_def)
  have code: "code_frames \<subseteq> used_frames (boot_map 28)"
    unfolding code_frames_def by (intro insert_subsetI uf) simp_all
  have own: "entries_owned m'"
    unfolding entries_owned_def
  proof (intro allI impI)
    fix u p assume u: "u < (10::nat)" "user_page p"
    let ?k = "256 + 2 * (8 + (p - 264))"
    have "?k \<in> own_pool \<and> ?k \<in> used_frames (phys_mem m') \<and> entry m' u p = user_pte (word_of_nat ?k)"
      if "entry m' u p \<noteq> 0"
    proof -
      from zero [OF u that] u have z: "u = t" "p < 284" "264 \<le> p" by (simp_all add: user_page_def)
      then have b: "272 \<le> ?k" "?k < 312" "even ?k" by simp_all
      then have "?k \<in> own_pool" unfolding own_pool_def frame_pool_def code_frames_def by auto
      moreover have "?k \<in> used_frames (phys_mem m')" unfolding pm using b by (intro uf) simp_all
      ultimately show ?thesis using user [OF u] z by simp
    qed
    then show "entry m' u p = 0 \<or> (\<exists>f. f \<in> own_pool \<and> f \<in> used_frames (phys_mem m') \<and> entry m' u p = user_pte (word_of_nat f))"
      by blast
  qed
  have inj: "owner_inj m'"
    unfolding owner_inj_def
  proof (intro allI impI)
    fix u v p q assume a: "u < (10::nat)" "v < (10::nat)" "user_page p" "user_page q" "entry m' u p \<noteq> 0" "entry m' v q \<noteq> 0"
      "frame_of m' u p = frame_of m' v q"
    from zero [OF a(1,3,5)] zero [OF a(2,4,6)] a(3,4) have z: "u = t" "v = t" "p < 284" "q < 284" "264 \<le> p" "264 \<le> q"
      by (simp_all add: user_page_def)
    with a(7) fr [of p] fr [of q] show "u = v \<and> p = q" by simp
  qed
  have ker: "kernel_ok m'" using low by (simp add: kernel_ok_def)
  have cod: "code_ok m' t"
    unfolding code_ok_def
  proof (intro allI impI)
    fix i :: nat assume i: "i < 8"
    then have "entry m' t (256 + i) = user_ro_pte (word_of_nat (256 + 2 * i))" using ent [OF t, of "256 + i"] by simp
    with small [of i] i show "pte_present (entry m' t (256 + i)) \<and> pte_user (entry m' t (256 + i))
        \<and> pte_pbase (entry m' t (256 + i)) = word_of_nat (256 + 2 * i)" by (simp only: user_ro_pte_fields)
  qed
  have all: "pte_present (entry m' t (256 + i)) \<and> pte_pbase (entry m' t (256 + i)) = word_of_nat (256 + 2 * i)"
    if i: "i < 28" for i
  proof (cases "i < 8")
    case True
    with cod show ?thesis by (simp add: code_ok_def)
  next
    case False
    then have "entry m' t (256 + i) = user_pte (word_of_nat (256 + 2 * i))" using ent [OF t, of "256 + i"] i by simp
    with small [OF i] show ?thesis by (simp only: user_pte_fields pte_pbase_user_pte)
  qed
  have "entry m' t p \<noteq> 0" if "264 \<le> p" "p < 284" for p
  proof -
    have "pte_present (entry m' t p)" using user [OF t, of p] that by (simp add: user_page_def)
    then show ?thesis by auto
  qed
  then have "mem_inv m' {t} (\<lambda>_. 20)"
    unfolding mem_inv_def pm using tb fok code own inj ker cod t by simp
  with m'(1) all show ?thesis by (intro exI [of _ m']) (simp add: w)
qed


section \<open>The processor in user mode\<close>

lemmas cpu_defs = set_eflags_def set_seg_regs_def set_gdt_reg_def set_idt_reg_def set_task_reg_def set_pe_flag_def
  enable_int_def delay_def Let_def

text \<open>
  The registers the first process starts with: user segments, its first instruction and its stack, interrupts on, of the
  interrupt lines the clock and the keyboard open, the tables loaded and paging on. \<open>s\<close> is the state at power-on.
\<close>

definition user_mode :: "kernel \<Rightarrow> cpu_regs \<Rightarrow> bool" where
  "user_mode s c \<longleftrightarrow> c = (cpu s)\<lparr>eflags := 0x202, seg_cs := USER_CS, seg_ds := USER_DS, seg_es := USER_DS, seg_fs := 0, seg_gs := 0,
     seg_ss := USER_DS, r_esp := USER_ESP, r_eip := L_USER_START, gdtr := (0x800, sym_gdt s), idtr := (0x7ff, sym_idt s),
     task_reg := KERNEL_TSS, cr0 := cr0 (cpu s) OR 0x80000000, pic_mask := 0xfc\<rparr>"

text \<open>The tables in memory and the registers of \<^verbatim>\<open>sysenter\<close> are as \<open>boot_tables\<close> sets them.\<close>

definition boot_tables_kept :: "(idt \<Rightarrow> idt) \<Rightarrow> kernel \<Rightarrow> kernel \<Rightarrow> bool" where
  "boot_tables_kept set_handlers s s' \<longleftrightarrow> (let b = boot_tables set_handlers s
     in idt s' = idt b \<and> gdt s' = gdt b \<and> tss s' = tss b \<and> msr_cs s' = msr_cs b \<and> msr_eip s' = msr_eip b)"

lemma boot_tables_dispatch:
  fixes set_handlers s defines "b \<equiv> boot_tables set_handlers s"
  shows "gate_offset (idt b 32) = sym_clock_handler s" "gate_offset (idt b 33) = sym_keyboard_handler s"
    "gate_offset (idt b 0x80) = sym_system_call_handler s" "gate_dpl (idt b 0x80) = 3"
    "msr_eip b = sym_syscall_handler_sysenter s" "descriptor_base (gdt b 6) = sym_tss s" "ts_ss0 (tss b) = KERNEL_DS"
  by (simp_all add: b_def boot_tables_def setIdt_def setTSS_def setGdt_def Let_def gate_fields gate_other
      descriptor_base_def descriptor_base_bytes)

section \<open>The boot sequence establishes the invariant\<close>

lemma init_mm_run:
  assumes "length (phys_mem (mem s)) = 1024"
  shows "\<exists>m. init_mm s = Some (s\<lparr>mem := m, tasks := (tasks s)(0 := (tasks s 0)\<lparr>dir_pages_baseAddr := Some 0\<rparr>),
      cpu := set_pe_flag (cpu s), tlb := Map.empty\<rparr>)
    \<and> phys_mem m = boot_map 0 \<and> ram m = ram (mem s) \<and> (\<forall>u < 10. \<forall>p < 1024. entry m u p = boot_entry p)
    \<and> (powered s \<longrightarrow> tables_ok m)"
proof -
  define m0 where "m0 = (init_table_pages (mem s))\<lparr>phys_mem := boot_map 0\<rparr>"
  define m where "m = (init_dir_pages m0)\<lparr>cr3 := Some 0\<rparr>"
  have p: "phys_mem (init_table_pages (mem s)) = phys_mem (mem s)" by (simp add: init_table_pages_run)
  have run: "init_mm s = Some (s\<lparr>mem := m, tasks := (tasks s)(0 := (tasks s 0)\<lparr>dir_pages_baseAddr := Some 0\<rparr>),
      cpu := set_pe_flag (cpu s), tlb := Map.empty\<rparr>)"
    using init_frames_boot [of "phys_mem (mem s)"] assms
    by (auto simp: init_mm_def p Let_def allocate_DIR_def upd_task_def set_cr3_def get_DIR_def m_def m0_def intro!: kernel.equality)
  have f: "phys_mem m = boot_map 0" "ram m = ram (mem s)"
    by (simp_all add: m_def m0_def init_dir_pages_def init_dirs_run init_table_pages_run)
  have e: "entry m u q = boot_entry q" if "u < 10" "q < 1024" for u q
    using that by (simp add: m_def m0_def init_dir_pages_def init_dirs_run init_table_pages_run entry_def)
  have "tables_ok m" if "powered s"
  proof -
    have "tables_ok (init_dir_pages m0)"
      by (rule init_dir_pages_ok) (use that in \<open>simp_all add: powered_def m0_def init_table_pages_run\<close>)
    then show ?thesis by (simp add: m_def)
  qed
  with run f e show ?thesis by blast
qed

lemma reads_current:
  assumes "cr3 m = Some t" and "user_map m va = Some pa"
  shows "reads m t va = Some (ram m pa)"
proof -
  have "m\<lparr>cr3 := Some t\<rparr> = m" using assms(1) by (auto intro!: mm.equality)
  with user_map_translate [OF assms(2)] show ?thesis by (simp add: reads_def)
qed

text \<open>
  Loading a program image into mapped consecutive pages, and the word \<^verbatim>\<open>return_gate\<close> stores into the last four bytes
  behind it.
\<close>

lemma image_address:
  assumes m: "tables_ok m" "cr3 m = Some t" "t < 10"
    and map: "\<forall>i < 28. pte_present (entry m t (256 + i)) \<and> pte_pbase (entry m t (256 + i)) = word_of_nat (256 + 2 * i)"
    and i: "i < 28 * 4096"
  shows "user_map m (L_USER_START + word_of_nat i) = Some (fbyte (256 + 2 * (i div 4096)) (i mod 4096))"
proof -
  have d: "i div 4096 < 28" using i by (simp add: div_less_iff_less_mult)
  have "(word_of_nat i :: DWord) = word_of_nat (4096 * (i div 4096) + i mod 4096)" by simp
  also have "\<dots> = 4096 * word_of_nat (i div 4096) + word_of_nat (i mod 4096)" by (simp only: of_nat_add of_nat_mult of_nat_numeral)
  finally have q: "L_USER_START + word_of_nat i = word_of_nat (256 + i div 4096) * 4096 + word_of_nat (i mod 4096)"
    by (simp add: algebra_simps)
  show ?thesis unfolding q fbyte_def by (rule user_map_page [OF m]) (use map d in auto)
qed

lemma image_byte_inj:
  assumes "i < 28 * 4096" and "j < 28 * 4096"
    and "fbyte (256 + 2 * (i div 4096)) (i mod 4096) = fbyte (256 + 2 * (j div 4096)) (j mod 4096)"
  shows "i = j"
proof -
  have "i div 4096 < 28" "j div 4096 < 28" using assms(1,2) by (simp_all add: div_less_iff_less_mult)
  then have "i div 4096 = j div 4096" "i mod 4096 = j mod 4096" using assms(3) by (simp_all add: fbyte_inj)
  then show ?thesis by (metis div_mult_mod_eq)
qed

lemma load_image:
  assumes m: "tables_ok m" "cr3 m = Some t" "t < 10"
    and map: "\<forall>i < 28. pte_present (entry m t (256 + i)) \<and> pte_pbase (entry m t (256 + i)) = word_of_nat (256 + 2 * i)"
    and len: "length img \<le> 28 * 4096"
  shows "\<exists>r r'. copy_data (obj_ld img) (user_st (user_map m)) 0 L_USER_START (int (length img)) (ram m) = Some r
    \<and> put_bytes (user_st (user_map m)) r (USER_ESP + 12) (dword_bytes w) = Some r'
    \<and> (\<forall>i < length img. i < 28 * 4096 - 4 \<longrightarrow> reads (m\<lparr>ram := r'\<rparr>) t (L_USER_START + word_of_nat i) = Some (img ! i))
    \<and> (\<forall>j < 4. reads (m\<lparr>ram := r'\<rparr>) t (USER_ESP + 12 + word_of_nat j) = Some (dword_bytes w ! j))"
proof -
  let ?tr = "user_map m" and ?q = "L_USER_START" and ?f = "\<lambda>i. fbyte (256 + 2 * (i div 4096)) (i mod 4096)"
  note tr = image_address [OF m map]
  have tri: "?tr (?q + word_of_nat i) = Some (?f i)" if "i < length img" for i using that len by (intro tr) simp
  have "unat (0 + word_of_nat i :: DWord) < length img" if "i < length img" for i
    using that len by (simp add: unat_of_nat take_bit_eq_mod)
  then have "disjoint_blocks (\<lambda>a. unat a < length img) (\<lambda>a. ?tr a \<noteq> None) (\<lambda>p q. False) 0 ?q (length img)"
    using tri by (simp add: disjoint_blocks_def)
  from ku.copy_data_run [OF TrueI this, of "ram m"] get_bytes_obj [of 0 "length img" img "ram m"] len obtain r where
    r: "put_bytes (user_st ?tr) (ram m) ?q img = Some r"
      "copy_data (obj_ld img) (user_st ?tr) 0 ?q (int (length img)) (ram m) = Some r" by auto
  have inj: "i = j" if "i < length img" "j < length img" "?tr (?q + word_of_nat i) = ?tr (?q + word_of_nat j)" for i j
    using image_byte_inj [of i j] tri [OF that(1)] tri [OF that(2)] that len by simp
  have img: "\<forall>i < length img. r (?f i) = img ! i"
    using put_bytes_user [of img ?tr ?q "ram m"] tri inj r(1) by auto
  have top: "USER_ESP + 12 + word_of_nat j = ?q + word_of_nat (28 * 4096 - 4 + j)" for j by (simp add: algebra_simps)
  have trw: "?tr (USER_ESP + 12 + word_of_nat j) = Some (?f (28 * 4096 - 4 + j))" if "j < 4" for j
    unfolding top using that by (intro tr) simp
  have len4: "length (dword_bytes w) = 4" by (simp add: dword_bytes_def)
  have injw: "i = j" if "i < 4" "j < 4" "?tr (USER_ESP + 12 + word_of_nat i) = ?tr (USER_ESP + 12 + word_of_nat j)" for i j
    using image_byte_inj [of "28 * 4096 - 4 + i" "28 * 4096 - 4 + j"] trw [OF that(1)] trw [OF that(2)] that by simp
  obtain r' where r': "put_bytes (user_st ?tr) r (USER_ESP + 12) (dword_bytes w) = Some r'"
    "\<forall>j < 4. r' (?f (28 * 4096 - 4 + j)) = dword_bytes w ! j"
    "\<forall>a. (\<forall>j < 4. ?f (28 * 4096 - 4 + j) \<noteq> a) \<longrightarrow> r' a = r a"
    using put_bytes_user [of "dword_bytes w" ?tr "USER_ESP + 12" r] trw injw unfolding len4 by auto
  have same: "r' (?f i) = r (?f i)" if "i < 28 * 4096 - 4" for i
  proof -
    have "?f (28 * 4096 - 4 + j) \<noteq> ?f i" if "j < 4" for j
      using image_byte_inj [of "28 * 4096 - 4 + j" i] that \<open>i < 28 * 4096 - 4\<close> by auto
    then show ?thesis using r'(3) by blast
  qed
  have rd: "reads (m\<lparr>ram := r'\<rparr>) t va = Some (r' pa)" if "?tr va = Some pa" for va pa
    using reads_current [of "m\<lparr>ram := r'\<rparr>" t va pa] m(2) that by simp
  show ?thesis
    using r(2) r'(1,2) img same rd [OF tri] rd [OF trw] by (intro exI [of _ r] exI [of _ r']) simp
qed

lemma cstr_print:
  assumes "(0 :: Byte) \<notin> of_char ` set xs"
  shows "printk (cstr xs) s = Some (printcs (map of_char xs) s)"
  using printk_run [of "map of_char xs" "[]" s] assms by (simp add: cstr_def)

lemma zeos_main_run:
  assumes pw: "powered s" and len: "length img \<le> 28 * 4096"
  shows "\<exists>s'. zeos_main set_handlers img rdtr s = Some s' \<and> kinv s' [7, 6, 5, 4, 3, 2, 1, 0] [] [] \<and> cur s' = 8 \<and> idle_task s' = Some 9
    \<and> PID (cur_task s') = 1 \<and> brk (cur_task s') = L_HEAP_START \<and> nice (cur_task s') = 1 \<and> quantum (cur_task s') = QUANTUM
    \<and> phys_mem (mem s') = boot_map 28 \<and> nextPID s' = 2 \<and> quantum_ticks s' = -1 \<and> spf_ticks s' = -1
    \<and> tss_esp0 s' = Some (KERNEL_ESP 8) \<and> msr_esp s' = Some (KERNEL_ESP 8) \<and> user_mode s (cpu s')
    \<and> boot_tables_kept set_handlers s s' \<and> tlb s' = Map.empty
    \<and> (\<forall>i < length img. i < 28 * 4096 - 4 \<longrightarrow> reads (mem s') 8 (L_USER_START + word_of_nat i) = Some (img ! i))
    \<and> (\<forall>j < 4. reads (mem s') 8 (USER_ESP + 12 + word_of_nat j) = Some (dword_bytes rdtr ! j))"
proof -
  obtain d where d: "printk (cstr ''Kernel Loaded!    '') (scr s) = Some d"
    using cstr_print [of "''Kernel Loaded!    ''" "scr s"] by auto
  define sc where "sc = s\<lparr>cpu := set_seg_regs KERNEL_DS KERNEL_DS (task_addr (sym_task s) 4) (set_eflags (cpu s))\<rparr>"
  define s0 where "s0 = sc\<lparr>scr := d\<rparr>"
  define s1 where "s1 = boot_tables set_handlers s0"
  have pw1: "powered s1" using pw by (simp add: powered_def s1_def s0_def sc_def user_segments_setGdt)
  then obtain m where m: "init_mm s1 = Some (s1\<lparr>mem := m, tasks := (tasks s1)(0 := (tasks s1 0)\<lparr>dir_pages_baseAddr := Some 0\<rparr>),
      cpu := set_pe_flag (cpu s1), tlb := Map.empty\<rparr>)"
    "phys_mem m = boot_map 0" "\<forall>u < 10. \<forall>p < 1024. entry m u p = boot_entry p" "tables_ok m"
    using init_mm_run [of s1] by (auto simp: powered_def)
  define s2 where "s2 = s1\<lparr>mem := m, tasks := (tasks s1)(0 := (tasks s1 0)\<lparr>dir_pages_baseAddr := Some 0\<rparr>),
      cpu := set_pe_flag (cpu s1), tlb := Map.empty\<rparr>"
  have l2: "lists s2 = (\<lambda>n. if n \<in> heads \<union> TASK_LIST ` {..<10} then Some null_node else None)"
    using pw by (simp add: powered_def s2_def s1_def s0_def sc_def user_segments_setGdt)
  obtain h where h: "init_sched s2 = Some (s2\<lparr>quantum_ticks := -1, spf_ticks := -1, spf_sem := -1, lists := h\<rparr>)"
    "queues h (rev [0..<10]) [] []" using init_sched_run [OF l2] by blast
  define s3 where "s3 = s2\<lparr>quantum_ticks := -1, spf_ticks := -1, spf_sem := -1, lists := h\<rparr>"
  have ten: "rev [0..<10] = [9, 8, 7, 6, 5, 4, 3, 2, 1, 0 :: nat]" by (simp add: upt_rec)
  have q3: "queues (lists s3) (9 # [8, 7, 6, 5, 4, 3, 2, 1, 0]) [] []" using h(2) by (simp add: s3_def ten)
  from init_idle_run [OF q3] obtain h4 where h4: "init_idle s3 = Some (s3\<lparr>tasks := (tasks s3)(9 := (tasks s3 9)\<lparr>PID := 0,
      dir_pages_baseAddr := Some 9, kernel_esp := Some (9, 1022), stack := (stack (tasks s3 9))(1023 := sym_cpu_idle s3, 1022 := 0)\<rparr>),
      idle_task := Some 9, lists := h4\<rparr>)" "queues h4 [8, 7, 6, 5, 4, 3, 2, 1, 0] [] []" by blast
  define s4 where "s4 = s3\<lparr>tasks := (tasks s3)(9 := (tasks s3 9)\<lparr>PID := 0,
      dir_pages_baseAddr := Some 9, kernel_esp := Some (9, 1022), stack := (stack (tasks s3 9))(1023 := sym_cpu_idle s3, 1022 := 0)\<rparr>),
      idle_task := Some 9, lists := h4\<rparr>"
  have m4: "mem s4 = m" by (simp add: s4_def s3_def s2_def)
  obtain m' where pm: "phys_mem m' = boot_map 28" and m': "set_user_pages (Some 8) m = Some m'" "mem_inv m' {8} (\<lambda>_. 20)"
    "\<forall>i < 28. pte_present (entry m' 8 (256 + i)) \<and> pte_pbase (entry m' 8 (256 + i)) = word_of_nat (256 + 2 * i)"
    using boot_mem_inv [OF m(4,2), of 8] m(3) by auto
  have q4: "queues (lists s4) (8 # [7, 6, 5, 4, 3, 2, 1, 0]) [] []" using h4(2) by (simp add: s4_def)
  from init_task1_run [OF q4 m'(1) [folded m4]] obtain h5 st where h5: "init_task1 s4 = Some (s4\<lparr>tasks := (tasks s4)(8 := (tasks s4 8)\<lparr>PID := 1,
      brk := L_HEAP_START, quantum := QUANTUM, nice := 1, dir_pages_baseAddr := Some 8, kernel_esp := Some (KERNEL_ESP 8), estat := st\<rparr>),
      tss_esp0 := Some (KERNEL_ESP 8), msr_esp := Some (KERNEL_ESP 8), mem := m'\<lparr>cr3 := Some 8\<rparr>, tlb := Map.empty,
      tsc_pos := tsc_pos s4 + 1, lists := h5\<rparr>)" "queues h5 [7, 6, 5, 4, 3, 2, 1, 0] [] []" by blast
  define s5 where "s5 = s4\<lparr>tasks := (tasks s4)(8 := (tasks s4 8)\<lparr>PID := 1,
      brk := L_HEAP_START, quantum := QUANTUM, nice := 1, dir_pages_baseAddr := Some 8, kernel_esp := Some (KERNEL_ESP 8), estat := st\<rparr>),
      tss_esp0 := Some (KERNEL_ESP 8), msr_esp := Some (KERNEL_ESP 8), mem := m'\<lparr>cr3 := Some 8\<rparr>, tlb := Map.empty,
      tsc_pos := tsc_pos s4 + 1, lists := h5\<rparr>"
  have "length (cb_buffer (keyboard_buffer s5)) = MAX_VAL"
    using pw by (simp add: powered_def s5_def s4_def s3_def s2_def s1_def s0_def sc_def user_segments_setGdt)
  from cb_rep_init [OF this] obtain b where b: "circular_init (keyboard_buffer s5) = Some b" "cb_wf b"
    using cb_rep_slots by (auto simp: cb_slots_def)
  let ?m5 = "m'\<lparr>cr3 := Some 8\<rparr>"
  have m5: "mem s5 = ?m5" "tables_ok ?m5" using m'(2) by (simp_all add: s5_def mem_inv_def)
  obtain r r' where r: "copy_data (obj_ld img) (user_st (user_map ?m5)) 0 L_USER_START (int (length img)) (ram ?m5) = Some r"
    "put_bytes (user_st (user_map ?m5)) r (USER_ESP + 12) (dword_bytes rdtr) = Some r'"
    "\<forall>i < length img. i < 28 * 4096 - 4 \<longrightarrow> reads (?m5\<lparr>ram := r'\<rparr>) 8 (L_USER_START + word_of_nat i) = Some (img ! i)"
    "\<forall>j < 4. reads (?m5\<lparr>ram := r'\<rparr>) 8 (USER_ESP + 12 + word_of_nat j) = Some (dword_bytes rdtr ! j)"
    using load_image [OF m5(2), of 8 img rdtr] m'(3) len by auto
  obtain d2 where d2: "printk (cstr ''Entering user mode...'') (scr s5) = Some d2"
    using cstr_print [of "''Entering user mode...''" "scr s5"] by auto
  define c where "c = enable_int (cpu s5)"
  define c' where "c' = c\<lparr>seg_es := USER_DS, seg_ds := USER_DS, r_eip := L_USER_START, seg_cs := USER_CS,
      r_esp := USER_ESP, seg_ss := USER_DS, seg_fs := 0, seg_gs := 0\<rparr>"
  have c5: "cpu s5 = set_pe_flag (set_task_reg KERNEL_TSS (set_idt_reg (256 * 8 - 1, sym_idt s) (set_gdt_reg (256 * 8, sym_gdt s)
      (set_seg_regs KERNEL_DS KERNEL_DS (task_addr (sym_task s) 4) (set_eflags (cpu s))))))"
    by (simp add: s5_def s4_def s3_def s2_def s1_def s0_def sc_def)
  have seg: "seg_fs c = KERNEL_DS" "seg_gs c = KERNEL_DS"
    by (simp_all add: c_def c5 cpu_defs)
  have bt: "boot_tables_kept set_handlers s s5"
    by (simp add: boot_tables_kept_def s5_def s4_def s3_def s2_def s1_def s0_def sc_def boot_tables_def Let_def setGdt_def setIdt_def)
  have um: "user_mode s c'" by (simp add: user_mode_def c'_def c_def c5 cpu_defs)
  have "gdt s5 = gdt s1" by (simp add: s5_def s4_def s3_def s2_def)
  then have "user_segments (gdt s5)" using pw1 by (simp add: powered_def)
  from far_return_user [OF this, of "c\<lparr>seg_es := USER_DS, seg_ds := USER_DS\<rparr>" USER_ESP L_USER_START] seg
  have far: "far_return (gdt s5) USER_DS USER_ESP USER_CS L_USER_START (c\<lparr>seg_es := USER_DS, seg_ds := USER_DS\<rparr>) = Some c'"
    by (simp add: c'_def)
  define s' where "s' = s5\<lparr>keyboard_buffer := b, mem := ?m5\<lparr>ram := r'\<rparr>, scr := d2, zeos_ticks := 0, cpu := c', cur := 8\<rparr>"
  note e = d m(1) [folded s2_def] h(1) [folded s3_def] h4(1) [folded s4_def] h5(1) [folded s5_def] b(1)
  have esp: "tss_esp0 s5 = Some (8, 1024)" "msr_esp s5 = Some (8, 1024)" by (simp_all add: s5_def KERNEL_ESP_def)
  let ?s = "s5\<lparr>keyboard_buffer := b, mem := ?m5\<lparr>ram := r\<rparr>, scr := d2, zeos_ticks := 0, cpu := c\<rparr>"
  have gate: "return_gate USER_DS USER_DS USER_ESP USER_CS L_USER_START rdtr ?s = Some (?s\<lparr>mem := ?m5\<lparr>ram := r'\<rparr>, cpu := c'\<rparr>)"
    unfolding return_gate_def using far r(2) by simp
  have start: "boot_tables set_handlers (s\<lparr>cpu := set_seg_regs KERNEL_DS KERNEL_DS (task_addr (sym_task s) 4) (set_eflags (cpu s)),
      scr := d\<rparr>) = s1"
    by (simp add: s1_def s0_def sc_def)
  have run: "zeos_main set_handlers img rdtr s = Some s'"
    unfolding zeos_main_def Let_def using e r(1) d2 esp m5(1) gate start by (simp add: s'_def c_def)
  have t5: "tasks s' 8 = tasks s5 8" "lists s' = h5" "idle_task s' = Some 9" "cur s' = 8"
    "dir_pages_baseAddr (tasks s5 8) = Some 8" "brk (tasks s5 8) = 0x11C000"
    by (simp_all add: s'_def s5_def s4_def)
  have n20: "npages 0x11C000 = 20" by (simp add: npages_def)
  have "mem_inv (mem s') {8} (\<lambda>t. npages (brk (tasks s' t)))"
    by (rule mem_inv_mono [where L = "{8}" and N = "\<lambda>_. 20"]) (use m'(2) t5 n20 in \<open>simp_all add: s'_def\<close>)
  moreover have "mset [9, 8, 7, 6, 5, 4, 3, 2, 1, 0 :: nat] = mset [0..<10]"
    unfolding ten [symmetric] by (simp only: mset_rev)
  ultimately have kinv: "kinv s' [7, 6, 5, 4, 3, 2, 1, 0] [] []"
    unfolding kinv_def procs_def t5 using h5(2) t5 b(2)
    by (simp add: s'_def brk_ok_def)
  show ?thesis
    using run kinv r(3,4) pm pw esp um bt by (auto simp: powered_def s'_def s5_def s4_def s3_def s2_def s1_def s0_def sc_def cur_task_def current_def boot_tables_kept_def
        KERNEL_ESP_def)
qed

section \<open>Properties\<close>

text \<open>
  C10. Booting always ends, for every program image that fits into the 28 pages of the first process, and starts
  process 1: it is the running one, on its own page table and kernel stack; the idle task is set aside, the other
  eight are free and both run queues are empty; the image is in the process's memory, byte by byte, at the
  address where it starts, but for the last four bytes of the pages, which hold the word \<^verbatim>\<open>*p_rdtr\<close>; and the
  invariant of the kernel holds.
\<close>
theorem boot_outcome:
  assumes "powered s" and "length img \<le> 28 * 4096"
  shows "\<exists>s'. zeos_main set_handlers img rdtr s = Some s' \<and> kinv s' [7, 6, 5, 4, 3, 2, 1, 0] [] [] \<and> cur s' = 8
    \<and> idle_task s' = Some 9 \<and> PID (cur_task s') = 1 \<and> cr3 (mem s') = Some 8 \<and> tss_esp0 s' = Some (KERNEL_ESP 8)
    \<and> (\<forall>i < length img. i < 28 * 4096 - 4 \<longrightarrow> reads (mem s') 8 (L_USER_START + word_of_nat i) = Some (img ! i))
    \<and> (\<forall>j < 4. reads (mem s') 8 (USER_ESP + 12 + word_of_nat j) = Some (dword_bytes rdtr ! j))"
proof -
  obtain s' where s': "zeos_main set_handlers img rdtr s = Some s'" "kinv s' [7, 6, 5, 4, 3, 2, 1, 0] [] []" "cur s' = 8"
    "idle_task s' = Some 9" "PID (cur_task s') = 1" "tss_esp0 s' = Some (KERNEL_ESP 8)"
    "\<forall>i < length img. i < 28 * 4096 - 4 \<longrightarrow> reads (mem s') 8 (L_USER_START + word_of_nat i) = Some (img ! i)"
    "\<forall>j < 4. reads (mem s') 8 (USER_ESP + 12 + word_of_nat j) = Some (dword_bytes rdtr ! j)"
    using zeos_main_run [OF assms] by blast
  with kinvD(7) [OF s'(2)] show ?thesis by auto
qed


end
