(* ===== verification/Zeos_Reach.thy ===== *)
theory Zeos_Reach
  imports Zeos_Boot
begin

text \<open>
  The states the kernel reaches: the boot loader's state, \<^verbatim>\<open>main\<close>, and any sequence of interrupts, system calls
  and stores of the running process. A concrete machine for examples is given, with the state it boots into.
\<close>

definition reachable :: "(DWord \<Rightarrow> screen \<Rightarrow> screen) \<Rightarrow> kernel \<Rightarrow> bool" where
  "reachable zsc s \<longleftrightarrow> (\<exists>set_handlers s0 img rdtr s1. powered s0 \<and> length img \<le> 28 * 4096
     \<and> zeos_main set_handlers img rdtr s0 = Some s1 \<and> zeos_run zsc s1 s)"

lemma boot_kinv:
  assumes "powered s0" and "length img \<le> 28 * 4096" and "zeos_main set_handlers img rdtr s0 = Some s"
  shows "kinv s [7, 6, 5, 4, 3, 2, 1, 0] [] []"
  using zeos_main_run [OF assms(1,2), of set_handlers rdtr] assms(3) by auto

lemma reachable_kinv:
  assumes "reachable zsc s"
  obtains F R P where "kinv s F R P"
  using assms boot_kinv run_keeps_kinv unfolding reachable_def by meson

lemma reachable_step: "reachable zsc s \<Longrightarrow> zeos_step zsc e s s' \<Longrightarrow> reachable zsc s'"
  unfolding reachable_def by (meson zeos_run.more)

text \<open>The queues are read off the store by a walk, so a state has one partition of its tasks only.\<close>

lemma queues_walk:
  assumes "queues h F R P"
  shows "list_for_each 11 (Some FREEQUEUE) h = Some (map TASK_LIST F)"
    and "list_for_each 11 (Some READYQUEUE) h = Some (map TASK_LIST R)"
    and "list_for_each 11 (Some PRIORITYQUEUE) h = Some (map TASK_LIST P)"
proof -
  have "length xs < 11" if "xs \<in> {F, R, P}" for xs
  proof -
    have "distinct xs" "set xs \<subseteq> {..<10}" using queues_tasks [OF assms] that by auto
    then have "length xs \<le> card {..<10 :: nat}" by (metis card_mono distinct_card finite_lessThan)
    then show ?thesis by simp
  qed
  then have l: "length F < 11" "length R < 11" "length P < 11" by auto
  have q: "is_queue h FREEQUEUE (map TASK_LIST F)" "is_queue h READYQUEUE (map TASK_LIST R)"
    "is_queue h PRIORITYQUEUE (map TASK_LIST P)"
    using qheap_queue [OF queuesD(1) [OF assms], of FREEQUEUE] qheap_queue [OF queuesD(1) [OF assms], of READYQUEUE]
      qheap_queue [OF queuesD(1) [OF assms], of PRIORITYQUEUE] by simp_all
  show "list_for_each 11 (Some FREEQUEUE) h = Some (map TASK_LIST F)"
    "list_for_each 11 (Some READYQUEUE) h = Some (map TASK_LIST R)"
    "list_for_each 11 (Some PRIORITYQUEUE) h = Some (map TASK_LIST P)"
    using q l by (simp_all add: list_for_each_queue)
qed

lemma queues_unique:
  assumes "queues h F R P" and "queues h F' R' P'"
  shows "F' = F" and "R' = R" and "P' = P"
proof -
  have inj: "map TASK_LIST xs = map TASK_LIST ys \<longleftrightarrow> xs = ys" for xs ys
    by (rule inj_map_eq_map) (auto intro: injI)
  show "F' = F" "R' = R" "P' = P"
    using queues_walk [OF assms(1)] queues_walk [OF assms(2)] by (simp_all add: inj)
qed

lemma reachable_kinv_at:
  assumes "reachable zsc s" and "queues (lists s) F R P"
  shows "kinv s F R P"
proof -
  from assms(1) obtain F' R' P' where k: "kinv s F' R' P'" by (rule reachable_kinv)
  from queues_unique [OF assms(2) kinvD(1) [OF k]] k show ?thesis by simp
qed

section \<open>A concrete machine\<close>

definition blank_mm :: mm where
  "blank_mm = \<lparr>phys_mem = replicate 1024 0, dir_pages = (\<lambda>_ _. 0), pagusr_table = (\<lambda>_. 0), pagusr_base = 0x40000,
     ram = (\<lambda>_. 0), cr3 = None\<rparr>"

definition blank_task :: task where
  "blank_task = \<lparr>PID = 0, dir_pages_baseAddr = None, kernel_esp = None, quantum = 0,
     estat = \<lparr>user_ticks = 0, system_ticks = 0, blocked_ticks = 0, ready_ticks = 0, elapsed_total_ticks = 0,
       total_trans = 0, remaining_ticks = 0\<rparr>, nice = 0, brk = 0, stack = (\<lambda>_. 0)\<rparr>"

definition blank_cpu :: cpu_regs where
  "blank_cpu = \<lparr>eflags = 0x2, seg_cs = KERNEL_CS, seg_ds = 0, seg_es = 0, seg_fs = 0, seg_gs = 0, seg_ss = 0, r_esp = 0,
     r_eip = 0x10010, gdtr = (0, 0), idtr = (0, 0), ldtr = 0, task_reg = 0, cr0 = 1, pic_mask = 0xff\<rparr>"

definition blank_kernel :: kernel where
  "blank_kernel = \<lparr>tasks = (\<lambda>_. blank_task), lists = (\<lambda>n. if n \<in> heads \<union> TASK_LIST ` {..<10} then Some null_node else None),
     cur = 0, idle_task = None, quantum_ticks = 0, spf_PID = 0, spf_ticks = 0, spf_sem = 0, gfps = 0, spf_last_screen = 0,
     nextPID = 2, zeos_ticks = 0, keyboard_buffer = \<lparr>cb_buffer = replicate 8 0, cb_read = 0, cb_write = 0\<rparr>,
     mem = blank_mm, tlb = Map.empty, scr = \<lparr>vga = (\<lambda>_. 0), cur_x = 0, cur_y = 0, bochs = []\<rparr>, tss_esp0 = None, msr_esp = None,
     resumed_at = 0, tsc = (\<lambda>n. word_of_nat (109000 * n)), tsc_pos = 0,
     sym_cpu_idle = 0x10100, sym_ret_from_fork = 0x10200, sym_task_switch_ret = 0x10300,
     gdt = (\<lambda>i. if i < 7 then boot_gdt ! i else null_segment), gdtR = (0, 0),
     idt = (\<lambda>_. \<lparr>lowOffset = 0, segmentSelector = 0, flags = 0, highOffset = 0\<rparr>), idtR = (0, 0),
     tss = fst setTSS, cpu = blank_cpu, msr_cs = 0, msr_eip = 0, sym_gdt = 0x901b3, sym_idt = 0x20000, sym_tss = 0x21000, sym_task = 0x14000,
     sym_clock_handler = 0x10400, sym_keyboard_handler = 0x10500, sym_system_call_handler = 0x10600,
     sym_syscall_handler_sysenter = 0x10700\<rparr>"

lemma blank_powered: "powered blank_kernel"
proof -
  have "take_bit 12 (0x40000 :: DWord) = 0" by simp
  then show ?thesis by (simp add: powered_def blank_kernel_def blank_mm_def user_segments_def)
qed


lemma boot_free_frames: "card (frame_pool - used_frames (boot_map 28)) = 356"
proof -
  have "frame_pool - used_frames (boot_map 28) = (\<lambda>k. 2 * k) ` {156..<512}"
    by (auto simp: frame_pool_def used_frames_def image_iff elim!: evenE)
  then show ?thesis by (simp add: card_image inj_on_def)
qed

theorem boot_outcome_witness:
  "\<exists>s'. zeos_main id [0x90, 0xF4] 0x7E3B blank_kernel = Some s' \<and> PID (cur_task s') = 1
    \<and> reads (mem s') 8 (L_USER_START + 1) = Some 0xF4"
proof -
  have l: "length [0x90, 0xF4 :: Byte] \<le> 28 * 4096" by simp
  obtain s' where s': "zeos_main id [0x90, 0xF4] 0x7E3B blank_kernel = Some s'" "PID (cur_task s') = 1"
    "\<forall>i < length [0x90, 0xF4 :: Byte]. i < 28 * 4096 - 4 \<longrightarrow> reads (mem s') 8 (L_USER_START + word_of_nat i) = Some ([0x90, 0xF4 :: Byte] ! i)"
    using boot_outcome [OF blank_powered l, of id "0x7E3B"] by blast
  from s'(3) [rule_format, of 1] have "reads (mem s') 8 (L_USER_START + 1) = Some 0xF4" by simp
  with s'(1,2) show ?thesis by blast
qed


text \<open>The state after booting: process 1, in task 8, runs alone.\<close>

lemma booted_alone:
  obtains s where "reachable zsc s" "zeos_main id [] 0x7E3B blank_kernel = Some s" "kinv s [7, 6, 5, 4, 3, 2, 1, 0] [] []"
    "cur s = 8" "brk (cur_task s) = L_HEAP_START" "nice (cur_task s) = 1" "nextPID s = 2" "free_frames s = 356"
    "quantum_ticks s = -1" "quantum (cur_task s) = QUANTUM" "spf_ticks s = -1"
    "PID (cur_task s) = 1"
proof -
  from zeos_main_run [OF blank_powered, of "[]" id "0x7E3B"] obtain s where s: "zeos_main id [] 0x7E3B blank_kernel = Some s"
    "kinv s [7, 6, 5, 4, 3, 2, 1, 0] [] []" "cur s = 8" "brk (cur_task s) = L_HEAP_START" "nice (cur_task s) = 1"
    "nextPID s = 2" "phys_mem (mem s) = boot_map 28" "quantum_ticks s = -1" "quantum (cur_task s) = QUANTUM"
    "spf_ticks s = -1" "PID (cur_task s) = 1" by auto
  have "reachable zsc s"
    unfolding reachable_def using blank_powered s(1)
    by (intro exI [of _ id] exI [of _ blank_kernel] exI [of _ "[]"] exI [of _ "0x7E3B"] exI [of _ s]) (simp add: zeos_run.none)
  with that s show ?thesis by (simp add: boot_free_frames)
qed

text \<open>Two system calls as steps of the machine, with what they leave.\<close>

lemma fork_step:
  assumes "reachable zsc s" and k: "kinv s (ch # F) R P" and "npages (brk (cur_task s)) \<le> free_frames s"
    and rq: "requeue (nice (cur_task s)) ch R P = (R2, P2)"
  obtains s' where "reachable zsc s'" "kinv s' F R2 P2" "cur s' = cur s" "quantum_ticks s' = quantum_ticks s"
    "spf_ticks s' = spf_ticks s" "nice (cur_task s') = nice (cur_task s)" "brk (cur_task s') = brk (cur_task s)"
    "nice (tasks s' ch) = nice (cur_task s)" "brk (tasks s' ch) = brk (cur_task s)"
    "quantum (tasks s' ch) = quantum (cur_task s)"
proof -
  have ch: "ch \<noteq> cur s" using kinvD(3) [OF k] by auto
  obtain s1 where s1: "user_to_sys s = Some s1" "kinv s1 (ch # F) R P" by (rule kinv_user_to_sys [OF k])
  have f1: "cur s1 = cur s" "quantum_ticks s1 = quantum_ticks s" "spf_ticks s1 = spf_ticks s" "mem s1 = mem s"
    "nice (tasks s1 (cur s)) = nice (cur_task s)" "brk (tasks s1 (cur s)) = brk (cur_task s)"
    "quantum (tasks s1 (cur s)) = quantum (cur_task s)"
    using s1(1) by (auto simp: user_to_sys_run cur_task_def current_def) (auto simp: kstat_def)
  obtain r s2 where s2: "sys_fork s1 = Some (r, s2)" "queues (lists s2) F R2 P2"
    and f2: "cur s2 = cur s" "quantum_ticks s2 = quantum_ticks s" "spf_ticks s2 = spf_ticks s"
    "nice (tasks s2 (cur s)) = nice (cur_task s)" "brk (tasks s2 (cur s)) = brk (cur_task s)"
    "nice (tasks s2 ch) = nice (cur_task s)" "brk (tasks s2 ch) = brk (cur_task s)" "quantum (tasks s2 ch) = quantum (cur_task s)"
    using s1(2) refl
  proof (cases rule: sys_fork_outcome)
    case (child ch' F' h pm gs ra st R' P')
    then show ?thesis using that f1 rq ch by (auto simp: cur_task_def current_def child_task_def)
  qed (use assms(3) f1 in \<open>auto simp: cur_task_def current_def\<close>)
  have k2: "kinv s2 F R2 P2" using kinv_fork [OF s1(2) s2(1)] queues_unique [OF s2(2)] kinvD(1) by metis
  obtain s3 where s3: "sys_to_user_ready s2 = Some s3" "kinv s3 F R2 P2" by (rule kinv_sys_to_user_ready [OF k2])
  have "system_call_handler 0 2 0 0 0 s = Some (Some r, s3)"
    using s1(1) s2(1) s3(1) by (simp add: system_call_handler_def MAX_SYSCALL_def sys_call_def)
  then have "zeos_step zsc (Syscall 0 2 0 0 0) s s3" by (rule zeos_step.syscall) simp
  then have "reachable zsc s3" by (rule reachable_step [OF assms(1)])
  then show ?thesis
    by (rule that [OF _ s3(2)]) (use s3(1) f2 in \<open>auto simp: sys_to_user_ready_run cur_task_def current_def kstat_def\<close>)
qed

lemma set_fps_step:
  assumes "reachable zsc s" and k: "kinv s F R P" and "fps \<noteq> (-1 :: DWord)"
  obtains s' where "reachable zsc s'" "kinv s' F R P" "cur s' = cur s" "quantum_ticks s' = quantum_ticks s"
    "spf_ticks s' = 18" "nice (cur_task s') = 0" "brk (cur_task s') = brk (cur_task s)" "mem s' = mem s"
proof -
  obtain s1 where s1: "user_to_sys s = Some s1" "kinv s1 F R P" by (rule kinv_user_to_sys [OF k])
  obtain r s2 where s2: "sys_set_fps fps s1 = Some (r, s2)"
    using assms(3) that [of 1] by (auto simp: sys_set_fps_def Let_def)
  note k2 = kinv_set_fps [OF s1(2) s2]
  obtain s3 where s3: "sys_to_user_ready s2 = Some s3" "kinv s3 F R P" by (rule kinv_sys_to_user_ready [OF k2])
  have "system_call_handler 0 17 fps 0 0 s = Some (Some r, s3)"
    using s1(1) s2(1) s3(1) by (simp add: system_call_handler_def MAX_SYSCALL_def sys_call_def)
  then have "zeos_step zsc (Syscall 0 17 fps 0 0) s s3" by (rule zeos_step.syscall) simp
  then have "reachable zsc s3" by (rule reachable_step [OF assms(1)])
  then show ?thesis
    by (rule that [OF _ s3(2)])
      (use s1(1) s2 s3(1) assms(3) in \<open>auto simp: sys_to_user_ready_run user_to_sys_run sys_set_fps_def Let_def
         upd_task_def cur_task_def current_def kstat_def\<close>)
qed

text \<open>After the first fork of the booted machine: process 2, in task 7, is ready.\<close>

lemma forked_pair:
  obtains s where "reachable zsc s" "kinv s [6, 5, 4, 3, 2, 1, 0] [7] []" "cur s = 8" "nice (cur_task s) = 1"
    "brk (cur_task s) = L_HEAP_START" "brk (tasks s 7) = L_HEAP_START" "quantum_ticks s = -1" "quantum (tasks s 7) = QUANTUM"
    "spf_ticks s = -1"
proof -
  obtain s where s: "reachable zsc s" "kinv s [7, 6, 5, 4, 3, 2, 1, 0] [] []" "cur s = 8"
    "brk (cur_task s) = L_HEAP_START" "nice (cur_task s) = 1" "free_frames s = 356"
    "quantum_ticks s = -1" "quantum (cur_task s) = QUANTUM" "spf_ticks s = -1" by (rule booted_alone [of zsc])
  have "npages (brk (cur_task s)) \<le> free_frames s" using s(4,6) by (simp add: npages_def)
  then show ?thesis
    by (rule fork_step [OF s(1,2), of "[7]" "[]"]) (use s(3-9) that in \<open>auto simp: requeue_def\<close>)
qed

end
