(* ===== verification/Zeos_Safety.thy ===== *)
theory Zeos_Safety
  imports Zeos_Reach
begin

text \<open>
  Safety of the whole machine, over every reachable state: the invariant, isolation of the processes from each other and of
  the kernel from the processes, ownership of physical frames.
\<close>

section \<open>What every reachable state satisfies\<close>

text \<open>
  C1. The invariant of the kernel holds in every reachable state: the ten task structures are the idle task, the
  running one and three duplicate-free queues on well-formed circular lists; page tables and frame map
  agree; the break of every process lies in its heap; the keyboard buffer is well-formed.
\<close>
theorem kernel_invariant:
  assumes "reachable zsc s"
  shows "\<exists>F R P. kinv s F R P"
  using reachable_kinv [OF assms] by blast

theorem kernel_invariant_witness: "\<exists>s. zeos_main id [] 0x7E3B blank_kernel = Some s \<and> (\<exists>F R P. kinv s F R P)"
proof -
  obtain s where s: "reachable (\<lambda>_ d. d) s" "zeos_main id [] 0x7E3B blank_kernel = Some s" by (rule booted_alone [of "\<lambda>_ d. d"])
  from kernel_invariant [OF s(1)] s(2) show ?thesis by blast
qed

text \<open>Two tasks of a state that are processes: running or in a run queue.\<close>

lemma process_at:
  assumes "reachable zsc s" and "queues (lists s) F R P" and "u \<in> set (R @ P)"
  shows "kinv s F R P" and "u \<in> procs s R P" and "u \<noteq> cur s" and "u < 10"
proof -
  show k: "kinv s F R P" by (rule reachable_kinv_at [OF assms(1,2)])
  show "u \<in> procs s R P" using assms(3) by (auto simp: procs_def)
  show "u \<noteq> cur s" using kinvD(3) [OF k] assms(3) by auto
  show "u < 10" using queues_tasks(2) [OF assms(2)] assms(3) by auto
qed

lemma untouched_reads:
  assumes "untouched u m m'" and "tables_ok m" "tables_ok m'" and "u < 10" and "user_page (page_of va)"
  shows "reads m' u va = reads m u va"
proof -
  have e: "entry m' u (page_of va) = entry m u (page_of va)" using assms(1,5) by (simp add: untouched_def)
  have "ram m' (phys_addr (pte_pbase (entry m u (page_of va))) va) = ram m (phys_addr (pte_pbase (entry m u (page_of va))) va)"
    if "pte_present (entry m u (page_of va))"
  proof -
    have nz: "entry m u (page_of va) \<noteq> 0" using that by auto
    have "drop_bit 12 (phys_addr (pte_pbase (entry m u (page_of va))) va) = word_of_nat (frame_of m u (page_of va))"
      unfolding phys_addr_frame pbase_small frame_of_def by (metis of_nat_unat ucast_id)
    with assms(1,5) nz show ?thesis unfolding untouched_def by blast
  qed
  then show ?thesis using assms(2-4) e by (simp add: reads_table)
qed

text \<open>
  C2. Processes are isolated: no step of the machine, whether a store, a system call or an interrupt while another
  task runs, changes what a queued process reads at any address of its data or heap, mapped or not.
\<close>
theorem process_isolation:
  assumes "reachable zsc s" and "zeos_step zsc e s s'" and "queues (lists s) F R P" and "u \<in> set (R @ P)"
    and "user_page (page_of va)"
  shows "reads (mem s') u va = reads (mem s) u va"
proof -
  note p = process_at [OF assms(1,3,4)]
  obtain F' R' P' where k': "kinv s' F' R' P'" using step_keeps_kinv [OF assms(2) p(1)] by blast
  from step_untouched [OF assms(2) p(1-3)] kinvD(10) [OF p(1)] kinvD(10) [OF k'] p(4) assms(5)
  show ?thesis by (rule untouched_reads)
qed

text \<open>A step that always exists: the release of a key.\<close>

lemma key_release_step:
  assumes "kinv s F R P"
  obtains s' where "zeos_step zsc (Key 0) s s'"
proof -
  obtain s1 where s1: "user_to_sys s = Some s1" "kinv s1 F R P" by (rule kinv_user_to_sys [OF assms])
  obtain s2 where "sys_to_user_ready s1 = Some s2" by (rule kinv_sys_to_user_ready [OF s1(2)])
  with s1(1) have "keyboard_handler 0 s = Some s2" by (simp add: keyboard_handler_def keyboard_routine_def)
  from that [OF zeos_step.key [OF this]] show ?thesis .
qed

theorem process_isolation_witness:
  "\<exists>s s'. reachable (\<lambda>_ d. d) s \<and> zeos_step (\<lambda>_ d. d) (Key 0) s s' \<and> queues (lists s) [6, 5, 4, 3, 2, 1, 0] [7] []
    \<and> reads (mem s') 7 0x108000 = reads (mem s) 7 0x108000"
proof -
  obtain s where s: "reachable (\<lambda>_ d. d) s" "kinv s [6, 5, 4, 3, 2, 1, 0] [7] []" by (rule forked_pair [of "\<lambda>_ d. d"])
  obtain s' where s': "zeos_step (\<lambda>_ d. d) (Key 0) s s'" by (rule key_release_step [OF s(2)])
  have "user_page (page_of 0x108000)" by (simp add: page_of_def user_page_def drop_bit_eq_div unat_div)
  then have "reads (mem s') 7 0x108000 = reads (mem s) 7 0x108000"
    using process_isolation [OF s(1) s' kinvD(1) [OF s(2)], of 7 "0x108000"] by simp
  with s(1) s' kinvD(1) [OF s(2)] show ?thesis by (intro exI conjI)
qed

text \<open>
  C9. Frames are not shared: in a reachable state a frame behind a data or heap page of any task is marked used, is
  neither a frame of the kernel nor of the shared program code, and stands in no other such entry, of the
  same task or of another.
\<close>
theorem frames_not_shared:
  assumes "reachable zsc s" and "t < 10" and "user_page p" and "entry (mem s) t p \<noteq> 0"
  shows "frame_of (mem s) t p \<in> used_frames (phys_mem (mem s)) \<and> 256 < frame_of (mem s) t p
    \<and> frame_of (mem s) t p \<notin> code_frames
    \<and> (\<forall>u < 10. \<forall>q. user_page q \<longrightarrow> entry (mem s) u q \<noteq> 0 \<longrightarrow> (u, q) \<noteq> (t, p) \<longrightarrow>
         pte_pbase (entry (mem s) u q) \<noteq> pte_pbase (entry (mem s) t p))"
proof -
  obtain F R P where k: "kinv s F R P" by (rule reachable_kinv [OF assms(1)])
  have eo: "entries_owned (mem s)" and oi: "owner_inj (mem s)" using kinvD(8) [OF k] by (auto simp: mem_inv_def)
  note e = entries_ownedD [OF eo assms(2-4)]
  have "pte_pbase (entry (mem s) u q) \<noteq> pte_pbase (entry (mem s) t p)"
    if "u < 10" "user_page q" "entry (mem s) u q \<noteq> 0" "(u, q) \<noteq> (t, p)" for u q
    using owner_injD [OF oi that(1) assms(2) that(2) assms(3) that(3) assms(4)] that(4) by (auto simp: frame_of_def)
  with e own_pool_bounds [OF e(1)] show ?thesis by blast
qed

lemma process_page:
  assumes "kinv s F R P" and "t \<in> procs s R P" and "264 \<le> p" and "p < 264 + npages (brk (tasks s t))"
  shows "t < 10" and "user_page p" and "entry (mem s) t p \<noteq> 0"
  using kinvD(8) [OF assms(1)] assms(2-4) by (auto simp: mem_inv_def user_page_def)

theorem frames_not_shared_witness:
  "\<exists>s. zeos_main id [] 0x7E3B blank_kernel = Some s \<and> frame_of (mem s) 8 270 \<in> used_frames (phys_mem (mem s))
    \<and> frame_of (mem s) 8 270 \<notin> code_frames"
proof -
  obtain s where s: "reachable (\<lambda>_ d. d) s" "zeos_main id [] 0x7E3B blank_kernel = Some s" "kinv s [7, 6, 5, 4, 3, 2, 1, 0] [] []"
    "cur s = 8" "brk (cur_task s) = L_HEAP_START" by (rule booted_alone [of "\<lambda>_ d. d"])
  have "npages (brk (tasks s 8)) = 20" using s(4,5) by (simp add: npages_def cur_task_def current_def)
  then have p: "user_page 270" "entry (mem s) 8 270 \<noteq> 0"
    using process_page [OF s(3) cur_procs, of 270] s(4) by simp_all
  from frames_not_shared [OF s(1) _ p] s(2) show ?thesis by auto
qed

text \<open>
  C13. A running process cannot write into the kernel: a store in user mode that succeeds leaves the physical memory
  below one megabyte alone (code, data, stacks and page tables of the kernel), and changes nothing of the
  state but one byte of memory, in a frame the process maps as writable for user mode.
\<close>
theorem kernel_protected:
  assumes "reachable zsc s" and "user_store va b s = Some s'"
  shows "\<exists>a. 0x100000 \<le> a \<and> s' = s\<lparr>mem := (mem s)\<lparr>ram := (ram (mem s))(a := b)\<rparr>\<rparr>
    \<and> drop_bit 12 a = pte_pbase (entry (mem s) (cur s) (page_of va))
    \<and> pte_user (entry (mem s) (cur s) (page_of va)) \<and> pte_rw (entry (mem s) (cur s) (page_of va))"
proof -
  obtain F R P where k: "kinv s F R P" by (rule reachable_kinv [OF assms(1)])
  let ?m = "mem s" and ?e = "entry (mem s) (cur s) (page_of va)"
  have ok: "tables_ok ?m" "cr3 ?m = Some (cur s)" "cur s < 10" using kinvD(2,7,10) [OF k] by simp_all
  from assms(2) obtain e a where a: "page_entry ?m va = Some e" "translate ?m va = Some a" "pte_user e" "pte_rw e"
    "s' = s\<lparr>mem := ?m\<lparr>ram := (ram ?m)(a := b)\<rparr>\<rparr>"
    by (auto simp: user_store_def bind_eq_Some_conv split: if_splits)
  have d: "drop_bit 22 va = 0" using translate_run [OF ok, of va] a(2) by (auto split: if_splits)
  have e: "e = ?e" using page_entry_run [OF ok d] a(1) by (simp add: entry_def page_of_def)
  note t = translate_frame [OF ok a(2)]
  have mi: "entries_owned ?m" "kernel_ok ?m" "code_ok ?m (cur s)"
    using kinvD(8) [OF k] cur_procs [of s R P] by (auto simp: mem_inv_def)
  have "256 \<le> unat (drop_bit 12 a)"
  proof (cases "page_of va < 256")
    case True
    then have "?e = kernel_pte (word_of_nat (page_of va))"
      using t(2) mi(2) ok(3) boot_entry_present [of "page_of va"] by (simp add: kernel_ok_def)
    then have "\<not> pte_user ?e" by (simp add: pte_user_def kernel_pte_def bit_simps)
    with a(3) e show ?thesis by simp
  next
    case False
    show ?thesis
    proof (cases "page_of va < 264")
      case True
      define i where "i = page_of va - 256"
      have i: "page_of va = 256 + i" "i < 8" using True False by (simp_all add: i_def)
      have "pte_pbase ?e = word_of_nat (256 + 2 * i)" using mi(3) i(2) unfolding i(1) code_ok_def by blast
      then show ?thesis using t(3) unat_frame [of "256 + 2 * i"] i(2) by simp
    next
      case False
      then have u: "user_page (page_of va)" using t(1) by (simp add: user_page_def)
      have "?e \<noteq> 0" using t(2) by auto
      from own_pool_bounds [OF entries_ownedD(1) [OF mi(1) ok(3) u this]] show ?thesis
        using t(3) by (simp add: frame_of_def)
    qed
  qed
  then have "0x100000 \<le> a" by (simp add: word_le_nat_alt drop_bit_eq_div unat_div)
  with a e t(3) show ?thesis by blast
qed


text \<open>A store to a data or heap page of the running process succeeds.\<close>

lemma store_runs:
  assumes k: "kinv s F R P" and va: "drop_bit 22 va = 0" "264 \<le> page_of va" "page_of va < 264 + npages (brk (cur_task s))"
  obtains a where "user_store va b s = Some (s\<lparr>mem := (mem s)\<lparr>ram := (ram (mem s))(a := b)\<rparr>\<rparr>)"
    and "translate (mem s) va = Some a"
proof -
  let ?e = "entry (mem s) (cur s) (page_of va)"
  have ok: "tables_ok (mem s)" "cr3 (mem s) = Some (cur s)" "cur s < 10" using kinvD(2,7,10) [OF k] by simp_all
  have p: "user_page (page_of va)" "?e \<noteq> 0"
    using process_page [OF k cur_procs va(2)] va(3) by (simp_all add: cur_task_def current_def)
  have eo: "entries_owned (mem s)" using kinvD(8) [OF k] by (simp add: mem_inv_def)
  note e = entries_ownedD [OF eo ok(3) p]
  have m: "(mem s)\<lparr>cr3 := Some (cur s)\<rparr> = mem s" using ok(2) by (auto intro!: mm.equality)
  have "page_entry (mem s) va = Some ?e" using page_entry_run [OF ok va(1)] by (simp add: entry_def page_of_def)
  moreover obtain a where a: "translate (mem s) va = Some a"
    using translate_table [OF ok(1,3), of va] e(4) va(1) m by simp
  moreover have "pte_user ?e" "pte_rw ?e" by (subst e(3), simp)+
  ultimately show ?thesis by (intro that [of a]) (simp_all add: user_store_def)
qed

theorem kernel_protected_witness:
  "\<exists>s a. zeos_main id [] 0x7E3B blank_kernel = Some s \<and> 0x100000 \<le> a
    \<and> user_store 0x108000 7 s = Some (s\<lparr>mem := (mem s)\<lparr>ram := (ram (mem s))(a := 7)\<rparr>\<rparr>)"
proof -
  obtain s where s: "reachable (\<lambda>_ d. d) s" "zeos_main id [] 0x7E3B blank_kernel = Some s" "kinv s [7, 6, 5, 4, 3, 2, 1, 0] [] []"
    "brk (cur_task s) = L_HEAP_START" by (rule booted_alone [of "\<lambda>_ d. d"])
  have v: "drop_bit 22 (0x108000 :: DWord) = 0" "page_of 0x108000 = 264"
    by (simp_all add: page_of_def drop_bit_eq_div unat_div)
  obtain a where "user_store 0x108000 7 s = Some (s\<lparr>mem := (mem s)\<lparr>ram := (ram (mem s))(a := 7)\<rparr>\<rparr>)"
    by (rule store_runs [OF s(3) v(1), of 7]) (use v(2) s(4) in \<open>auto simp: npages_def\<close>)
  with kernel_protected [OF s(1) this] s(2) show ?thesis by metis
qed

end
