(* ===== verification/Zeos_Process.thy ===== *)
theory Zeos_Process
  imports Zeos_Safety
begin

text \<open>
  The life of a process: \<^verbatim>\<open>fork\<close>, \<^verbatim>\<open>exit\<close> and the scheduler between them, in every reachable state and on every
  branch.
\<close>

section \<open>Fork\<close>

lemma phys_fbyte: "phys_addr (word_of_nat f) va = fbyte f (unat (take_bit 12 va))"
  unfolding fbyte_def phys_addr_def by (simp add: flip: unsigned_take_bit_eq)

lemma offset_less: "unat (take_bit 12 (va :: DWord)) < 4096"
  using take_bit_nat_less_exp [of 12 "unat va"] by (simp only: unsigned_take_bit_eq [symmetric]) simp

lemma frame_eq_reads:
  "frame_eq r f r' g \<Longrightarrow> r (phys_addr (word_of_nat f) va) = r' (phys_addr (word_of_nat g) va)"
  using offset_less [of va] by (simp add: frame_eq_def phys_fbyte)

text \<open>The memory of parent and child after a fork: pages of code, data and heap.\<close>

lemma fork_reads:
  fixes m :: mm and pm :: frame_map
  assumes inv: "mem_inv m L N" and t: "t \<in> L" and u: "u < 10" "u \<notin> L"
    and gs: "length gs = N t" "set gs \<subseteq> own_pool - used_frames (phys_mem m)" "264 + 2 * N t \<le> 1024"
    and cp: "\<forall>i < N t. frame_eq ra (gs ! i) (ram m) (frame_of m t (264 + i))"
    and old: "\<forall>a. drop_bit 12 a \<notin> word_of_nat ` set gs \<longrightarrow> ra a = ram m a"
    and va: "256 \<le> page_of va" "page_of va < 264 + N t"
  defines "m' \<equiv> (fork_tables t u gs m)\<lparr>phys_mem := pm, ram := ra\<rparr>"
  shows "reads m' u va = reads m t va" and "reads m' t va = reads m t va"
proof -
  let ?p = "page_of va"
  have ok: "tables_ok m" "t < 10" "code_ok m t" "entries_owned m" "code_frames \<subseteq> used_frames (phys_mem m)"
    using inv t by (auto simp: mem_inv_def)
  have pres: "?p < 1024" using va gs(3) by linarith
  have ok': "tables_ok m'" using ok(1) by (simp add: m'_def fork_tables_def)
  have tu: "t \<noteq> u" using t u(2) by auto
  have e: "entry m' v ?p = (if v = u \<and> 264 \<le> ?p then user_pte (word_of_nat (gs ! (?p - 264)))
      else if v = u then user_pte (pte_pbase (entry m t ?p)) else entry m v ?p)" if "v \<in> {t, u}" for v
    using entry_fork_tables [of gs ?p t u m v] gs(1,3) va pres tu that by (auto simp: m'_def)
  have keep: "ra (phys_addr (pte_pbase (entry m t ?p)) va) = ram m (phys_addr (pte_pbase (entry m t ?p)) va)"
    and pr: "pte_present (entry m t ?p)"
  proof -
    have "unat (pte_pbase (entry m t ?p)) \<in> used_frames (phys_mem m) \<and> pte_present (entry m t ?p)"
    proof (cases "?p < 264")
      case True
      define i where "i = ?p - 256"
      have i: "?p = 256 + i" "i < 8" using True va by (simp_all add: i_def)
      have "pte_pbase (entry m t ?p) = word_of_nat (256 + 2 * i)" "pte_present (entry m t ?p)"
        using ok(3) i(2) unfolding i(1) code_ok_def by blast+
      then show ?thesis using code_frames_even [OF i(2)] ok(5) unat_frame [of "256 + 2 * i"] i(2) by auto
    next
      case False
      then have "user_page ?p" "entry m t ?p \<noteq> 0" using inv t va pres by (auto simp: mem_inv_def user_page_def)
      from entries_ownedD(2,4) [OF ok(4,2) this] show ?thesis by (simp add: frame_of_def)
    qed
    then have f: "unat (pte_pbase (entry m t ?p)) \<notin> set gs" and pr: "pte_present (entry m t ?p)" using gs(2) by auto
    have "pte_pbase (entry m t ?p) \<noteq> word_of_nat g" if "g \<in> set gs" for g
      using f that gs(2) own_pool_bounds unat_frame [of g] by (metis DiffD1 subsetD)
    then have "drop_bit 12 (phys_addr (pte_pbase (entry m t ?p)) va) \<notin> word_of_nat ` set gs"
      by (auto simp: phys_addr_frame pbase_small)
    with old show "ra (phys_addr (pte_pbase (entry m t ?p)) va) = ram m (phys_addr (pte_pbase (entry m t ?p)) va)" by blast
    show "pte_present (entry m t ?p)" by (rule pr)
  qed
  have ram': "ram m' = ra" by (simp add: m'_def)
  show "reads m' t va = reads m t va"
    using ok(1,2) ok' e [of t] tu keep ram' by (simp add: reads_table)
  have "ra (phys_addr (pte_pbase (entry m' u ?p)) va) = ram m (phys_addr (pte_pbase (entry m t ?p)) va)"
  proof (cases "264 \<le> ?p")
    case True
    define i where "i = ?p - 264"
    have i: "?p = 264 + i" "i < N t" using True va by (simp_all add: i_def)
    have nz: "user_page ?p" "entry m t ?p \<noteq> 0" using pres True pr by (auto simp: user_page_def)
    from i have "frame_eq ra (gs ! i) (ram m) (frame_of m t ?p)" using cp by simp
    moreover have "pte_pbase (entry m t ?p) = word_of_nat (frame_of m t ?p)"
      using entries_ownedD(5) [OF ok(4,2) nz] .
    moreover have "entry m' u ?p = user_pte (word_of_nat (gs ! i))" using e [of u] True by (simp add: i_def)
    ultimately show ?thesis by (simp add: phys_addr_take frame_eq_reads)
  next
    case False
    then show ?thesis using e [of u] keep by (simp add: phys_addr_take)
  qed
  moreover have "pte_present (entry m' u ?p)" using e [of u] by simp
  ultimately show "reads m' u va = reads m t va"
    using ok(1,2) ok' u(1) pr ram' by (simp add: reads_table)
qed


lemma free_after_taking:
  assumes "used_frames pm = used_frames m \<union> set gs" and "distinct gs" and "set gs \<subseteq> own_pool - used_frames m"
  shows "card (frame_pool - used_frames pm) + length gs = card (frame_pool - used_frames m)"
proof -
  have sub: "set gs \<subseteq> frame_pool - used_frames m" using assms(3) own_pool_bounds by blast
  have fin: "finite (frame_pool - used_frames m)"
    by (rule finite_subset [of _ "{..<1024}"]) (auto simp: frame_pool_def)
  have "frame_pool - used_frames pm = (frame_pool - used_frames m) - set gs" using assms(1) by blast
  then have "card (frame_pool - used_frames pm) = card (frame_pool - used_frames m) - card (set gs)"
    using card_Diff_subset [OF _ sub] by simp
  then show ?thesis using card_mono [OF fin sub] distinct_card [OF assms(2)] by simp
qed





text \<open>The booted machine as an example: the first fork.\<close>

lemma first_fork:
  obtains s where "reachable zsc s" "zeos_main id [] 0x7E3B blank_kernel = Some s" "queues (lists s) (7 # [6, 5, 4, 3, 2, 1, 0]) [] []"
    "cur s = 8" "20 = npages (brk (cur_task s))" "20 \<le> free_frames s" "nextPID s = 2"
proof -
  obtain s where s: "reachable zsc s" "zeos_main id [] 0x7E3B blank_kernel = Some s" "kinv s [7, 6, 5, 4, 3, 2, 1, 0] [] []"
    "cur s = 8" "brk (cur_task s) = L_HEAP_START" "nextPID s = 2" "free_frames s = 356" by (rule booted_alone [of zsc])
  have "20 = npages (brk (cur_task s))" using s(5) by (simp add: npages_def)
  then show ?thesis using that [OF s(1,2) kinvD(1) [OF s(3)] s(4)] s(6,7) by simp
qed


text \<open>
  C30. Parent and child share the frames of the program code, and the child may write them: \<^verbatim>\<open>fork\<close> maps all eight code
  pages of the child as writable, on the frames of the parent. The isolation of processes therefore does
  not reach their code.
\<close>
theorem fork_shares_code:
  assumes "reachable zsc s" and "queues (lists s) (ch # F) R P" and "npages (brk (cur_task s)) \<le> free_frames s"
    and "256 \<le> p" and "p < 264"
  shows "\<exists>s'. sys_fork s = Some (nextPID s, s') \<and> pte_pbase (entry (mem s') ch p) = pte_pbase (entry (mem s') (cur s) p)
    \<and> pte_present (entry (mem s') ch p) \<and> pte_user (entry (mem s') ch p) \<and> pte_rw (entry (mem s') ch p)"
proof -
  have k: "kinv s (ch # F) R P" by (rule reachable_kinv_at [OF assms(1,2)])
  have ch: "ch \<noteq> cur s" using kinvD(3) [OF k] by auto
  show ?thesis
    using k refl
  proof (cases rule: sys_fork_outcome)
    case (child ch' F' h pm gs ra st R2 P2)
    note e = entry_fork_tables [of gs p "cur s" ch "mem s"]
    have "entry (fork_tables (cur s) ch gs (mem s)) (cur s) p = entry (mem s) (cur s) p"
      using e [of "cur s"] child(5,10) assms(4,5) ch by simp
    moreover have "entry (fork_tables (cur s) ch gs (mem s)) ch p = user_pte (pte_pbase (entry (mem s) (cur s) p))"
      using e [of ch] child(5,10) assms(4,5) ch by simp
    ultimately show ?thesis using child(1,13) by (simp add: pbase_small)
  qed (use assms(3) in \<open>simp_all add: cur_task_def current_def\<close>)
qed

theorem fork_shares_code_witness:
  "\<exists>s s'. zeos_main id [] 0x7E3B blank_kernel = Some s \<and> sys_fork s = Some (2, s') \<and> pte_rw (entry (mem s') 7 260)"
proof -
  obtain s where s: "reachable (\<lambda>_ d. d) s" "zeos_main id [] 0x7E3B blank_kernel = Some s"
    "queues (lists s) (7 # [6, 5, 4, 3, 2, 1, 0]) [] []" "20 = npages (brk (cur_task s))" "20 \<le> free_frames s"
    "nextPID s = 2" by (rule first_fork [of "\<lambda>_ d. d"])
  from s(4,5) have "npages (brk (cur_task s)) \<le> free_frames s" by simp
  from fork_shares_code [OF s(1,3) this, of 260] s(2,6) show ?thesis by auto
qed

section \<open>Exit\<close>

lemma free_after_release:
  assumes "used_frames pm = used_frames m - X" and "X \<subseteq> frame_pool \<inter> used_frames m"
  shows "card (frame_pool - used_frames pm) = card (frame_pool - used_frames m) + card X"
proof -
  have fin: "finite frame_pool" by (simp add: frame_pool_def)
  have "frame_pool - used_frames pm = (frame_pool - used_frames m) \<union> X" using assms by blast
  moreover have "card ((frame_pool - used_frames m) \<union> X) = card (frame_pool - used_frames m) + card X"
    using assms(2) fin by (intro card_Un_disjoint) (auto intro: finite_subset)
  ultimately show ?thesis by simp
qed

text \<open>The task taken next is a queued one and resumes where its stack says.\<close>

lemma next_task_in: "next_task nc R P = Some (t, R', P') \<Longrightarrow> t \<in> set (R @ P)"
  by (cases R; cases P) (auto simp: next_task_def split: if_splits)

text \<open>
  C6. \<^verbatim>\<open>exit\<close>, in every reachable state: when the queues hold a task to take over, it becomes the running one on its
  own page table; the task structure of the process goes to the end of the free queue, with PID -1, the PIDs
  of the others stay, and exactly the frames of its data and heap are given back. Without one the kernel has
  no task to run: it takes the head of the empty queue for a task.
\<close>
theorem exit_outcomes:
  assumes "reachable zsc s" and "queues (lists s) F R P" and "n = npages (brk (cur_task s))"
  shows "case next_task (nice (cur_task s)) R P of
      None \<Rightarrow> sys_exit fp s = None
    | Some (t, R', P') \<Rightarrow> \<exists>s'. sys_exit fp s = Some s' \<and> cur s' = t \<and> cr3 (mem s') = Some t
        \<and> queues (lists s') (F @ [cur s]) R' P' \<and> PID (tasks s' (cur s)) = -1
        \<and> (\<forall>u. u \<noteq> cur s \<longrightarrow> PID (tasks s' u) = PID (tasks s u))
        \<and> used_frames (phys_mem (mem s')) = used_frames (phys_mem (mem s)) - frames_of (mem s) (cur s) n
        \<and> free_frames s' = free_frames s + n"
proof -
  have k: "kinv s F R P" by (rule reachable_kinv_at [OF assms(1,2)])
  have n: "n = npages (brk (tasks s (cur s)))" using assms(3) by (simp add: cur_task_def current_def)
  obtain h pm where e: "queues h (F @ [cur s]) R P" "sys_exit fp s = sched_next_rr fp (exited s h pm)"
    by (rule sys_exit_run [OF k n])
  show ?thesis
  proof (cases "next_task (nice (cur_task s)) R P")
    case None
    have "sys_exit fp s = None" unfolding e(2) by (rule sched_next_rr_stuck) (use e(1) None in simp_all)
    with None show ?thesis by simp
  next
    case (Some r)
    then obtain t R' P' where t: "next_task (nice (cur_task s)) R P = Some (t, R', P')" by (cases r) auto
    have tin: "t \<in> set (R @ P)" by (rule next_task_in [OF t])
    then obtain i where i: "kernel_esp (tasks s t) = Some (t, i)" using kinvD(4) [OF k] by blast
    have tc: "t \<noteq> cur s" using kinvD(3) [OF k] tin by auto
    have "\<exists>s'. sched_next_rr fp (exited s h pm) = Some s'"
      using sched_next_rr_switch [of "exited s h pm" "F @ [cur s]" R P t R' P' i fp] e(1) t i tc by auto
    then obtain s' where s': "sys_exit fp s = Some s'" using e(2) by auto
    note ex = kinv_exit [OF k s']
    from ex t n obtain R2 P2 where r: "cur s' = t" "kinv s' (F @ [cur s]) R' P'" "PID (tasks s' (cur s)) = -1"
      "\<forall>u. u \<noteq> cur s \<longrightarrow> PID (tasks s' u) = PID (tasks s u)"
      "used_frames (phys_mem (mem s')) = used_frames (phys_mem (mem s)) - frames_of (mem s) (cur s) n"
      by (metis option.inject prod.inject)
    note fp = frames_of_process [OF kinvD(8) [OF k] cur_procs]
    have "frames_of (mem s) (cur s) n \<subseteq> frame_pool \<inter> used_frames (phys_mem (mem s))"
      using fp(2) own_pool_bounds unfolding n by blast
    then have "free_frames s' = free_frames s + n"
      using free_after_release [OF r(5)] fp(1) n by simp
    with t s' r kinvD(1,7) [OF r(2)] show ?thesis by simp
  qed
qed

theorem exit_outcomes_witness:
  "\<exists>s s'. reachable (\<lambda>_ d. d) s \<and> cur s = 8 \<and> sys_exit 500 s = Some s' \<and> cur s' = 7 \<and> PID (tasks s' 8) = -1
    \<and> free_frames s' = free_frames s + 20"
proof -
  obtain s where s: "reachable (\<lambda>_ d. d) s" "kinv s [6, 5, 4, 3, 2, 1, 0] [7] []" "cur s = 8" "nice (cur_task s) = 1"
    "brk (cur_task s) = L_HEAP_START" by (rule forked_pair [of "\<lambda>_ d. d"])
  have n: "20 = npages (brk (cur_task s))" using s(5) by (simp add: npages_def)
  from exit_outcomes [OF s(1) kinvD(1) [OF s(2)] n, of 500] s(1,3,4) show ?thesis by (auto simp: next_task_def)
qed

section \<open>The scheduler\<close>

text \<open>
  C5. The scheduler refines its policy on abstract queues: one tick does exactly what \<open>rr_schedule\<close> does to the
  running task, the two run queues and the remaining quantum, where it has a result, and has none where that has
  none. The free queue stays. On a switch the outgoing task's stack pointer is saved, and the incoming task
  continues at the return address on its own stack, with its own page table and kernel stack.
\<close>
theorem schedule_refines:
  assumes "reachable zsc s" and "queues (lists s) F R P"
  shows "case rr_schedule (\<lambda>t. nice (tasks s t)) (\<lambda>t. quantum (tasks s t)) (cur s, R, P, quantum_ticks s) of
      None \<Rightarrow> schedule fp s = None
    | Some (t, R', P', q) \<Rightarrow> \<exists>s'. schedule fp s = Some s' \<and> cur s' = t \<and> queues (lists s') F R' P' \<and> quantum_ticks s' = q
        \<and> (t \<noteq> cur s \<longrightarrow> kernel_esp (tasks s' (cur s)) = Some (cur s, fp) \<and> cr3 (mem s') = Some t
             \<and> tss_esp0 s' = Some (KERNEL_ESP t) \<and> msr_esp s' = Some (KERNEL_ESP t)
             \<and> (\<exists>i. kernel_esp (tasks s t) = Some (t, i) \<and> resumed_at s' = stack (tasks s t) (i + 1)))"
proof -
  have k: "kinv s F R P" by (rule reachable_kinv_at [OF assms(1,2)])
  obtain R2 P2 where rq: "requeue (nice (cur_task s)) (cur s) R P = (R2, P2)" by fastforce
  have rq': "requeue (nice (tasks s (cur s))) (cur s) R P = (R2, P2)" using rq by (simp add: cur_task_def current_def)
  show ?thesis
    using kinvD(1-4) [OF k] rq
  proof (cases rule: schedule_cases [where fp = fp])
    case tick
    then show ?thesis using assms(2) by (simp add: rr_schedule_def)
  next
    case (alone st)
    then show ?thesis using assms(2) by (simp add: rr_schedule_def cur_task_def current_def)
  next
    case (switch t i h st1 st2 R' P')
    have "dir_pages_baseAddr (tasks s t) = Some t"
      using switch(4) k by (auto simp: kinv_def procs_def)
    moreover have "tss_esp0 (switch_to fp t i st1 st2 x) = Some (KERNEL_ESP t)"
      "msr_esp (switch_to fp t i st1 st2 x) = Some (KERNEL_ESP t)" for x by (simp_all add: switch_to_def)
    ultimately show ?thesis using switch rq' by (auto simp: rr_schedule_def cur_task_def current_def)
  next
    case stuck
    with rq' show ?thesis by (auto simp: rr_schedule_def cur_task_def current_def)
  qed
qed

theorem schedule_refines_witness:
  "\<exists>s s'. reachable (\<lambda>_ d. d) s \<and> cur s = 8 \<and> schedule 500 s = Some s' \<and> cur s' = 7 \<and> quantum_ticks s' = 15
    \<and> queues (lists s') [6, 5, 4, 3, 2, 1, 0] [8] [] \<and> cr3 (mem s') = Some 7"
proof -
  obtain s where s: "reachable (\<lambda>_ d. d) s" "kinv s [6, 5, 4, 3, 2, 1, 0] [7] []" "cur s = 8" "nice (cur_task s) = 1"
    "quantum_ticks s = -1" "quantum (tasks s 7) = QUANTUM" by (rule forked_pair [of "\<lambda>_ d. d"])
  have "rr_schedule (\<lambda>t. nice (tasks s t)) (\<lambda>t. quantum (tasks s t)) (cur s, [7], [], quantum_ticks s) = Some (7, [8], [], 15)"
    using s(3-6) by (simp add: rr_schedule_def requeue_def next_task_def cur_task_def current_def)
  with schedule_refines [OF s(1) kinvD(1) [OF s(2)], of 500] s(1,3) show ?thesis by auto
qed

lemma schedule_stuck:
  assumes "kinv s F [] P" and "P \<noteq> []" and "nice (cur_task s) = 0" and "sint (quantum_ticks s - 1) \<le> 0"
  shows "schedule fp s = None"
proof -
  obtain R2 P2 where rq: "requeue (nice (cur_task s)) (cur s) [] P = (R2, P2)" by fastforce
  have "R2 = []" using rq assms(3) by (simp add: requeue_def)
  with assms(3) have n: "next_task (nice (cur_task s)) R2 P2 = None" by (simp add: next_task_def)
  show ?thesis
    using kinvD(1-4) [OF assms(1)] rq
    by (cases rule: schedule_cases [where fp = fp]) (use assms n in auto)
qed


end
