(* ===== verification/Zeos_Fair.thy ===== *)
theory Zeos_Fair
  imports Zeos_Process
begin

text \<open>
  Sequences of clock interrupts: while no process has asked for a frame rate, every ready process gets the
  processor.
\<close>

text \<open>Clock interrupts in a row; the frame pointers at which they find the kernel are a list.\<close>

fun clocks :: "(DWord \<Rightarrow> screen \<Rightarrow> screen) \<Rightarrow> nat list \<Rightarrow> kernel \<Rightarrow> kernel option" where
  "clocks zsc [] s = Some s"
| "clocks zsc (fp # fps) s = do { s \<leftarrow> clock_handler zsc fp s; clocks zsc fps s }"

lemma sint_minus_one:
  assumes "sint x > 0"
  shows "sint (x - 1 :: DWord) = sint x - 1"
proof -
  have "x - 1 = word_of_int (sint x - 1)" by simp
  then have "sint (x - 1) = signed_take_bit 31 (sint x - 1)" by (simp only: signed_of_int) simp
  also have "\<dots> = sint x - 1"
    using assms sint_less [of x] by (intro signed_take_bit_int_eq_self) simp_all
  finally show ?thesis .
qed

lemma spf_switch_to [simp]: "spf_ticks (switch_to fp t k st1 st2 s) = spf_ticks s"
  by (simp add: switch_to_def)

text \<open>One clock tick when no frame rate is set and every process has low priority.\<close>

lemma calm_tick:
  assumes k: "kinv s F R []" and n: "nice (cur_task s) \<noteq> 0" and spf: "spf_ticks s = -1"
  obtains (same) s' where "clock_handler zsc fp s = Some s'" "kinv s' F R []" "nice (cur_task s') \<noteq> 0" "spf_ticks s' = -1"
      "cur s' = cur s" "sint (quantum_ticks s - 1) > 0 \<and> quantum_ticks s' = quantum_ticks s - 1 \<or> R = []"
  | (switch) s' t R' where "clock_handler zsc fp s = Some s'" "kinv s' F (R' @ [cur s]) []" "nice (cur_task s') \<noteq> 0"
      "spf_ticks s' = -1" "cur s' = t" "R = t # R'"
proof -
  obtain s1 where s1: "user_to_sys s = Some s1" "kinv s1 F R []" by (rule kinv_user_to_sys [OF k])
  have f1: "cur s1 = cur s" "quantum_ticks s1 = quantum_ticks s" "spf_ticks s1 = -1" "nice (tasks s1 t) = nice (tasks s t)" for t
    using s1(1) spf by (auto simp: user_to_sys_run) (auto simp: kstat_def)
  define s2 where "s2 = s1\<lparr>scr := zsc (zeos_ticks s1) (scr s1), zeos_ticks := zeos_ticks s1 + 1\<rparr>"
  have k2: "kinv s2 F R []" using s1(2) by (simp add: s2_def)
  have f2: "cur s2 = cur s" "quantum_ticks s2 = quantum_ticks s" "spf_ticks s2 = -1" "nice (tasks s2 t) = nice (tasks s t)" for t
    using f1 by (simp_all add: s2_def)
  have fps: "schedule_fps s2 = Some s2" using f2(3) by (simp add: schedule_fps_def)
  have run: "clock_handler zsc fp s = do { s \<leftarrow> schedule fp s2; sys_to_user_ready s }"
    by (simp add: clock_handler_def clock_routine_def Let_def s1(1) s2_def [symmetric] fps)
  have n2: "nice (cur_task s2) \<noteq> 0" using n f2 by (simp add: cur_task_def current_def)
  have finish: "\<exists>s'. clock_handler zsc fp s = Some s' \<and> kinv s' F R' [] \<and> cur s' = cur s3 \<and> spf_ticks s' = spf_ticks s3
      \<and> quantum_ticks s' = quantum_ticks s3 \<and> nice (cur_task s') = nice (cur_task s3)"
    if sc: "schedule fp s2 = Some s3" and q: "queues (lists s3) F R' []" for s3 R'
  proof -
    have k3: "kinv s3 F R' []" using kinv_schedule [OF k2 sc] queues_unique [OF q] kinvD(1) by metis
    obtain s4 where s4: "sys_to_user_ready s3 = Some s4" "kinv s4 F R' []" by (rule kinv_sys_to_user_ready [OF k3])
    then show ?thesis using sc run by (auto simp: sys_to_user_ready_run cur_task_def current_def) (auto simp: kstat_def)
  qed
  have rq: "requeue (nice (cur_task s2)) (cur s2) R [] = (R @ [cur s], [])" using n2 f2 by (simp add: requeue_def)
  show ?thesis
    using kinvD(1-4) [OF k2] rq
  proof (cases rule: schedule_cases [where fp = fp])
    case tick
    from finish [OF tick(2), of R] kinvD(1) [OF k2] obtain s' where "clock_handler zsc fp s = Some s'" "kinv s' F R []"
      "cur s' = cur s" "spf_ticks s' = -1" "quantum_ticks s' = quantum_ticks s - 1" "nice (cur_task s') \<noteq> 0"
      using f2 n2 by (auto simp: cur_task_def current_def)
    with same tick(1) f2(2) show ?thesis by simp
  next
    case (alone st)
    from finish [OF alone(4), of R] kinvD(1) [OF k2] obtain s' where "clock_handler zsc fp s = Some s'" "kinv s' F R []"
      "cur s' = cur s" "spf_ticks s' = -1" "nice (cur_task s') \<noteq> 0"
      using f2 n2 by (auto simp: cur_task_def current_def kstat_def)
    with same alone(2) show ?thesis by simp
  next
    case (switch t k h st1 st2 R' P')
    then obtain R0 where R: "R = t # R0" "R' = R0 @ [cur s]" "P' = []" using n2 by (cases R) (auto simp: next_task_def)
    have nt: "nice (tasks s2 t) \<noteq> 0" using k2 R(1) by (simp add: kinv_def)
    from finish [OF switch(8), of "R0 @ [cur s]"] switch(5,7) nt f2 R obtain s' where "clock_handler zsc fp s = Some s'" "kinv s' F (R0 @ [cur s]) []"
      "cur s' = t" "spf_ticks s' = -1" "nice (cur_task s') \<noteq> 0"
      by (auto simp: cur_task_def current_def)
    then show ?thesis by (intro that(2) [of s' R0 t]) (simp_all add: R(1))
  next
    case stuck
    then show ?thesis using n2 by simp
  qed
qed

lemma eventually_runs:
  assumes "kinv s F (xs @ t # ys) []" and "nice (cur_task s) \<noteq> 0" and "spf_ticks s = -1"
  shows "\<exists>n s'. clocks zsc (map fp [0..<n]) s = Some s' \<and> cur s' = t"
  using assms
proof (induction "(length xs, nat (sint (quantum_ticks s - 1)))" arbitrary: s xs ys fp rule: wf_induct_rule [OF wf_lex_prod [OF wf_less_than wf_less_than]])
  case (1 s xs ys fp)
  have step: "\<exists>n s'. clocks zsc (map fp [0..<n]) s = Some s' \<and> cur s' = t"
    if c: "clock_handler zsc (fp 0) s = Some s1" and r: "\<exists>n s'. clocks zsc (map (fp \<circ> Suc) [0..<n]) s1 = Some s' \<and> cur s' = t" for s1
  proof -
    from r obtain n s' where "clocks zsc (map (fp \<circ> Suc) [0..<n]) s1 = Some s'" "cur s' = t" by blast
    with c show ?thesis by (intro exI [of _ "Suc n"] exI [of _ s']) (simp del: upt_Suc add: upt_conv_Cons map_Suc_upt [symmetric])
  qed
  show ?case
    using "1.prems"
  proof (cases rule: calm_tick [where zsc = zsc and fp = "fp 0"])
    case (same s1)
    then have "nat (sint (quantum_ticks s1 - 1)) < nat (sint (quantum_ticks s - 1))"
      using sint_minus_one [of "quantum_ticks s - 1"] by auto
    then show ?thesis
      using same by (intro step [OF same(1)] "1.hyps") simp_all
  next
    case (switch s1 u R')
    show ?thesis
    proof (cases xs)
      case Nil
      with switch have "clocks zsc (map fp [0..<1]) s = Some s1" "cur s1 = t" by simp_all
      then show ?thesis by blast
    next
      case (Cons x xs')
      with switch have "R' @ [cur s] = xs' @ t # ys @ [cur s]" "length xs' < length xs" by simp_all
      with switch show ?thesis
        by (intro step [OF switch(1)] "1.hyps" [where xs = xs' and ys = "ys @ [cur s]"]) simp_all
    qed
  qed
qed

section \<open>Properties\<close>

text \<open>
  C14. No task structure is lost: in every reachable state a walk over each of the three queues ends, and the tasks they
  hold, the running one and the idle one are the ten tasks of the array, each of them once; the ready queue holds
  processes of low priority, the priority queue those of high priority.
\<close>
theorem tasks_partition:
  assumes "reachable zsc s"
  shows "\<exists>F R P i. list_for_each 11 (Some FREEQUEUE) (lists s) = Some (map TASK_LIST F)
    \<and> list_for_each 11 (Some READYQUEUE) (lists s) = Some (map TASK_LIST R)
    \<and> list_for_each 11 (Some PRIORITYQUEUE) (lists s) = Some (map TASK_LIST P)
    \<and> idle_task s = Some i \<and> mset ([i, cur s] @ F @ R @ P) = mset [0..<10]
    \<and> (\<forall>t \<in> set R. nice (tasks s t) \<noteq> 0) \<and> (\<forall>t \<in> set P. nice (tasks s t) = 0)"
proof -
  obtain F R P where k: "kinv s F R P" by (rule reachable_kinv [OF assms])
  from k obtain i where "idle_task s = Some i" "mset ([i, cur s] @ F @ R @ P) = mset [0..<10]"
    by (auto simp: kinv_def)
  with queues_walk [OF kinvD(1) [OF k]] k show ?thesis
    by (intro exI [of _ F] exI [of _ R] exI [of _ P] exI [of _ i]) (simp add: kinv_def)
qed

theorem tasks_partition_witness:
  "\<exists>s. reachable (\<lambda>_ d. d) s \<and> cur s = 8 \<and> (\<exists>F R P i. list_for_each 11 (Some READYQUEUE) (lists s) = Some (map TASK_LIST R)
    \<and> mset ([i, 8] @ F @ R @ P) = mset [0..<10])"
proof -
  obtain s where s: "reachable (\<lambda>_ d. d) s" "cur s = 8" by (rule forked_pair [of "\<lambda>_ d. d"])
  from tasks_partition [OF s(1)] s show ?thesis by metis
qed



end
