(* ===== verification/Zeos_Heap.thy ===== *)
theory Zeos_Heap
  imports Zeos_Process
begin

text \<open>
  The heap: what \<^verbatim>\<open>sys_sbrk\<close> does to a process in every reachable state, and the frames its extra page at an
  aligned break loses. \<open>lost\<close> says of a frame that it is marked used while no page of data or heap of any task leads
  to it; the first part shows that every step of the machine keeps it.
\<close>

section \<open>Growing\<close>

lemma same_page_reads:
  assumes "tables_ok m" "tables_ok m'" "t < 10" "ram m' = ram m" "entry m' t (page_of va) = entry m t (page_of va)"
  shows "reads m' t va = reads m t va"
  using assms by (simp add: reads_table)

lemma with_entries_reads:
  assumes "tables_ok m" "t < 10" "q + k \<le> 1024" "page_of va < q"
  shows "reads (with_entries t q k e (m\<lparr>phys_mem := pm\<rparr>)) t va = reads m t va"
  using assms by (intro same_page_reads) (simp_all add: entry_with_entries)

lemma grow_heap:
  assumes inv: "kinv s F R P" and "b = brk (cur_task s)" and "sint n > 0"
    and "k = top_page (b + n) - (264 + npages b)"
  shows "if 768 < k then sys_sbrk n s = None
    else if free_frames s < k then sys_sbrk n s = Some (-1, s)
    else \<exists>s'. sys_sbrk n s = Some (b, s') \<and> kinv s' F R P \<and> cur s' = cur s \<and> brk (cur_task s') = b + n \<and> b < b + n
      \<and> free_frames s' + k = free_frames s
      \<and> (\<forall>p. 264 \<le> p \<and> p < top_page (b + n) \<longrightarrow> pte_present (entry (mem s') (cur s) p) \<and> pte_user (entry (mem s') (cur s) p)
           \<and> pte_rw (entry (mem s') (cur s) p))
      \<and> (\<forall>va. page_of va < 264 + npages b \<longrightarrow> reads (mem s') (cur s) va = reads (mem s) (cur s) va)"
proof -
  have b: "b = brk (tasks s (cur s))" using assms(2) by (simp add: cur_task_def current_def)
  have nw: "sint n < 0 \<Longrightarrow> 0 \<le> int (unat b) + sint n" using assms(3) by simp
  show ?thesis
  proof (cases rule: sys_sbrk_outcome [OF inv b nw, case_names nw deny query undef nomem grow shrink])
    case (nomem pm)
    have "pm = phys_mem (mem s)" by (rule used_frames_inj [OF nomem(3) kinvD(11) [OF inv] nomem(4)])
    then have "s\<lparr>mem := (mem s)\<lparr>phys_mem := pm\<rparr>\<rparr> = s" by (auto intro!: mm.equality kernel.equality)
    with nomem show ?thesis unfolding assms(4) by simp
  next
    case (grow gs pm)
    let ?s = "upd_task (cur s) (\<lambda>p. p\<lparr>brk := b + n\<rparr>) (s\<lparr>mem := with_entries (cur s) (264 + npages b) (length gs)
        (\<lambda>i. user_pte (word_of_int (map int gs ! i))) ((mem s)\<lparr>phys_mem := pm\<rparr>)\<rparr>)"
    have k: "length gs = k" using grow(4) assms(4) by simp
    have k': "kinv ?s F R P" using kinv_sbrk [OF inv grow(10)] nw b by simp
    have "k \<le> 768" using grow(9) unfolding k by simp
    moreover have "k \<le> free_frames s" using free_after_taking [OF grow(8,5,6)] k by linarith
    moreover have "free_frames ?s + k = free_frames s" using free_after_taking [OF grow(8,5,6)] k
      by (simp add: upd_task_def)
    moreover have "pte_present (entry (mem ?s) (cur s) p) \<and> pte_user (entry (mem ?s) (cur s) p) \<and> pte_rw (entry (mem ?s) (cur s) p)"
      if "264 \<le> p" "p < top_page (b + n)" for p
    proof (cases "p < 264 + npages b")
      case True
      have up: "user_page p" "entry (mem s) (cur s) p \<noteq> 0" using process_page [OF inv cur_procs that(1)] True b by simp_all
      have "entry (mem s) (cur s) p = user_pte (word_of_nat (frame_of (mem s) (cur s) p))"
        using entries_ownedD(3) [OF _ kinvD(2) [OF inv] up] kinvD(8) [OF inv] by (auto simp: mem_inv_def)
      then have "entry (mem ?s) (cur s) p = user_pte (word_of_nat (frame_of (mem s) (cur s) p))"
        using True grow(9) by (simp add: upd_task_def entry_with_entries)
      then show ?thesis by simp
    next
      case False
      then have "p < 264 + npages b + length gs" using that(2) grow(4) by linarith
      then show ?thesis using False grow(9) by (simp add: upd_task_def entry_with_entries)
    qed
    moreover have "reads (mem ?s) (cur s) va = reads (mem s) (cur s) va" if "page_of va < 264 + npages b" for va
      using with_entries_reads [OF kinvD(10,2) [OF inv] grow(9) that] by (simp add: upd_task_def)
    moreover have "b < b + n"
      using grow(1,3) by (auto simp: word_less_nat_alt) (metis sint_0 less_irrefl unat_eq_zero neq0_conv)
    ultimately show ?thesis using grow(10) k' by (auto simp: cur_task_def current_def upd_task_def)
  qed (use assms(3,4) in simp_all)
qed

text \<open>A growth as a step of the machine.\<close>

lemma sbrk_step:
  assumes "reachable zsc s" and k: "kinv s F R P" and b: "b = brk (cur_task s)" and n: "sint n > 0"
    and kk: "k = top_page (b + n) - (264 + npages b)" "k \<le> 768" "k \<le> free_frames s"
  obtains s' where "reachable zsc s'" "kinv s' F R P" "cur s' = cur s" "brk (cur_task s') = b + n"
    "free_frames s' + k = free_frames s" "\<And>p. 264 \<le> p \<Longrightarrow> p < top_page (b + n) \<Longrightarrow> entry (mem s') (cur s) p \<noteq> 0"
    "zeos_step zsc (Syscall 0 19 n 0 0) s s'"
proof -
  obtain s1 where s1: "user_to_sys s = Some s1" "kinv s1 F R P" by (rule kinv_user_to_sys [OF k])
  note h1 = handler_mem(1) [OF s1(1)]
  obtain s2 where s2: "sys_sbrk n s1 = Some (b, s2)" "kinv s2 F R P" "cur s2 = cur s" "brk (cur_task s2) = b + n"
    "free_frames s2 + k = free_frames s"
    "\<And>p. 264 \<le> p \<Longrightarrow> p < top_page (b + n) \<Longrightarrow> pte_present (entry (mem s2) (cur s) p)"
    using grow_heap [OF s1(2), of b n k] h1 b n kk by auto
  have e2: "entry (mem s2) (cur s) p \<noteq> 0" if "264 \<le> p" "p < top_page (b + n)" for p
    using s2(6) [OF that] by auto
  obtain s3 where s3: "sys_to_user_ready s2 = Some s3" "kinv s3 F R P" by (rule kinv_sys_to_user_ready [OF s2(2)])
  have "system_call_handler 0 19 n 0 0 s = Some (Some b, s3)"
    using s1(1) s2(1) s3(1) by (simp add: system_call_handler_def MAX_SYSCALL_def sys_call_def)
  then have st: "zeos_step zsc (Syscall 0 19 n 0 0) s s3" using n by (intro zeos_step.syscall) (auto simp: brk_safe_def)
  then have "reachable zsc s3" by (rule reachable_step [OF assms(1)])
  then show ?thesis
    by (rule that [OF _ s3(2)]) (use s3(1) s2(3-5) e2 st in \<open>auto simp: sys_to_user_ready_run cur_task_def current_def kstat_def\<close>)
qed

text \<open>The booted process after \<^verbatim>\<open>sbrk(4096)\<close>: its break is aligned and it has a page behind it.\<close>

lemma grown_alone:
  obtains s where "reachable zsc s" "kinv s [7, 6, 5, 4, 3, 2, 1, 0] [] []" "cur s = 8" "brk (cur_task s) = 0x11D000"
    "free_frames s = 354" "entry (mem s) 8 285 \<noteq> 0"
proof -
  obtain s where s: "reachable zsc s" "kinv s [7, 6, 5, 4, 3, 2, 1, 0] [] []" "cur s = 8"
    "brk (cur_task s) = L_HEAP_START" "free_frames s = 356" by (rule booted_alone [of zsc])
  have b: "brk (cur_task s) + 0x1000 = 0x11D000" using s(4) by simp
  show ?thesis
    by (rule sbrk_step [OF s(1,2) refl, of "0x1000" 2])
      (use s b that in \<open>auto simp: top_page_def npages_def\<close>)
qed

section \<open>Frames that are lost\<close>

text \<open>A frame no page of data or heap leads to although it is marked used.\<close>

definition lost :: "nat \<Rightarrow> mm \<Rightarrow> bool" where
  "lost f m \<longleftrightarrow> f \<in> own_pool \<and> f \<in> used_frames (phys_mem m)
     \<and> (\<forall>t < 10. \<forall>p. user_page p \<longrightarrow> entry m t p \<noteq> 0 \<longrightarrow> frame_of m t p \<noteq> f)"

lemma lost_upd [simp]: "lost f (m\<lparr>ram := r\<rparr>) = lost f m" "lost f (m\<lparr>cr3 := c\<rparr>) = lost f m"
  by (simp_all add: lost_def frame_of_def)

lemma lostI:
  assumes "lost f m" and "f \<in> used_frames (phys_mem m')"
    and "\<And>t p. t < 10 \<Longrightarrow> user_page p \<Longrightarrow> entry m' t p \<noteq> 0 \<Longrightarrow>
      entry m' t p = entry m t p \<or> (\<exists>g. entry m' t p = user_pte (word_of_nat g) \<and> g < 2 ^ 20 \<and> g \<noteq> f)"
  shows "lost f m'"
proof -
  have "frame_of m' t p \<noteq> f" if t: "t < 10" "user_page p" "entry m' t p \<noteq> 0" for t p
    using assms(3) [OF t]
  proof
    assume "entry m' t p = entry m t p"
    with assms(1) t show ?thesis by (simp add: lost_def frame_of_def)
  next
    assume "\<exists>g. entry m' t p = user_pte (word_of_nat g) \<and> g < 2 ^ 20 \<and> g \<noteq> f"
    then show ?thesis using user_pte_frame(1) by (auto simp: frame_of_def simp del: pte_pbase_user_pte)
  qed
  with assms(1,2) show ?thesis by (simp add: lost_def)
qed

lemma lost_new_entries:
  assumes l: "lost f m" and q: "q + k \<le> 1024" and pm: "f \<in> used_frames pm"
    and e: "\<And>i. i < k \<Longrightarrow> e i = 0 \<or> (\<exists>g. e i = user_pte (word_of_nat g) \<and> g \<in> own_pool \<and> g \<notin> used_frames (phys_mem m))"
  shows "lost f (with_entries t q k e (m\<lparr>phys_mem := pm\<rparr>))"
proof (rule lostI [OF l])
  have fu: "f \<in> used_frames (phys_mem m)" using l by (simp add: lost_def)
  fix u p assume p: "user_page p" and nz: "entry (with_entries t q k e (m\<lparr>phys_mem := pm\<rparr>)) u p \<noteq> 0"
  have *: "entry (with_entries t q k e (m\<lparr>phys_mem := pm\<rparr>)) u p = (if u = t \<and> q \<le> p \<and> p < q + k then e (p - q) else entry m u p)"
    using p by (simp add: entry_with_entries [OF q] user_page_def)
  show "entry (with_entries t q k e (m\<lparr>phys_mem := pm\<rparr>)) u p = entry m u p \<or>
    (\<exists>g. entry (with_entries t q k e (m\<lparr>phys_mem := pm\<rparr>)) u p = user_pte (word_of_nat g) \<and> g < 2 ^ 20 \<and> g \<noteq> f)"
  proof (cases "u = t \<and> q \<le> p \<and> p < q + k")
    case True
    then have "p - q < k" by linarith
    from e [OF this] * nz True obtain g where "e (p - q) = user_pte (word_of_nat g)" "g \<in> own_pool" "g \<notin> used_frames (phys_mem m)"
      by auto
    then show ?thesis using * True fu own_pool_bounds [of g] by auto
  next
    case False
    show ?thesis by (rule disjI1) (simp only: * if_not_P [OF False])
  qed
qed (use pm in simp)

lemma lost_fork_tables:
  assumes l: "lost f m" and ne: "u \<noteq> t" and fit: "264 + 2 * length gs \<le> 1024"
    and gs: "set gs \<subseteq> own_pool - used_frames (phys_mem m)" and pm: "f \<in> used_frames pm"
  shows "lost f ((fork_tables t u gs m)\<lparr>phys_mem := pm, ram := ra\<rparr>)"
proof (rule lostI [OF l])
  let ?m = "(fork_tables t u gs m)\<lparr>phys_mem := pm, ram := ra\<rparr>"
  have fu: "f \<in> used_frames (phys_mem m)" using l by (simp add: lost_def)
  show "f \<in> used_frames (phys_mem ?m)" using pm by simp
  fix v p assume p: "user_page p" and nz: "entry ?m v p \<noteq> 0"
  have *: "entry ?m v p = (if v = t \<and> 264 + length gs \<le> p \<and> p < 264 + 2 * length gs then 0
      else if v = u \<and> p < 264 + length gs then user_pte (word_of_nat (gs ! (p - 264))) else entry m v p)"
    using p ne fit by (simp add: entry_fork_tables user_page_def)
  have "gs ! (p - 264) \<in> own_pool - used_frames (phys_mem m)" if "p < 264 + length gs"
  proof -
    have "p - 264 < length gs" using that p by (simp add: user_page_def, linarith)
    then show ?thesis using gs nth_mem by blast
  qed
  then show "entry ?m v p = entry m v p \<or> (\<exists>g. entry ?m v p = user_pte (word_of_nat g) \<and> g < 2 ^ 20 \<and> g \<noteq> f)"
    using * nz fu own_pool_bounds by (auto split: if_splits)
qed

lemma lost_fork:
  assumes inv: "kinv s F R P" and run: "sys_fork s = Some (r, s')" and l: "lost f (mem s)"
  shows "lost f (mem s')"
proof (cases rule: sys_fork_cases [OF inv run refl, case_names again nomem child])
  case (nomem ch F' h pm)
  then show ?thesis using l by (simp add: lost_def frame_of_def)
next
  case (child ch F' h pm gs ra st R2 P2)
  have "ch \<noteq> cur s" using kinvD(3) [OF inv] child(1) by auto
  then show ?thesis using lost_fork_tables [OF l, of ch "cur s" gs pm ra] child(6,8,10,11) l
    by (simp add: child(14) lost_def)
qed (use l in simp)

lemma lost_not_own:
  assumes inv: "kinv s F R P" and l: "lost f (mem s)" and t: "t < 10" and "user_page p" and "entry (mem s) t p \<noteq> 0"
  shows "f \<noteq> frame_of (mem s) t p"
  using assms by (auto simp: lost_def)

lemma lost_sbrk:
  assumes inv: "kinv s F R P" and run: "sys_sbrk n s = Some (r, s')" and l: "lost f (mem s)"
    and nw: "sint n < 0 \<Longrightarrow> 0 \<le> int (unat (brk (tasks s (cur s)))) + sint n"
  shows "lost f (mem s')"
proof (cases rule: sys_sbrk_cases [OF inv run refl nw, case_names nw deny query nomem grow shrink])
  case (nomem pm)
  then show ?thesis using l by (simp add: lost_def frame_of_def)
next
  case (grow gs pm)
  show ?thesis unfolding grow(11)
    using lost_new_entries [OF l grow(9), of pm "\<lambda>i. user_pte (word_of_int (map int gs ! i))" "cur s"]
      l grow(6,8) nth_mem by (simp add: upd_task_def lost_def) blast
next
  case (shrink dest pm)
  have le: "264 + npages dest \<le> top_page (brk (tasks s (cur s)))"
    using npages_mono(1) [OF shrink(3)] npages_top(1) [of "brk (tasks s (cur s))"] by simp
  have "f \<noteq> frame_of (mem s) (cur s) p"
    if "264 + npages dest \<le> p" "p < top_page (brk (tasks s (cur s)))" "entry (mem s) (cur s) p \<noteq> 0" for p
    using lost_not_own [OF inv l kinvD(2) [OF inv] _ that(3)] that(1,2) shrink(8) by (simp add: user_page_def)
  then have "f \<in> used_frames pm" using l unfolding shrink(7) lost_def by blast
  then show ?thesis unfolding shrink(9)
    using lost_new_entries [OF l, of "264 + npages dest" _ pm "\<lambda>_. 0"] le shrink(8) by (simp add: upd_task_def)
qed (use l in simp_all)

lemma lost_exit:
  assumes inv: "kinv s F R P" and run: "sys_exit fp s = Some s'" and l: "lost f (mem s)"
  shows "lost f (mem s')"
proof -
  let ?n = "npages (brk (tasks s (cur s)))"
  obtain h pm where e: "queues h (F @ [cur s]) R P" "frames_ok pm"
      "used_frames pm = used_frames (phys_mem (mem s)) - frames_of (mem s) (cur s) ?n"
      "sys_exit fp s = sched_next_rr fp (exited s h pm)"
    by (rule sys_exit_run [OF inv refl])
  have fit: "264 + ?n \<le> 1024" using npages_fit(1) [OF inv] by simp
  have "f \<noteq> frame_of (mem s) (cur s) p" if "264 \<le> p" "p < 264 + ?n" for p
    using lost_not_own [OF inv l] process_page [OF inv cur_procs that] by blast
  then have "f \<notin> frames_of (mem s) (cur s) ?n" unfolding frames_of_def by fastforce
  then have "f \<in> used_frames pm" using l e(3) by (simp add: lost_def)
  from lost_new_entries [OF l fit this, of "\<lambda>_. 0" "cur s"] have x: "lost f (mem (exited s h pm))"
    by (simp add: exited_def upd_task_def)
  show ?thesis
  proof (cases "next_task (nice (cur_task s)) R P")
    case None
    then have "sched_next_rr fp (exited s h pm) = None" using e(1) by (intro sched_next_rr_stuck) simp_all
    with run e(4) show ?thesis by simp
  next
    case (Some y)
    then obtain t R' P' where nt: "next_task (nice (cur_task s)) R P = Some (t, R', P')" by (cases y) auto
    then have k: "t \<noteq> cur s" "\<exists>k. kernel_esp (tasks s t) = Some (t, k)"
      using kinvD(3,4) [OF inv] next_task_in [OF nt] by auto
    then obtain k h2 st1 st2 q where "s' = switch_to fp t k st1 st2 ((exited s h pm)\<lparr>lists := h2, quantum_ticks := q\<rparr>)"
      using sched_next_rr_switch [of "exited s h pm" "F @ [cur s]" R P t R' P' _ fp] e nt run by auto
    then show ?thesis using x by simp
  qed
qed

text \<open>The calls that leave the page tables and the frame map alone.\<close>

lemma sys_call_memory:
  assumes "sys_call fp n ebx ecx edx s = Some (r, s')"
  obtains (exit) "sys_exit fp s = Some s'" | (fork) x where "sys_fork s = Some (x, s')"
  | (sbrk) x where "n = 19" "sys_sbrk ebx s = Some (x, s')"
  | (other) ra where "mem s' = (mem s)\<lparr>ram := ra\<rparr>"
proof (cases "n \<in> {1, 2, 19}")
  case True
  with assms show ?thesis using exit fork sbrk
    by (auto simp: sys_call_def map_option_case split: if_splits option.splits)
next
  case False
  with assms obtain x where x: "(if n = 4 then sys_write ebx ecx edx s
      else if n = 10 then sys_gettime s else if n = 15 then sys_get_key ebx s
      else if n = 16 then sys_put_screen ebx s else if n = 17 then sys_set_fps ebx s
      else if n = 18 then sys_fflush s else if n = 20 then sys_getpid s
      else if n = 35 then sys_get_stats ebx ecx s else sys_ni_syscall s) = Some (x, s')"
    unfolding sys_call_def by (simp add: map_option_case split: if_split_asm option.split_asm prod.split_asm)
  have same: ?thesis if "mem s' = mem s" using that by (intro other [of "ram (mem s)"]) simp
  have st: "\<exists>ra. mem s' = (mem s0)\<lparr>ram := ra\<rparr>" if run: "store_user bs q s0 = Some s'" for bs q s0
    using run by (rule store_user_ram) auto
  have keep: "\<exists>ra. mem s = (mem s)\<lparr>ram := ra\<rparr>" by (rule exI [of _ "ram (mem s)"]) simp
  from False consider "n = 4" | "n = 15" | "n = 16" | "n = 17" | "n = 18" | "n = 35" | "n = 10 \<or> n = 20 \<or> n \<notin> {1, 2, 4, 10, 15, 16, 17, 18, 19, 20, 35}"
    by blast
  then show ?thesis
  proof cases
    case 1
    then show ?thesis using x write_screen by (intro same) fastforce
  next
    case 2
    then have "\<exists>ra. mem s' = (mem s)\<lparr>ram := ra\<rparr>" using x keep
      by (auto simp: sys_get_key_def Let_def bind_eq_Some_conv dest!: st split: if_splits)
    then show ?thesis using other by blast
  next
    case 3
    then show ?thesis using x put_screen_mem same by simp
  next
    case 4
    then show ?thesis using x by (intro same) (auto simp: sys_set_fps_def Let_def upd_task_def split: if_splits)
  next
    case 5
    then show ?thesis using x by (intro same) (auto simp: sys_fflush_def bind_eq_Some_conv)
  next
    case 6
    then have "\<exists>ra. mem s' = (mem s)\<lparr>ram := ra\<rparr>" using x keep
      by (auto simp: sys_get_stats_def Let_def bind_eq_Some_conv upd_stat_def upd_task_def dest!: st
          split: if_split_asm option.split_asm)
    then show ?thesis using other by blast
  next
    case 7
    then show ?thesis using x same by (auto simp: sys_gettime_def sys_getpid_def sys_ni_syscall_def)
  qed
qed

lemma lost_system_call_handler:
  assumes inv: "kinv s F R P" and run: "system_call_handler fp eax ebx ecx edx s = Some (r, s')"
    and nw: "eax = 19 \<Longrightarrow> brk_safe ebx s" and l: "lost f (mem s)"
  shows "lost f (mem s')"
proof (cases "sint eax < 0 \<or> sint eax > MAX_SYSCALL")
  case True
  with run l show ?thesis by (auto simp: system_call_handler_def)
next
  case False
  obtain s1 where s1: "user_to_sys s = Some s1" "kinv s1 F R P" by (rule kinv_user_to_sys [OF inv])
  with run False obtain r2 s2 where s2: "sys_call fp (nat (sint eax)) ebx ecx edx s1 = Some (r2, s2)"
    "sys_to_user_ready s2 = Some s'"
    by (auto simp: system_call_handler_def bind_eq_Some_conv)
  note h1 = handler_mem(1) [OF s1(1)] and h2 = handler_mem(2) [OF s2(2)]
  have l1: "lost f (mem s1)" using l h1 by simp
  have n19: "eax = 19" if "nat (sint eax) = 19"
  proof -
    have "sint eax = sint (19 :: DWord)" using that by simp
    then show ?thesis by (rule signed_word_eqI)
  qed
  show ?thesis
    using s2(1)
  proof (cases rule: sys_call_memory)
    case exit
    then show ?thesis using lost_exit [OF s1(2) _ l1] h2 by simp
  next
    case (fork x)
    then show ?thesis using lost_fork [OF s1(2) _ l1] h2 by simp
  next
    case (sbrk x)
    then have "brk_safe ebx s1" using nw [OF n19] h1 by (simp add: brk_safe_def)
    then have "sint ebx < 0 \<Longrightarrow> 0 \<le> int (unat (brk (tasks s1 (cur s1)))) + sint ebx"
      by (simp add: brk_safe_def cur_task_def current_def)
    then show ?thesis using lost_sbrk [OF s1(2) sbrk(2) l1] h2 by simp
  next
    case (other ra)
    then show ?thesis using l1 h2 by simp
  qed
qed

lemma lost_step:
  assumes "zeos_step zsc e s s'" and "kinv s F R P" and "lost f (mem s)"
  shows "lost f (mem s')"
  using assms
proof (induction rule: zeos_step.induct)
  case (clock fp s s')
  obtain s1 where s1: "user_to_sys s = Some s1" "kinv s1 F R P" by (rule kinv_user_to_sys [OF clock.prems(1)])
  with clock.hyps obtain s2 where s2: "clock_routine zsc fp s1 = Some s2" "sys_to_user_ready s2 = Some s'"
    by (auto simp: clock_handler_def bind_eq_Some_conv)
  from clock_routine_mem [OF s1(2) s2(1)] handler_mem(1) [OF s1(1)] handler_mem(2) [OF s2(2)] clock.prems(2)
  show ?case by auto
next
  case (key v s s')
  then have "mem s' = mem s"
    by (auto simp: keyboard_handler_def keyboard_routine_def Let_def bind_eq_Some_conv
        dest!: handler_mem split: if_splits)
  with key.prems show ?case by simp
next
  case (syscall fp eax ebx ecx edx s r s')
  then show ?case using lost_system_call_handler by blast
next
  case (store va b s s')
  then show ?case by (auto simp: user_store_def bind_eq_Some_conv split: if_splits)
qed

lemma lost_run: "zeos_run zsc s s' \<Longrightarrow> kinv s F R P \<Longrightarrow> lost f (mem s) \<Longrightarrow> lost f (mem s')"
proof (induction rule: zeos_run.induct)
  case (more s s' e s'')
  obtain F' R' P' where "kinv s' F' R' P'" using run_keeps_kinv [OF more.hyps(1) more.prems(1)] by blast
  then show ?case using lost_step [OF more.hyps(2)] more.IH more.prems by blast
qed simp

lemma shrink_count_wraps:
  fixes b d :: DWord
  assumes "brk_ok b" and "npages b \<le> 400" and "2 ^ 31 \<le> unat d"
  shows "nat (sint (if inici_pag d then pag_heap b - pag_heap d + 1 else pag_heap b - pag_heap d)) = 0"
proof -
  have b: "0x11C000 \<le> unat b" "unat b < 0x11C000 + 4096 * 381"
    using assms(1,2) unfolding brk_ok_def npages_def by (simp, linarith)
  have d: "0x11C000 \<le> unat d" using assms(3) by simp
  have pb: "unat (pag_heap b) < 400" unfolding pag_heap_run [OF b(1)] using b by linarith
  have "(2 ^ 31 - 0x11C000) div 4096 \<le> (unat d - 0x11C000) div 4096" using assms(3) by (intro div_le_mono) linarith
  then have pd: "524000 \<le> unat (pag_heap d)" "unat (pag_heap d) < 2 ^ 20"
    unfolding pag_heap_run [OF d] using unsigned_less [of d, where ?'a = nat] by simp_all
  have neg: "sint (w :: DWord) \<le> 0" if "2 ^ 31 \<le> unat w" for w
  proof -
    have "unat w div 2 ^ 31 = 1" using that unsigned_less [of w, where ?'a = nat] by (intro div_nat_eqI) simp_all
    then have "bit (unat w) 31" by (simp add: bit_iff_odd)
    then have "sint w < 0" using bit_last_iff [of w] by (simp add: bit_unsigned_iff)
    then show ?thesis by simp
  qed
  have u: "unat (pag_heap b - pag_heap d) = 2 ^ 32 + unat (pag_heap b) - unat (pag_heap d)"
    using pb pd by (simp add: unat_sub_if_size word_size)
  have "unat (pag_heap b - pag_heap d + 1) = Suc (2 ^ 32 + unat (pag_heap b) - unat (pag_heap d))"
    using u pb pd by (simp add: unat_word_ariths)
  with u pb pd show ?thesis by (auto intro!: neg)
qed


text \<open>A page that is unmapped leaves its frame without an entry.\<close>

lemma lost_cong:
  assumes "\<And>t p. user_page p \<Longrightarrow> entry m t p = entry m' t p" and "phys_mem m = phys_mem m'"
  shows "lost f m = lost f m'"
  using assms by (auto simp: lost_def frame_of_def)

lemma unmapped_lost:
  assumes inv: "kinv s F R P" and p: "user_page p" and nz: "entry (mem s) (cur s) p \<noteq> 0"
  shows "lost (frame_of (mem s) (cur s) p) (with_entries (cur s) p 1 (\<lambda>_. 0) (mem s))"
proof -
  have eo: "entries_owned (mem s)" and oi: "owner_inj (mem s)" using kinvD(8) [OF inv] by (simp_all add: mem_inv_def)
  have p1: "p + 1 \<le> 1024" using p by (simp add: user_page_def)
  have e: "entry (with_entries (cur s) p 1 (\<lambda>_. 0) (mem s)) t q = (if t = cur s \<and> q = p then 0 else entry (mem s) t q)"
    if "user_page q" for t q
    by (subst entry_with_entries [OF p1]) (use that in \<open>auto simp: user_page_def\<close>)
  have "frame_of (with_entries (cur s) p 1 (\<lambda>_. 0) (mem s)) t q \<noteq> frame_of (mem s) (cur s) p"
    if t: "t < 10" "user_page q" and z: "entry (with_entries (cur s) p 1 (\<lambda>_. 0) (mem s)) t q \<noteq> 0" for t q
  proof -
    from z have ne: "\<not> (t = cur s \<and> q = p)" unfolding e [OF t(2)] by argo
    have same: "entry (with_entries (cur s) p 1 (\<lambda>_. 0) (mem s)) t q = entry (mem s) t q"
      unfolding e [OF t(2)] if_not_P [OF ne] ..
    with z have "entry (mem s) t q \<noteq> 0" by simp
    with owner_injD [OF oi t(1) kinvD(2) [OF inv] t(2) p _ nz] ne show ?thesis unfolding frame_of_def same by blast
  qed
  with entries_ownedD(1,2) [OF eo kinvD(2) [OF inv] p nz] show ?thesis
    unfolding lost_def by simp
qed

lemma aligned_top:
  assumes "brk_ok b" and "4096 dvd unat b"
  shows "top_page b = 265 + npages b"
proof -
  from assms obtain j where j: "unat b = 4096 * j" by (auto elim: dvdE)
  then have "unat b - 0x11C000 = 4096 * (j - 284)" by simp
  then show ?thesis unfolding top_page_def npages_def by simp
qed

text \<open>A growth from an aligned break maps over the page behind it.\<close>

lemma grow_loses:
  assumes inv: "kinv s F R P" and b: "brk (tasks s (cur s)) = b" and al: "4096 dvd unat b"
    and nz: "entry (mem s) (cur s) (264 + npages b) \<noteq> 0" and p: "264 + npages b < 1024"
    and n: "sint n > 0" and run: "sys_sbrk n s = Some (b, s')"
  shows "lost (frame_of (mem s) (cur s) (264 + npages b)) (mem s')"
proof -
  let ?p = "264 + npages b" and ?m = "with_entries (cur s) (264 + npages b) 1 (\<lambda>_. 0) (mem s)"
  let ?f = "frame_of (mem s) (cur s) ?p"
  have ok: "brk_ok b" using kinvD(6) [OF inv] b by simp
  have up: "user_page ?p" using p by (simp add: user_page_def)
  have l: "lost ?f ?m" by (rule unmapped_lost [OF inv up nz])
  have e: "entry ?m t q = (if t = cur s \<and> q = ?p then 0 else entry (mem s) t q)" if "user_page q" for t q
    using that up by (auto simp: entry_with_entries user_page_def)
  show ?thesis
  proof (cases rule: sys_sbrk_cases [OF inv run b [symmetric], case_names nw deny query nomem grow shrink])
    case nomem
    have "(-1 :: DWord) = 0xFFFFFFFF" by simp
    then have "\<not> brk_ok (-1)" unfolding brk_ok_def by (simp only:) simp
    with nomem(6) ok show ?thesis by simp
  next
    case (grow gs pm)
    have k: "0 < length gs" using npages_mono(2) [of b "b + n"] grow(3,4) aligned_top [OF ok al] by simp
    let ?e = "\<lambda>i. user_pte (word_of_int (map int gs ! i))"
    have "lost ?f (with_entries (cur s) ?p (length gs) ?e (?m\<lparr>phys_mem := pm\<rparr>))"
    proof (rule lost_new_entries [OF l grow(9)])
      show "?f \<in> used_frames pm" using l grow(8) by (simp add: lost_def)
      fix i assume "i < length gs"
      then have "gs ! i \<in> own_pool - used_frames (phys_mem ?m)" using grow(6) nth_mem by auto
      then show "?e i = 0 \<or> (\<exists>g. ?e i = user_pte (word_of_nat g) \<and> g \<in> own_pool \<and> g \<notin> used_frames (phys_mem ?m))"
        using \<open>i < length gs\<close> by auto
    qed
    also have "lost ?f (with_entries (cur s) ?p (length gs) ?e (?m\<lparr>phys_mem := pm\<rparr>)) = lost ?f (mem s')"
      using k grow(9) e by (intro lost_cong) (auto simp: grow(11) upd_task_def entry_with_entries user_page_def)
    finally show ?thesis .
  qed (use n in simp_all)
qed

lemma grown_twice:
  obtains s f where "reachable zsc s" "kinv s [7, 6, 5, 4, 3, 2, 1, 0] [] []" "lost f (mem s)"
proof -
  obtain s where s: "reachable zsc s" "kinv s [7, 6, 5, 4, 3, 2, 1, 0] [] []" "cur s = 8" "brk (cur_task s) = 0x11D000"
    "free_frames s = 354" "entry (mem s) 8 285 \<noteq> 0" by (rule grown_alone [of zsc])
  have np: "npages (brk (cur_task s)) = 21" using s(4) by (simp add: npages_def)
  have k: "2 = top_page (brk (cur_task s) + 4096) - (264 + npages (brk (cur_task s)))"
    unfolding np using s(4) by (simp add: top_page_def)
  obtain s1 where s1: "user_to_sys s = Some s1" "kinv s1 [7, 6, 5, 4, 3, 2, 1, 0] [] []" by (rule kinv_user_to_sys [OF s(2)])
  note h1 = handler_mem(1) [OF s1(1)]
  obtain s2 where s2: "sys_sbrk 4096 s1 = Some (brk (cur_task s), s2)" "kinv s2 [7, 6, 5, 4, 3, 2, 1, 0] [] []"
    using grow_heap [OF s1(2) _ _ k] h1 s(5) by auto
  have b1: "brk (tasks s1 (cur s1)) = brk (cur_task s)" using h1 unfolding cur_task_def current_def by metis
  have "lost (frame_of (mem s1) (cur s1) 285) (mem s2)"
    using grow_loses [OF s1(2) b1 _ _ _ _ s2(1)] s(3,4,6) h1 unfolding np by simp
  moreover obtain s3 where s3: "sys_to_user_ready s2 = Some s3" "kinv s3 [7, 6, 5, 4, 3, 2, 1, 0] [] []"
    by (rule kinv_sys_to_user_ready [OF s2(2)])
  moreover have "system_call_handler 0 19 4096 0 0 s = Some (Some (brk (cur_task s)), s3)"
    using s1(1) s2(1) s3(1) by (simp add: system_call_handler_def MAX_SYSCALL_def sys_call_def)
  then have "zeos_step zsc (Syscall 0 19 4096 0 0) s s3" by (rule zeos_step.syscall) (simp add: brk_safe_def)
  then have "reachable zsc s3" by (rule reachable_step [OF s(1)])
  ultimately show ?thesis using that [of s3] handler_mem(2) [OF s3(1)] by simp
qed

section \<open>Properties\<close>



text \<open>
  C8. Shrinking the heap, for every negative argument that does not lead below address 0. The new break is the
  old one less the amount, but never below the start of the heap; no page from the one behind the new break's
  to the one the old break was in is mapped any more, exactly the frames of those that were are free again,
  and what the process reads below is unchanged.
\<close>
theorem sbrk_shrinks:
  assumes "reachable zsc s" and "queues (lists s) F R P" and "b = brk (cur_task s)" and "sint n < 0"
    and "b \<noteq> L_HEAP_START" and "0 \<le> uint b + sint n"
    and "dest = word_of_int (max (uint L_HEAP_START) (uint b + sint n))"
    and "D = {p. 264 + npages dest \<le> p \<and> p < top_page b}"
  shows "\<exists>s'. sys_sbrk n s = Some (b, s') \<and> kinv s' F R P \<and> cur s' = cur s \<and> brk (cur_task s') = dest
      \<and> free_frames s' = free_frames s + card {p \<in> D. entry (mem s) (cur s) p \<noteq> 0}
      \<and> (\<forall>p \<in> D. entry (mem s') (cur s) p = 0)
      \<and> (\<forall>va. page_of va < 264 + npages dest \<longrightarrow> reads (mem s') (cur s) va = reads (mem s) (cur s) va)"
proof -
  have inv: "kinv s F R P" by (rule reachable_kinv_at [OF assms(1,2)])
  have b: "b = brk (tasks s (cur s))" using assms(3) by (simp add: cur_task_def current_def)
  have nw: "sint n < 0 \<Longrightarrow> 0 \<le> int (unat b) + sint n" using assms(6) by simp
  show ?thesis
  proof (cases rule: sys_sbrk_outcome [OF inv b nw, case_names nw deny query undef nomem grow shrink])
    case (shrink dest' pm)
    let ?s = "upd_task (cur s) (\<lambda>p. p\<lparr>brk := dest'\<rparr>) (s\<lparr>mem := with_entries (cur s) (264 + npages dest')
        (top_page b - (264 + npages dest')) (\<lambda>_. 0) ((mem s)\<lparr>phys_mem := pm\<rparr>)\<rparr>)"
    have "int (unat dest') = max (uint L_HEAP_START) (uint b + sint n)" unfolding shrink(4) by simp
    then have "uint dest' = max (uint L_HEAP_START) (uint b + sint n)" by simp
    then have d: "dest' = dest" unfolding assms(7) by (metis word_of_int_uint)
    have k': "kinv ?s F R P" using kinv_sbrk [OF inv shrink(8)] nw b by simp
    have le: "264 + npages dest + (top_page b - (264 + npages dest)) = top_page b"
      using npages_mono(1) [OF shrink(3)] npages_top(1) [of b] unfolding d by simp
    have bd: "264 + npages dest + (top_page b - (264 + npages dest)) \<le> 1024" unfolding le by (rule shrink(7))
    have D: "user_page p" if "p \<in> D" for p using that shrink(7) by (simp add: assms(8) user_page_def)
    have mi: "entries_owned (mem s)" "owner_inj (mem s)" using kinvD(8) [OF inv] by (simp_all add: mem_inv_def)
    let ?X = "{p \<in> D. entry (mem s) (cur s) p \<noteq> 0}"
    have "inj_on (frame_of (mem s) (cur s)) ?X"
      using owner_injD [OF mi(2) kinvD(2) [OF inv] kinvD(2) [OF inv]] D by (auto intro!: inj_onI)
    then have c: "card (frame_of (mem s) (cur s) ` ?X) = card ?X" by (rule card_image)
    have sub: "frame_of (mem s) (cur s) ` ?X \<subseteq> frame_pool \<inter> used_frames (phys_mem (mem s))"
      using entries_ownedD(1,2) [OF mi(1) kinvD(2) [OF inv]] D own_pool_bounds by blast
    have u: "used_frames pm = used_frames (phys_mem (mem s)) - frame_of (mem s) (cur s) ` ?X"
      unfolding shrink(6) d assms(8) by blast
    have "free_frames ?s = free_frames s + card ?X"
      using free_after_release [OF u sub] unfolding c by (simp add: upd_task_def)
    moreover have "entry (mem ?s) (cur s) p = 0" if "p \<in> D" for p
      using that D [OF that] bd le unfolding assms(8) d by (simp add: upd_task_def entry_with_entries user_page_def)
    moreover have "reads (mem ?s) (cur s) va = reads (mem s) (cur s) va" if "page_of va < 264 + npages dest" for va
      using with_entries_reads [OF kinvD(10,2) [OF inv] bd that] unfolding d by (simp add: upd_task_def)
    moreover have "cur ?s = cur s" "brk (cur_task ?s) = dest" by (simp_all add: cur_task_def current_def upd_task_def d)
    ultimately show ?thesis using shrink(8) k' by blast
  qed (use assms(4,5) in simp_all)
qed


theorem sbrk_shrinks_witness:
  "\<exists>s s'. reachable (\<lambda>_ d. d) s \<and> brk (cur_task s) = 0x11D000 \<and> sys_sbrk (-10000) s = Some (0x11D000, s')
    \<and> brk (cur_task s') = L_HEAP_START \<and> entry (mem s') 8 285 = 0"
proof -
  obtain s where s: "reachable (\<lambda>_ d. d) s" "kinv s [7, 6, 5, 4, 3, 2, 1, 0] [] []" "cur s = 8" "brk (cur_task s) = 0x11D000"
    by (rule grown_alone [of "\<lambda>_ d. d"])
  have "uint (brk (cur_task s)) + sint (-10000 :: DWord) = 0x11A8F0" using s(4) by simp
  moreover from this have d: "L_HEAP_START = word_of_int (max (uint L_HEAP_START) (uint (brk (cur_task s)) + sint (-10000 :: DWord)))"
    by simp
  moreover have "285 \<in> {p. 264 + npages L_HEAP_START \<le> p \<and> p < top_page (brk (cur_task s))}"
    using s(4) by (simp add: npages_def top_page_def)
  ultimately obtain s' where "sys_sbrk (-10000) s = Some (brk (cur_task s), s')" "brk (cur_task s') = L_HEAP_START"
    "entry (mem s') (cur s) 285 = 0"
    using sbrk_shrinks [OF s(1) kinvD(1) [OF s(2)] refl _ _ _ d refl] s(4) by auto
  with s(1,3,4) show ?thesis by metis
qed

text \<open>
  C31. The bound of the previous property is needed: a negative argument that leads below address 0 moves the break
  up, beyond every mapped page, and frees nothing; the result is that of a success.
\<close>
theorem sbrk_wraps:
  assumes "reachable zsc s" and "b = brk (cur_task s)" and "b \<noteq> L_HEAP_START" and "sint n < 0" and "uint b + sint n < 0"
  shows "sys_sbrk n s = Some (b, upd_task (cur s) (\<lambda>p. p\<lparr>brk := b + n\<rparr>) s) \<and> b < b + n"
proof -
  obtain F R P where inv: "kinv s F R P" by (rule reachable_kinv [OF assms(1)])
  have b: "brk (tasks s (cur s)) = b" using assms(2) by (simp add: cur_task_def current_def)
  have ok: "brk_ok b" using kinvD(6) [OF inv] b by simp
  have np: "npages b \<le> 400" using frames_of_process(3) [OF kinvD(8) [OF inv] cur_procs] b by simp
  have pt: "get_PT s (cur s) = Some (row_PT (mem s) (cur s))" using kinv_PT [OF inv cur_procs] .
  have b0: "0 \<le> uint b" "- 2147483648 \<le> sint n" using sint_greater_eq [of n] by simp_all
  have un: "int (unat (b + n)) = uint b + sint n + 4294967296"
  proof -
    have "b + n = word_of_int (uint b + sint n)" by simp
    then have "uint (b + n) = (uint b + sint n) mod 4294967296" by (simp only: uint_word_of_int) simp
    also have "\<dots> = (uint b + sint n + 4294967296) mod 4294967296" by simp
    also have "\<dots> = uint b + sint n + 4294967296"
      by (rule mod_pos_pos_trivial) (use assms(5) b0 in linarith)+
    finally show ?thesis by simp
  qed
  have "2147483648 \<le> unat (b + n)" using un b0 by linarith
  then have big: "2 ^ 31 \<le> unat (b + n)" by simp
  have lt: "b < b + n" using big ok by (simp add: word_less_nat_alt brk_ok_def)
  have dest: "(if b + n < L_HEAP_START then L_HEAP_START else b + n) = b + n"
    using big by (simp add: word_less_nat_alt)
  have "sys_sbrk n s = Some (b, upd_task (cur s) (\<lambda>p. p\<lparr>brk := b + n\<rparr>) s)"
    using assms(3,4) pt unfolding sys_sbrk_def current_def b Let_def dest shrink_count_wraps [OF ok np big]
    by (simp add: with_mem_def)
  with lt show ?thesis by simp
qed

theorem sbrk_wraps_witness:
  "\<exists>s. reachable (\<lambda>_ d. d) s \<and> sys_sbrk 0x80000000 s = Some (0x11D000, upd_task 8 (\<lambda>p. p\<lparr>brk := 0x8011D000\<rparr>) s)"
proof -
  obtain s where s: "reachable (\<lambda>_ d. d) s" "cur s = 8" "brk (cur_task s) = 0x11D000"
    by (rule grown_alone [of "\<lambda>_ d. d"])
  with sbrk_wraps [OF s(1) refl, of "0x80000000"] show ?thesis by auto
qed



text \<open>
  C28. A frame that no page of data or heap leads to although it is marked used stays so in every later state: nothing
  the machine does gives it back or hands it out again.
\<close>
theorem lost_frame_stays_lost:
  assumes "reachable zsc s" and "lost f (mem s)" and "zeos_run zsc s s'"
  shows "lost f (mem s')"
proof -
  obtain F R P where "kinv s F R P" by (rule reachable_kinv [OF assms(1)])
  then show ?thesis using lost_run [OF assms(3)] assms(2) by blast
qed

theorem lost_frame_stays_lost_witness:
  "\<exists>s s' f. reachable (\<lambda>_ d. d) s \<and> lost f (mem s) \<and> zeos_step (\<lambda>_ d. d) (Key 0) s s' \<and> lost f (mem s')"
proof -
  obtain s f where s: "reachable (\<lambda>_ d. d) s" "kinv s [7, 6, 5, 4, 3, 2, 1, 0] [] []" "lost f (mem s)"
    by (rule grown_twice [of "\<lambda>_ d. d"])
  obtain s' where s': "zeos_step (\<lambda>_ d. d) (Key 0) s s'" by (rule key_release_step [OF s(2)])
  then have "zeos_run (\<lambda>_ d. d) s s'" by (intro zeos_run.more [OF zeos_run.none])
  from lost_frame_stays_lost [OF s(1,3) this] have "lost f (mem s')" .
  with s(1,3) s' show ?thesis by (intro exI conjI)
qed

end
