(* ===== verification/Zeos_TLB.thy ===== *)
theory Zeos_TLB
  imports Zeos_Heap
begin

text \<open>
  The translation cache of the processor. The other theories translate addresses by the tables alone; here is when that is what
  the processor does: as long as every cached entry is the one of the table. \<^verbatim>\<open>task_switch\<close> and \<^verbatim>\<open>sys_fork\<close> empty the cache after they
  have changed tables, \<^verbatim>\<open>sys_sbrk\<close> does not.
\<close>

section \<open>Translation with a cache\<close>

text \<open>The processor takes the cached entry of a page when there is one; it may cache a present entry at any time.\<close>

definition cached_entry :: "kernel \<Rightarrow> DWord \<Rightarrow> DWord option" where
  "cached_entry s va = (case tlb s (page_of va) of Some e \<Rightarrow> Some e | None \<Rightarrow> page_entry (mem s) va)"

definition cached_translate :: "kernel \<Rightarrow> vmap" where
  "cached_translate s va = do {
     e \<leftarrow> cached_entry s va;
     if pte_present e then Some (push_bit 12 (pte_pbase e) OR take_bit 12 va) else None }"

definition fill :: "DWord \<Rightarrow> kernel \<Rightarrow> kernel option" where
  "fill va s = do {
     e \<leftarrow> page_entry (mem s) va;
     if pte_present e then Some (s\<lparr>tlb := (tlb s)(page_of va \<mapsto> e)\<rparr>) else None }"

definition coherent :: "kernel \<Rightarrow> bool" where
  "coherent s \<longleftrightarrow> (\<forall>p e. tlb s p = Some e \<longrightarrow> p < 1024 \<and> pte_present e \<and> entry (mem s) (cur s) p = e)"

lemma coherentD:
  "coherent s \<Longrightarrow> tlb s p = Some e \<Longrightarrow> p < 1024 \<and> pte_present e \<and> entry (mem s) (cur s) p = e"
  by (simp add: coherent_def)

lemma coherent_empty: "tlb s = Map.empty \<Longrightarrow> coherent s"
  by (simp add: coherent_def)

lemma coherent_same:
  assumes "coherent s" and "tlb s' = tlb s" and "cur s' = cur s"
    and "\<And>p. p < 1024 \<Longrightarrow> tlb s p \<noteq> None \<Longrightarrow> entry (mem s') (cur s) p = entry (mem s) (cur s) p"
  shows "coherent s'"
  unfolding coherent_def
proof (intro allI impI)
  fix p e assume t: "tlb s' p = Some e"
  with coherentD [OF assms(1), of p e] assms(2) have e: "p < 1024" "pte_present e" "entry (mem s) (cur s) p = e" by simp_all
  with t assms(2-4) show "p < 1024 \<and> pte_present e \<and> entry (mem s') (cur s') p = e" by simp
qed

lemma page_of_low: "page_of va < 1024 \<longleftrightarrow> drop_bit 22 va = 0"
proof
  assume "page_of va < 1024"
  then have "unat va div 4096 < 1024" by (simp add: page_of_def drop_bit_eq_div unat_div)
  then have "unat va div 4194304 = 0" by (simp add: div_less_iff_less_mult)
  then have "unat (drop_bit 22 va) = 0" by (simp add: drop_bit_eq_div unat_div)
  then show "drop_bit 22 va = 0" by (simp add: unat_eq_zero)
qed (rule page_of_less)

lemma kernel_translate:
  assumes k: "kinv s F R P"
  shows "translate (mem s) va = (if drop_bit 22 va = 0 \<and> pte_present (entry (mem s) (cur s) (page_of va))
     then Some (phys_addr (pte_pbase (entry (mem s) (cur s) (page_of va))) va) else None)"
proof -
  have "(mem s)\<lparr>cr3 := Some (cur s)\<rparr> = mem s" using kinvD(7) [OF k] by (auto intro!: mm.equality)
  with translate_table [OF kinvD(10,2) [OF k], of va] show ?thesis by simp
qed

lemma coherent_translate:
  assumes k: "kinv s F R P" and c: "coherent s"
  shows "cached_translate s va = translate (mem s) va"
proof (cases "tlb s (page_of va)")
  case None
  then show ?thesis by (simp add: cached_translate_def cached_entry_def translate_def)
next
  case (Some e)
  with coherentD [OF c Some] kernel_translate [OF k, of va] page_of_low [of va] show ?thesis
    by (auto simp: cached_translate_def cached_entry_def phys_addr_def)
qed

lemma kinv_tlb [simp]: "kinv (s\<lparr>tlb := c\<rparr>) F R P = kinv s F R P"
  by (simp add: kinv_def procs_def)

lemma coherent_fill:
  assumes k: "kinv s F R P" and c: "coherent s" and f: "fill va s = Some s'"
  shows "coherent s'" and "kinv s' F R P"
proof -
  obtain e where e: "page_entry (mem s) va = Some e" "pte_present e" "s' = s\<lparr>tlb := (tlb s)(page_of va \<mapsto> e)\<rparr>"
    using f by (auto simp: fill_def bind_eq_Some_conv split: if_splits)
  have "translate (mem s) va \<noteq> None" using e(1,2) by (simp add: translate_def)
  then have "drop_bit 22 va = 0" using kernel_translate [OF k, of va] by (auto split: if_splits)
  moreover have "entry (mem s) (cur s) (page_of va) = e"
    using page_entry_run [OF kinvD(10,7,2) [OF k] \<open>drop_bit 22 va = 0\<close>] e(1) by (simp add: entry_def page_of_def)
  ultimately show "coherent s'" using c e(2) page_of_less [of va] by (auto simp: coherent_def e(3))
  show "kinv s' F R P" using k by (simp add: e(3))
qed

section \<open>Which steps keep the cache right\<close>

text \<open>
  Which calls \<open>translation_cache_exact\<close> admits. \<^verbatim>\<open>sbrk\<close> must not shrink the heap; \<^verbatim>\<open>sbrk\<close> and \<^verbatim>\<open>fork\<close>, which write table entries
  behind the break, must not meet a cached page there: the page behind an aligned break can be one.
\<close>

fun no_remap :: "event \<Rightarrow> kernel \<Rightarrow> bool" where
  "no_remap (Syscall fp eax ebx ecx edx) s \<longleftrightarrow> (eax = 19 \<longrightarrow> 0 \<le> sint ebx)
     \<and> (eax = 2 \<or> eax = 19 \<longrightarrow> (\<forall>p. 264 + npages (brk (cur_task s)) \<le> p \<and> p < 1024 \<longrightarrow> tlb s p = None))"
| "no_remap _ s \<longleftrightarrow> True"

lemma handler_tlb:
  "user_to_sys s = Some s' \<Longrightarrow> tlb s' = tlb s" "sys_to_user_ready s = Some s' \<Longrightarrow> tlb s' = tlb s"
  by (auto simp: user_to_sys_run sys_to_user_ready_run kstat_def)

lemma coherent_handler:
  "user_to_sys s = Some s' \<Longrightarrow> coherent s' = coherent s" "sys_to_user_ready s = Some s' \<Longrightarrow> coherent s' = coherent s"
  using handler_tlb handler_mem by (auto simp: coherent_def)

lemma coherent_schedule:
  assumes k: "kinv s F R P" and c: "coherent s" and run: "schedule fp s = Some s'"
  shows "coherent s'"
proof -
  obtain R2 P2 where rq: "requeue (nice (cur_task s)) (cur s) R P = (R2, P2)" by fastforce
  show ?thesis
    by (rule schedule_cases [OF kinvD(1-4) [OF k] rq, of fp])
      (use run c in \<open>auto intro: coherent_empty coherent_same [OF c] simp: kstat_def\<close>)
qed

lemma coherent_exit:
  assumes inv: "kinv s F R P" and run: "sys_exit fp s = Some s'"
  shows "coherent s'"
proof -
  obtain h pm where e: "queues h (F @ [cur s]) R P" "sys_exit fp s = sched_next_rr fp (exited s h pm)"
    by (rule sys_exit_run [OF inv refl]) blast
  show ?thesis
  proof (cases "next_task (nice (cur_task s)) R P")
    case None
    then have "sched_next_rr fp (exited s h pm) = None" using e(1) by (intro sched_next_rr_stuck) simp_all
    with run e(2) show ?thesis by simp
  next
    case (Some x)
    then obtain t R' P' where nt: "next_task (nice (cur_task s)) R P = Some (t, R', P')" by (cases x) auto
    have "t \<in> set (R @ P)" using mset_eq_setD [OF next_task_mset [OF nt]] by auto
    then have k: "t \<noteq> cur s" "\<exists>k. kernel_esp (tasks s t) = Some (t, k)" using kinvD(3,4) [OF inv] by auto
    then obtain k h2 st1 st2 q where "s' = switch_to fp t k st1 st2 ((exited s h pm)\<lparr>lists := h2, quantum_ticks := q\<rparr>)"
      using sched_next_rr_switch [of "exited s h pm" "F @ [cur s]" R P t R' P' _ fp] e nt run by auto
    then show ?thesis by (intro coherent_empty) simp
  qed
qed

lemma coherent_fork:
  assumes inv: "kinv s F R P" and c: "coherent s" and run: "sys_fork s = Some (r, s')"
  shows "coherent s'"
  by (rule sys_fork_cases [OF inv run refl]) (use c in \<open>auto intro: coherent_empty coherent_same [OF c]\<close>)

lemma coherent_sbrk:
  assumes inv: "kinv s F R P" and c: "coherent s" and run: "sys_sbrk n s = Some (r, s')" and n: "0 \<le> sint n"
    and fresh: "\<forall>p. 264 + npages (brk (tasks s (cur s))) \<le> p \<and> p < 1024 \<longrightarrow> tlb s p = None"
  shows "coherent s'"
proof (rule sys_sbrk_cases [OF inv run refl])
  fix gs pm assume a: "264 + npages (brk (tasks s (cur s))) + length gs \<le> 1024"
    "s' = upd_task (cur s) (\<lambda>p. p\<lparr>brk := brk (tasks s (cur s)) + n\<rparr>) (s\<lparr>mem := with_entries (cur s)
        (264 + npages (brk (tasks s (cur s)))) (length gs) (\<lambda>i. user_pte (word_of_int (map int gs ! i)))
        ((mem s)\<lparr>phys_mem := pm\<rparr>)\<rparr>)"
  show ?thesis
  proof (rule coherent_same [OF c])
    fix p assume p: "p < 1024" "tlb s p \<noteq> None"
    then have "p < 264 + npages (brk (tasks s (cur s)))" using fresh by (meson not_less)
    then show "entry (mem s') (cur s) p = entry (mem s) (cur s) p"
      using a(1) p(1) by (simp add: a(2) upd_task_def entry_with_entries)
  qed (simp_all add: a(2) upd_task_def)
qed (use n c in \<open>auto intro: coherent_same [OF c]\<close>)

lemma store_user_tlb: "store_user bs q s = Some s' \<Longrightarrow> tlb s' = tlb s \<and> cur s' = cur s \<and> (\<exists>r. mem s' = (mem s)\<lparr>ram := r\<rparr>)"
  by (auto simp: store_user_def bind_eq_Some_conv)

lemma simple_call_tlb:
  "sys_write fd b n s = Some (r, s') \<Longrightarrow> tlb s' = tlb s \<and> cur s' = cur s \<and> entry (mem s') = entry (mem s)"
  "sys_get_key c s = Some (r, s') \<Longrightarrow> tlb s' = tlb s \<and> cur s' = cur s \<and> entry (mem s') = entry (mem s)"
  "sys_get_stats pid st s = Some (r, s') \<Longrightarrow> tlb s' = tlb s \<and> cur s' = cur s \<and> entry (mem s') = entry (mem s)"
  "sys_put_screen a s = Some (r, s') \<Longrightarrow> tlb s' = tlb s \<and> cur s' = cur s \<and> entry (mem s') = entry (mem s)"
  "sys_set_fps fps s = Some (r, s') \<Longrightarrow> tlb s' = tlb s \<and> cur s' = cur s \<and> entry (mem s') = entry (mem s)"
  "sys_fflush s = Some (r, s') \<Longrightarrow> tlb s' = tlb s \<and> cur s' = cur s \<and> entry (mem s') = entry (mem s)"
  subgoal using write_screen [of fd b n s r s'] by auto
  subgoal by (auto simp: sys_get_key_def bind_eq_Some_conv Let_def dest!: store_user_tlb split: if_splits)
  subgoal by (auto simp: sys_get_stats_def bind_eq_Some_conv Let_def upd_stat_def upd_task_def dest!: store_user_tlb
      split: if_splits option.splits)
  subgoal by (auto simp: sys_put_screen_def show_screen_def bind_eq_Some_conv split: if_splits)
  subgoal by (auto simp: sys_set_fps_def Let_def upd_task_def split: if_splits)
  subgoal by (auto simp: sys_fflush_def bind_eq_Some_conv)
  done

lemma coherent_sys_call:
  assumes inv: "kinv s F R P" and c: "coherent s" and run: "sys_call fp n ebx ecx edx s = Some (r, s')"
    and nr: "n = 19 \<Longrightarrow> 0 \<le> sint ebx
      \<and> (\<forall>p. 264 + npages (brk (tasks s (cur s))) \<le> p \<and> p < 1024 \<longrightarrow> tlb s p = None)"
  shows "coherent s'"
proof (cases "n = 1")
  case True
  with run have "sys_exit fp s = Some s'" by (simp add: sys_call_def map_option_case split: option.splits)
  then show ?thesis by (rule coherent_exit [OF inv])
next
  case False
  from False run obtain x where x: "(if n = 2 then sys_fork s else if n = 4 then sys_write ebx ecx edx s
      else if n = 10 then sys_gettime s else if n = 15 then sys_get_key ebx s
      else if n = 16 then sys_put_screen ebx s else if n = 17 then sys_set_fps ebx s
      else if n = 18 then sys_fflush s else if n = 19 then sys_sbrk ebx s else if n = 20 then sys_getpid s
      else if n = 35 then sys_get_stats ebx ecx s else sys_ni_syscall s) = Some (x, s')"
    unfolding sys_call_def by (simp add: map_option_case split: if_split_asm option.split_asm prod.split_asm)
  have same: "coherent s'" if "tlb s' = tlb s \<and> cur s' = cur s \<and> entry (mem s') = entry (mem s)"
    using that by (intro coherent_same [OF c]) auto
  show ?thesis
  proof (cases "n = 10 \<or> n = 20 \<or> n \<notin> {2, 4, 10, 15, 16, 17, 18, 19, 20, 35}")
    case True
    with x c show ?thesis by (auto simp: sys_gettime_def sys_getpid_def sys_ni_syscall_def)
  next
    case False
    then consider "n = 2" | "n = 19" | "n \<in> {4, 15, 16, 17, 18, 35}" by blast
    then show ?thesis
    proof cases
      case 3
      then show ?thesis using x by (intro same) (auto dest: simple_call_tlb)
    qed (use x coherent_fork [OF inv c] coherent_sbrk [OF inv c] nr in simp_all)
  qed
qed

lemma coherent_step:
  assumes "zeos_step zsc e s s'" and "kinv s F R P" and "coherent s" and "no_remap e s"
  shows "coherent s'"
  using assms
proof (induction rule: zeos_step.induct)
  case (clock fp s s')
  obtain s1 where s1: "user_to_sys s = Some s1" "kinv s1 F R P" by (rule kinv_user_to_sys [OF clock.prems(1)])
  with clock.hyps obtain s2 where s2: "clock_routine zsc fp s1 = Some s2" "sys_to_user_ready s2 = Some s'"
    by (auto simp: clock_handler_def bind_eq_Some_conv)
  define s3 where "s3 = s1\<lparr>scr := zsc (zeos_ticks s1) (scr s1), zeos_ticks := zeos_ticks s1 + 1\<rparr>"
  have k3: "kinv s3 F R P" using s1(2) by (simp add: s3_def)
  have c3: "coherent s3" using coherent_handler(1) [OF s1(1)] clock.prems(2) by (simp add: s3_def coherent_def)
  from s2(1) obtain s4 where s4: "schedule_fps s3 = Some s4" "schedule fp s4 = Some s2"
    by (auto simp: clock_routine_def Let_def s3_def bind_eq_Some_conv)
  have "coherent s4"
    using s4(1) c3 by (auto simp: schedule_fps_def Let_def bind_eq_Some_conv dest!: simple_call_tlb(4)
        intro!: coherent_same [OF c3] split: if_splits)
  then have "coherent s2" using coherent_schedule [OF kinv_schedule_fps [OF k3 s4(1)] _ s4(2)] by blast
  then show ?case using coherent_handler(2) [OF s2(2)] by simp
next
  case (key v s s')
  then obtain s1 s2 where s1: "user_to_sys s = Some s1" "keyboard_routine v s1 = Some s2" "sys_to_user_ready s2 = Some s'"
    by (auto simp: keyboard_handler_def bind_eq_Some_conv)
  from s1(2) have "coherent s2 = coherent s1"
    by (auto simp: keyboard_routine_def Let_def bind_eq_Some_conv coherent_def split: if_splits)
  with coherent_handler(1) [OF s1(1)] coherent_handler(2) [OF s1(3)] key.prems(2) show ?case by simp
next
  case (syscall fp eax ebx ecx edx s r s')
  show ?case
  proof (cases "sint eax < 0 \<or> sint eax > MAX_SYSCALL")
    case True
    with syscall show ?thesis by (auto simp: system_call_handler_def)
  next
    case False
    obtain s1 where s1: "user_to_sys s = Some s1" "kinv s1 F R P" by (rule kinv_user_to_sys [OF syscall.prems(1)])
    with syscall.hyps(1) False obtain r2 s2 where s2: "sys_call fp (nat (sint eax)) ebx ecx edx s1 = Some (r2, s2)"
      "sys_to_user_ready s2 = Some s'"
      by (auto simp: system_call_handler_def bind_eq_Some_conv)
    have "eax = 19" if "nat (sint eax) = 19"
    proof -
      have "sint eax = sint (19 :: DWord)" using that by simp
      then show ?thesis by (rule signed_word_eqI)
    qed
    moreover have h: "mem s1 = mem s" "cur s1 = cur s" "brk (tasks s1 (cur s)) = brk (tasks s (cur s))"
      using handler_mem(1) [OF s1(1)] by (auto simp: cur_task_def current_def)
    ultimately have nr: "0 \<le> sint ebx \<and> (\<forall>p. 264 + npages (brk (tasks s1 (cur s1))) \<le> p \<and> p < 1024
        \<longrightarrow> tlb s1 p = None)" if "nat (sint eax) = 19"
      using syscall.prems(3) that h handler_tlb(1) [OF s1(1)] by (simp add: cur_task_def current_def)
    have "coherent s1" using coherent_handler(1) [OF s1(1)] syscall.prems(2) by simp
    from coherent_sys_call [OF s1(2) this s2(1) nr] coherent_handler(2) [OF s2(2)] show ?thesis by simp
  qed
next
  case (store va b s s')
  then show ?case
    by (auto simp: user_store_def bind_eq_Some_conv intro!: coherent_same [OF store.prems(2)] split: if_splits)
qed

section \<open>Runs with a cache\<close>

text \<open>Runs of the machine in which the processor fills its cache as it likes, without the calls that remap pages.\<close>

inductive cached_run :: "(DWord \<Rightarrow> screen \<Rightarrow> screen) \<Rightarrow> kernel \<Rightarrow> kernel \<Rightarrow> bool" for zsc where
  start: "powered s0 \<Longrightarrow> length img \<le> 28 * 4096 \<Longrightarrow> zeos_main set_handlers img rdtr s0 = Some s \<Longrightarrow> cached_run zsc s0 s"
| step: "cached_run zsc s0 s \<Longrightarrow> zeos_step zsc e s s' \<Longrightarrow> no_remap e s \<Longrightarrow> cached_run zsc s0 s'"
| fill: "cached_run zsc s0 s \<Longrightarrow> fill va s = Some s' \<Longrightarrow> cached_run zsc s0 s'"

lemma cached_run_inv:
  assumes "cached_run zsc s0 s"
  shows "coherent s \<and> (\<exists>F R P. kinv s F R P)"
  using assms
proof (induction rule: cached_run.induct)
  case (start s0 img set_handlers rdtr s)
  have "tlb s = Map.empty" using zeos_main_run [OF start(1,2), of set_handlers rdtr] start(3) by auto
  with boot_kinv [OF start] show ?case using coherent_empty by blast
next
  case (step s0 s e s')
  then show ?case using coherent_step step_keeps_kinv by blast
next
  case (fill s0 s va s')
  then show ?case using coherent_fill by blast
qed

section \<open>Stale translations\<close>

definition cached_map :: "kernel \<Rightarrow> vmap" where
  "cached_map s va = do { pa \<leftarrow> cached_translate s va; if 0x100000 \<le> pa then Some pa else None }"

text \<open>What a shrinking \<^verbatim>\<open>sbrk\<close> leaves of a cached page it removes.\<close>

lemma stale_after_shrink:
  assumes inv: "kinv s F R P" and c: "coherent s" and b: "b = brk (cur_task s)" and n: "sint n < 0"
    and h: "b \<noteq> L_HEAP_START" and nw: "0 \<le> uint b + sint n"
    and d: "dest = word_of_int (max (uint L_HEAP_START) (uint b + sint n))"
    and p: "264 + npages dest \<le> p" "p < top_page b" "tlb s p = Some e" and f: "f = frame_of (mem s) (cur s) p"
  obtains s' where "sys_sbrk n s = Some (b, s')" "kinv s' F R P" "tlb s' = tlb s" "cur s' = cur s"
    "f \<in> own_pool" "f \<notin> used_frames (phys_mem (mem s'))" "e = user_pte (word_of_nat f)" "user_page p"
    "entry (mem s') (cur s) p = 0" "\<forall>q < 264 + npages dest. entry (mem s') (cur s) q = entry (mem s) (cur s) q"
    "20 \<le> npages dest"
proof -
  have b': "b = brk (tasks s (cur s))" using b by (simp add: cur_task_def current_def)
  have w: "sint n < 0 \<Longrightarrow> 0 \<le> int (unat b) + sint n" using nw by simp
  from coherentD [OF c p(3)] have e: "p < 1024" "pte_present e" "entry (mem s) (cur s) p = e" by simp_all
  then have e0: "e \<noteq> 0" by auto
  show ?thesis
  proof (cases rule: sys_sbrk_outcome [OF inv b' w, case_names nw deny query undef nomem grow shrink])
    case (shrink dest' pm)
    let ?s = "upd_task (cur s) (\<lambda>p. p\<lparr>brk := dest'\<rparr>) (s\<lparr>mem := with_entries (cur s) (264 + npages dest')
        (top_page b - (264 + npages dest')) (\<lambda>_. 0) ((mem s)\<lparr>phys_mem := pm\<rparr>)\<rparr>)"
    have "int (unat dest') = max (uint L_HEAP_START) (uint b + sint n)" unfolding shrink(4) by simp
    then have "uint dest' = max (uint L_HEAP_START) (uint b + sint n)" by simp
    then have dd: "dest' = dest" unfolding d by (metis word_of_int_uint)
    have k': "kinv ?s F R P" using kinv_sbrk [OF inv shrink(8)] w b' by simp
    have le: "264 + npages dest + (top_page b - (264 + npages dest)) = top_page b"
      using npages_mono(1) [OF shrink(3)] npages_top(1) [of b] unfolding dd by simp
    have bd: "264 + npages dest + (top_page b - (264 + npages dest)) \<le> 1024" unfolding le by (rule shrink(7))
    have up: "user_page p" using p(1) e(1) by (simp add: user_page_def)
    have eo: "entries_owned (mem s)" using kinvD(8) [OF inv] by (simp add: mem_inv_def)
    have fp: "f \<in> own_pool" "entry (mem s) (cur s) p = user_pte (word_of_nat f)"
      using entries_ownedD(1,3) [OF eo kinvD(2) [OF inv] up] e(3) e0 f by simp_all
    have "f \<notin> used_frames pm" unfolding shrink(6) dd using p(1,2) e(3) e0 f by blast
    moreover have "entry (mem ?s) (cur s) q = (if 264 + npages dest \<le> q \<and> q < top_page b then 0 else entry (mem s) (cur s) q)"
      if "q < 1024" for q
      using that bd le unfolding dd by (simp add: upd_task_def entry_with_entries)
    moreover have "264 + npages dest \<le> 1024" using bd by simp
    moreover have "20 \<le> npages dest" using shrink(2) unfolding dd brk_ok_def npages_def by auto
    ultimately show ?thesis
      using that [OF shrink(8) k'] fp e(3) up p(1,2) e(1) by (auto simp: upd_task_def)
  qed (use h n in simp_all)
qed

lemma cached_map_page:
  assumes "tlb s p = Some (user_pte (word_of_nat f))" and "p < 1024" and "i < 4096" and "256 \<le> f" and "f < 2 ^ 20"
  shows "cached_map s (word_of_nat p * 4096 + word_of_nat i) = Some (fbyte f i)"
proof -
  have t: "take_bit 20 (word_of_nat f :: DWord) = word_of_nat f"
    unfolding take_bit_of_nat using assms(5) by (simp add: take_bit_nat_eq_self)
  have o: "take_bit 12 (word_of_nat i :: DWord) = word_of_nat i"
    unfolding take_bit_of_nat using assms(3) by (simp add: take_bit_nat_eq_self)
  show ?thesis
    using assms(1) phys_addr_ge [OF assms(4,5), of "word_of_nat i"]
    by (simp add: cached_map_def cached_translate_def cached_entry_def page_of_def word_page [OF assms(2,3)] t o
        fbyte_def phys_addr_def)
qed

lemma user_map_cached:
  assumes "tlb s (page_of va) = None"
  shows "cached_map s va = user_map (mem s) va"
  using assms by (simp add: cached_map_def cached_translate_def cached_entry_def user_map_def translate_def)


text \<open>
  C26. \<^verbatim>\<open>sbrk\<close> with a negative argument frees pages without emptying the cache: if the processor has cached such a page, as it has
  when the process has just used it, then after the call the tables have no page there, but the process still reaches the
  old frame, which is free now.
\<close>
theorem sbrk_leaves_stale_page:
  assumes "cached_run zsc s0 s" and "b = brk (cur_task s)" and "sint n < 0" and "b \<noteq> L_HEAP_START" and "0 \<le> uint b + sint n"
    and "dest = word_of_int (max (uint L_HEAP_START) (uint b + sint n))"
    and "264 + npages dest \<le> page_of va" and "page_of va < top_page b" and "tlb s (page_of va) \<noteq> None"
    and "f = frame_of (mem s) (cur s) (page_of va)"
  shows "\<exists>s'. sys_sbrk n s = Some (b, s') \<and> translate (mem s') va = None
    \<and> cached_translate s' va = Some (phys_addr (word_of_nat f) va) \<and> f \<in> own_pool - used_frames (phys_mem (mem s'))"
proof -
  obtain F R P where k: "kinv s F R P" and c: "coherent s" using cached_run_inv [OF assms(1)] by blast
  obtain e where e: "tlb s (page_of va) = Some e" using assms(9) by blast
  obtain s' where s': "sys_sbrk n s = Some (b, s')" "kinv s' F R P" "tlb s' = tlb s" "cur s' = cur s"
    "f \<in> own_pool" "f \<notin> used_frames (phys_mem (mem s'))" "e = user_pte (word_of_nat f)" "entry (mem s') (cur s) (page_of va) = 0"
    by (rule stale_after_shrink [OF k c assms(2-8) e assms(10)])
  have "take_bit 20 (word_of_nat f :: DWord) = word_of_nat f"
    unfolding take_bit_of_nat using own_pool_bounds [OF s'(5)] by (simp add: take_bit_nat_eq_self)
  then have "cached_translate s' va = Some (phys_addr (word_of_nat f) va)"
    using e s'(3,7) by (simp add: cached_translate_def cached_entry_def phys_addr_def)
  moreover have "translate (mem s') va = None" using kernel_translate [OF s'(2), of va] s'(4,8) by simp
  ultimately show ?thesis using s'(1,5,6) by blast
qed


section \<open>A machine with a cached heap page\<close>

lemma page_entry_fill:
  assumes k: "kinv s F R P" and va: "drop_bit 22 va = 0" "user_page (page_of va)" "entry (mem s) (cur s) (page_of va) \<noteq> 0"
  shows "fill va s = Some (s\<lparr>tlb := (tlb s)(page_of va \<mapsto> entry (mem s) (cur s) (page_of va))\<rparr>)"
proof -
  have eo: "entries_owned (mem s)" using kinvD(8) [OF k] by (simp add: mem_inv_def)
  have "pte_present (entry (mem s) (cur s) (page_of va))" by (rule entries_ownedD(4) [OF eo kinvD(2) [OF k] va(2,3)])
  then show ?thesis
    using page_entry_run [OF kinvD(10,7,2) [OF k] va(1)] by (simp add: fill_def entry_def page_of_def)
qed

text \<open>The booted process has grown its heap by a page and used it.\<close>

lemma cached_heap:
  obtains s where "cached_run (\<lambda>_ d. d) blank_kernel s" "cur s = 8" "brk (cur_task s) = 0x11D000" "tlb s 284 \<noteq> None"
    "entry (mem s) 8 284 \<noteq> 0"
proof -
  obtain s where s: "reachable (\<lambda>_ d. d) s" "zeos_main id [] 0x7E3B blank_kernel = Some s"
    "kinv s [7, 6, 5, 4, 3, 2, 1, 0] [] []" "cur s = 8" "brk (cur_task s) = L_HEAP_START" "free_frames s = 356"
    by (rule booted_alone [of "\<lambda>_ d. d"])
  have l: "length ([] :: Byte list) \<le> 28 * 4096" by simp
  have t: "tlb s = Map.empty" using zeos_main_run [OF blank_powered l, of id "0x7E3B"] s(2) by auto
  have b: "brk (cur_task s) + 0x1000 = 0x11D000" using s(5) by simp
  obtain s1 where s1: "zeos_step (\<lambda>_ d. d) (Syscall 0 19 0x1000 0 0) s s1" "kinv s1 [7, 6, 5, 4, 3, 2, 1, 0] [] []"
    "cur s1 = 8" "brk (cur_task s1) = 0x11D000" "entry (mem s1) 8 284 \<noteq> 0"
    by (rule sbrk_step [OF s(1,3) refl, of "0x1000" 2])
      (use s b in \<open>auto simp: top_page_def npages_def\<close>)
  have r0: "cached_run (\<lambda>_ d. d) blank_kernel s" by (rule cached_run.start [OF blank_powered l s(2)])
  have r1: "cached_run (\<lambda>_ d. d) blank_kernel s1" by (rule cached_run.step [OF r0 s1(1)]) (simp add: t)
  have v: "drop_bit 22 (0x11C000 :: DWord) = 0" "page_of 0x11C000 = 284" "user_page 284"
    by (simp_all add: page_of_def user_page_def drop_bit_eq_div)
  have f: "fill 0x11C000 s1 = Some (s1\<lparr>tlb := (tlb s1)(284 \<mapsto> entry (mem s1) 8 284)\<rparr>)"
    using page_entry_fill [OF s1(2) v(1)] v s1(3,5) by simp
  have "cached_run (\<lambda>_ d. d) blank_kernel (s1\<lparr>tlb := (tlb s1)(284 \<mapsto> entry (mem s1) 8 284)\<rparr>)"
    by (rule cached_run.fill [OF r1 f])
  then show ?thesis by (rule that) (use s1 in \<open>simp_all add: cur_task_def current_def\<close>)
qed


theorem sbrk_leaves_stale_page_witness:
  "\<exists>s s' a. brk (cur_task s) = 0x11D000 \<and> sys_sbrk (-4096) s = Some (0x11D000, s') \<and> translate (mem s') 0x11C004 = None
    \<and> cached_translate s' 0x11C004 = Some a"
proof -
  obtain s where s: "cached_run (\<lambda>_ d. d) blank_kernel s" "cur s = 8" "brk (cur_task s) = 0x11D000" "tlb s 284 \<noteq> None"
    by (rule cached_heap)
  have d: "L_HEAP_START = word_of_int (max (uint L_HEAP_START) (uint (brk (cur_task s)) + sint (-4096 :: DWord)))"
    using s(3) by simp
  have p: "page_of 0x11C004 = 284" by (simp add: page_of_def drop_bit_eq_div)
  show ?thesis
    using sbrk_leaves_stale_page [OF s(1) refl _ _ _ d, of "0x11C004"] s(3,4) by (auto simp: p npages_def top_page_def)
qed


end
