(* ===== verification/Zeos_Write.thy ===== *)
theory Zeos_Write
  imports Zeos_Safety
begin

text \<open>
  What \<^verbatim>\<open>sys_write\<close> shows on the console: the loop over chunks of 500 bytes, with its index compared to the number
  of chunks, and the rest.
\<close>


lemma write_chunk_run:
  assumes "get_bytes (user_ld (user_map (mem s))) (ram (mem s)) p n = Some cs" and "n \<le> 500" and "length dest = 500"
  shows "write_chunk p (int n) dest s = Some (int n, cs @ drop n dest, s\<lparr>scr := printcs cs (scr s)\<rparr>)"
proof -
  have "length cs = n" by (rule get_bytes_length [OF assms(1)])
  then show ?thesis
    using copy_from_user_buf [OF assms(1), of dest] sys_write_console_run [of n "cs @ drop n dest" "scr s"] assms(2,3)
    by (simp add: write_chunk_def)
qed

text \<open>An address of the data or heap of the running process.\<close>

definition in_own :: "kernel \<Rightarrow> DWord \<Rightarrow> bool" where
  "in_own s va \<longleftrightarrow> drop_bit 22 va = 0 \<and> 264 \<le> page_of va \<and> page_of va < 264 + npages (brk (cur_task s))"

lemma data_in_own:
  assumes "i < 20 * 4096"
  shows "in_own s (0x108000 + word_of_nat i)"
proof -
  have u: "unat (0x108000 + word_of_nat i :: DWord) = 0x108000 + i"
    using assms by (simp add: unat_word_ariths unat_of_nat take_bit_eq_mod)
  have "i div 4096 < 20" using assms by (simp add: less_mult_imp_div_less)
  then have p: "264 \<le> page_of (0x108000 + word_of_nat i)" "page_of (0x108000 + word_of_nat i) < 284"
    unfolding page_of_def drop_bit_eq_div unat_div u by simp_all
  have "unat (drop_bit 22 (0x108000 + word_of_nat i :: DWord)) = 0"
    unfolding drop_bit_eq_div unat_div u using assms by simp
  then have "drop_bit 22 (0x108000 + word_of_nat i :: DWord) = 0" by (simp add: unat_eq_zero)
  with p show ?thesis by (simp add: in_own_def npages_def)
qed

text \<open>The kernel can read them.\<close>

lemma user_page_mapped:
  assumes k: "kinv s F R P" and own: "in_own s va"
  shows "user_map (mem s) va \<noteq> None"
proof -
  have va: "drop_bit 22 va = 0" "264 \<le> page_of va" "page_of va < 264 + npages (brk (cur_task s))"
    using own by (simp_all add: in_own_def)
  let ?e = "entry (mem s) (cur s) (page_of va)"
  obtain a where a: "translate (mem s) va = Some a" using store_runs [OF k va] by blast
  have p: "user_page (page_of va)" "?e \<noteq> 0"
    using process_page [OF k cur_procs va(2)] va(3) by (simp_all add: cur_task_def current_def)
  have eo: "entries_owned (mem s)" using kinvD(8) [OF k] by (simp add: mem_inv_def)
  note e = entries_ownedD(1,5) [OF eo kinvD(2) [OF k] p]
  have "drop_bit 12 a = (word_of_nat (frame_of (mem s) (cur s) (page_of va)) :: DWord)"
    using translate_frame(3) [OF kinvD(10,7,2) [OF k] a] e(2) by simp
  then have "unat (drop_bit 12 a) = frame_of (mem s) (cur s) (page_of va)"
    using unat_frame own_pool_bounds [OF e(1)] by metis
  then have "256 < unat a div 4096" using own_pool_bounds [OF e(1)] by (simp add: drop_bit_eq_div unat_div)
  then have "0x100000 \<le> a" by (simp add: word_le_nat_alt)
  with a show ?thesis by (simp add: user_map_def)
qed



end
