(* ===== verification/Zeos_Client.thy ===== *)
theory Zeos_Client
  imports Zeos_Write
begin

text \<open>
  The calls a process uses to read the keyboard, to ask for statistics and to show pictures at a fixed rate, with
  what they leave in its memory.
\<close>


section \<open>Storing into the running process\<close>

lemma in_own_translate:
  assumes k: "kinv s F R P" and va: "in_own s va"
  obtains f where "f \<in> own_pool" "f = frame_of (mem s) (cur s) (page_of va)" "user_page (page_of va)"
    "entry (mem s) (cur s) (page_of va) \<noteq> 0" "user_map (mem s) va = Some (phys_addr (word_of_nat f) va)"
    "\<And>m. entry m = entry (mem s) \<Longrightarrow> tables_ok m \<Longrightarrow> reads m (cur s) va = Some (ram m (phys_addr (word_of_nat f) va))"
proof -
  have v: "drop_bit 22 va = 0" "264 \<le> page_of va" "page_of va < 264 + npages (brk (cur_task s))"
    using va by (simp_all add: in_own_def)
  have p: "user_page (page_of va)" "entry (mem s) (cur s) (page_of va) \<noteq> 0"
    using process_page [OF k cur_procs v(2)] v(3) by (simp_all add: cur_task_def current_def)
  have eo: "entries_owned (mem s)" using kinvD(8) [OF k] by (simp add: mem_inv_def)
  note e = entries_ownedD(1,4,5) [OF eo kinvD(2) [OF k] p]
  have m: "(mem s)\<lparr>cr3 := Some (cur s)\<rparr> = mem s" using kinvD(7) [OF k] by (auto intro!: mm.equality)
  have t: "translate (mem s) va = Some (phys_addr (word_of_nat (frame_of (mem s) (cur s) (page_of va))) va)"
    using translate_table [OF kinvD(10,2) [OF k], of va] v(1) e(2,3) m by simp
  moreover have "user_map (mem s) va \<noteq> None" by (rule user_page_mapped [OF k va])
  ultimately have "user_map (mem s) va = Some (phys_addr (word_of_nat (frame_of (mem s) (cur s) (page_of va))) va)"
    by (auto simp: user_map_def split: if_splits)
  moreover have "reads m (cur s) va = Some (ram m (phys_addr (word_of_nat (frame_of (mem s) (cur s) (page_of va))) va))"
    if "entry m = entry (mem s)" "tables_ok m" for m
    using reads_table [OF that(2) kinvD(2) [OF k], of va] that(1) v(1) e(2,3) by simp
  ultimately show ?thesis using e(1) p by (intro that [OF _ refl]) simp_all
qed

lemma in_own_inj:
  assumes k: "kinv s F R P" and a: "in_own s a" and b: "in_own s b" and e: "user_map (mem s) a = user_map (mem s) b"
  shows "a = b"
proof -
  obtain f where f: "f \<in> own_pool" "f = frame_of (mem s) (cur s) (page_of a)" "user_page (page_of a)"
    "entry (mem s) (cur s) (page_of a) \<noteq> 0" "user_map (mem s) a = Some (phys_addr (word_of_nat f) a)"
    by (rule in_own_translate [OF k a])
  obtain g where g: "g \<in> own_pool" "g = frame_of (mem s) (cur s) (page_of b)" "user_page (page_of b)"
    "entry (mem s) (cur s) (page_of b) \<noteq> 0" "user_map (mem s) b = Some (phys_addr (word_of_nat g) b)"
    by (rule in_own_translate [OF k b])
  from e f(5) g(5) have pa: "phys_addr (word_of_nat f) a = phys_addr (word_of_nat g) b" by simp
  have "drop_bit 12 (phys_addr (word_of_nat f) a) = (word_of_nat f :: DWord)"
    "drop_bit 12 (phys_addr (word_of_nat g) b) = (word_of_nat g :: DWord)"
    unfolding phys_addr_frame using own_pool_bounds [OF f(1)] own_pool_bounds [OF g(1)]
    by (simp_all add: take_bit_of_nat take_bit_nat_eq_self)
  then have "f = g" using pa word_frame_eq own_pool_bounds [OF f(1)] own_pool_bounds [OF g(1)] by metis
  moreover have "owner_inj (mem s)" using kinvD(8) [OF k] by (simp add: mem_inv_def)
  ultimately have "page_of a = page_of b"
    using owner_injD [of "mem s" "cur s" "cur s" "page_of a" "page_of b"] f(2-4) g(2-4) kinvD(2) [OF k] by metis
  then have "drop_bit 12 a = drop_bit 12 b" unfolding page_of_def by (rule word_unat_eq_iff [THEN iffD2])
  moreover have "take_bit 12 a = take_bit 12 b" by (rule phys_addr_inj(2) [OF pa])
  ultimately show ?thesis by (metis bits_ident)
qed

lemma store_user_own:
  assumes k: "kinv s F R P" and len: "length bs < 2 ^ 32" and own: "\<forall>i < length bs. in_own s (q + word_of_nat i)"
  obtains r where "store_user bs q s = Some (s\<lparr>mem := (mem s)\<lparr>ram := r\<rparr>\<rparr>)"
    "\<forall>i < length bs. reads ((mem s)\<lparr>ram := r\<rparr>) (cur s) (q + word_of_nat i) = Some (bs ! i)"
proof -
  let ?tr = "user_map (mem s)"
  have m: "\<forall>i < length bs. ?tr (q + word_of_nat i) \<noteq> None"
    using own in_own_translate [OF k] by (metis option.discI)
  have inj: "i = j" if "i < length bs" "j < length bs" "?tr (q + word_of_nat i) = ?tr (q + word_of_nat j)" for i j
  proof -
    have "q + word_of_nat i = q + word_of_nat j" using in_own_inj [OF k] own that by blast
    then have "(word_of_nat i :: DWord) = word_of_nat j" by simp
    then have "unat (word_of_nat i :: DWord) = unat (word_of_nat j :: DWord)" by simp
    then show ?thesis using that(1,2) len by (simp add: unat_of_nat take_bit_eq_mod)
  qed
  from put_bytes_user [OF m] inj obtain r where r: "put_bytes (user_st ?tr) (ram (mem s)) q bs = Some r"
    "\<forall>i < length bs. r (the (?tr (q + word_of_nat i))) = bs ! i" by blast
  from copy_to_user_obj [OF refl len m, of "ram (mem s)"] r(1)
  have st: "store_user bs q s = Some (s\<lparr>mem := (mem s)\<lparr>ram := r\<rparr>\<rparr>)" by (auto simp: store_user_def)
  have "reads ((mem s)\<lparr>ram := r\<rparr>) (cur s) (q + word_of_nat i) = Some (bs ! i)" if i: "i < length bs" for i
  proof -
    obtain f where f: "?tr (q + word_of_nat i) = Some (phys_addr (word_of_nat f) (q + word_of_nat i))"
      "\<And>m. entry m = entry (mem s) \<Longrightarrow> tables_ok m \<Longrightarrow>
        reads m (cur s) (q + word_of_nat i) = Some (ram m (phys_addr (word_of_nat f) (q + word_of_nat i)))"
      by (rule in_own_translate [OF k own [rule_format, OF i]]) blast
    from f(2) [of "(mem s)\<lparr>ram := r\<rparr>"] f(1) r(2) i kinvD(10) [OF k] show ?thesis by auto
  qed
  with that [OF st] show ?thesis by blast
qed


section \<open>Keys\<close>

text \<open>The character a scan code stands for; 'C' when the table has none.\<close>

definition key_of :: "Byte \<Rightarrow> Byte" where
  "key_of v = (let code = unat (v AND 0x7f) in if code < 98 \<and> char_map ! code \<noteq> 0 then char_map ! code else 0x43)"

lemma handler_buffer:
  "user_to_sys s = Some s' \<Longrightarrow> keyboard_buffer s' = keyboard_buffer s"
  "sys_to_user_ready s = Some s' \<Longrightarrow> keyboard_buffer s' = keyboard_buffer s"
  by (auto simp: user_to_sys_run sys_to_user_ready_run)

lemma keyboard_routine_key:
  assumes "v AND 0x80 \<noteq> 0" and "v AND 0x7f \<noteq> 98" and "cb_rep (keyboard_buffer s) q" and "length q < 8"
  obtains b where "keyboard_routine v s = Some (s\<lparr>keyboard_buffer := b\<rparr>)" "cb_rep b (q @ [key_of v])"
proof -
  have len: "length char_map = 98" by (simp add: char_map_def)
  have u: "uint (v AND 0x7f) \<noteq> 98" using assms(2) by (metis word_of_int_uint of_int_numeral)
  have "key_of v \<noteq> 0" by (simp add: key_of_def Let_def)
  from kb.put [OF assms(3) _ this] assms(4) obtain b where b: "circular_write (keyboard_buffer s) (key_of v) = Some b"
    "cb_rep b (q @ [key_of v])" by auto
  have "keyboard_routine v s = Some (s\<lparr>keyboard_buffer := b\<rparr>)"
  proof (cases "uint (v AND 0x7f) > 98")
    case True
    then have "\<not> unat (v AND 0x7f) < 98" by (simp add: uint_nat del: of_nat_unat)
    then have "key_of v = 0x43" by (simp add: key_of_def)
    with b(1) True assms(1) show ?thesis by (simp add: keyboard_routine_def len)
  next
    case False
    with u have lt: "unat (v AND 0x7f) < 98" by (simp add: uint_nat del: of_nat_unat)
    then have g: "arr_get char_map (uint (v AND 0x7f)) = Some (char_map ! unat (v AND 0x7f))"
      by (metis arr_get_in len uint_nat)
    show ?thesis
      using b(1) False assms(1) lt by (simp add: keyboard_routine_def len g key_of_def Let_def split: if_splits)
  qed
  with b(2) show ?thesis using that by blast
qed

lemma fflush_step:
  assumes "reachable zsc s" and k: "kinv s F R P"
  obtains s' where "reachable zsc s'" "cb_rep (keyboard_buffer s') []" "cur s' = cur s" "brk (cur_task s') = brk (cur_task s)"
proof -
  obtain s1 where s1: "user_to_sys s = Some s1" "kinv s1 F R P" by (rule kinv_user_to_sys [OF k])
  note h1 = handler_mem(1) [OF s1(1)]
  have "length (cb_buffer (keyboard_buffer s1)) = MAX_VAL" using kinvD(9) [OF s1(2)] by (simp add: cb_wf_def)
  from cb_rep_init [OF this] obtain b where b: "circular_init (keyboard_buffer s1) = Some b" "cb_rep b []" by blast
  then have s2: "sys_fflush s1 = Some (1, s1\<lparr>keyboard_buffer := b\<rparr>)" by (simp add: sys_fflush_def)
  obtain s3 where s3: "sys_to_user_ready (s1\<lparr>keyboard_buffer := b\<rparr>) = Some s3"
    by (rule kinv_sys_to_user_ready [OF kinv_fflush [OF s1(2) s2]])
  have "system_call_handler 0 18 0 0 0 s = Some (Some 1, s3)"
    using s1(1) s2 s3 by (simp add: system_call_handler_def MAX_SYSCALL_def sys_call_def)
  then have "zeos_step zsc (Syscall 0 18 0 0 0) s s3" by (rule zeos_step.syscall) simp
  then have "reachable zsc s3" by (rule reachable_step [OF assms(1)])
  then show ?thesis
    by (rule that) (use b(2) s3 h1 in \<open>auto simp: sys_to_user_ready_run cur_task_def current_def kstat_def\<close>)
qed

text \<open>
  C20. Keys reach a process in order. While fewer than eight characters wait, the interrupt for a key (its code has bit 7
  set) appends its character to the buffer, for every code but one: code 98 is one behind the table and reads
  beyond it. The other interrupts of the keyboard change nothing. \<^verbatim>\<open>get_key\<close> returns 1, stores the oldest
  character at the address the process gives, in its data or heap, and removes it; without one it returns -ENOINP and
  stores the null character.
\<close>
theorem keys_fifo:
  assumes "reachable zsc s" and "cb_rep (keyboard_buffer s) q"
  shows "(\<forall>v. v AND 0x80 \<noteq> 0 \<longrightarrow> v AND 0x7f \<noteq> 98 \<longrightarrow> length q < 8 \<longrightarrow>
      (\<exists>s'. keyboard_handler v s = Some s' \<and> cb_rep (keyboard_buffer s') (q @ [key_of v]) \<and> cur s' = cur s \<and> mem s' = mem s))
    \<and> keyboard_handler 0xE2 s = None
    \<and> (\<forall>v. v AND 0x80 = 0 \<longrightarrow> (\<exists>s'. keyboard_handler v s = Some s' \<and> keyboard_buffer s' = keyboard_buffer s))
    \<and> (\<forall>c. in_own s c \<longrightarrow> (\<exists>s'. sys_get_key c s = Some (if q = [] then - ENOINP else 1, s')
        \<and> cb_rep (keyboard_buffer s') (tl q) \<and> reads (mem s') (cur s) c = Some (if q = [] then 0 else hd q)))"
proof (intro conjI allI impI)
  obtain F R P where k: "kinv s F R P" by (rule reachable_kinv [OF assms(1)])
  obtain s1 where s1: "user_to_sys s = Some s1" "kinv s1 F R P" by (rule kinv_user_to_sys [OF k])
  note h1 = handler_mem(1) [OF s1(1)]
  show "keyboard_handler 0xE2 s = None"
    by (simp add: keyboard_handler_def keyboard_routine_def s1(1) char_map_def arr_get_def)
  {
    fix v :: Byte assume v: "v AND 0x80 \<noteq> 0" "v AND 0x7f \<noteq> 98" and len: "length q < 8"
    have "cb_rep (keyboard_buffer s1) q" using assms(2) handler_buffer(1) [OF s1(1)] by simp
    from keyboard_routine_key [OF v this len] obtain b where b: "keyboard_routine v s1 = Some (s1\<lparr>keyboard_buffer := b\<rparr>)"
      "cb_rep b (q @ [key_of v])" by blast
    obtain s3 where s3: "sys_to_user_ready (s1\<lparr>keyboard_buffer := b\<rparr>) = Some s3"
      by (rule kinv_sys_to_user_ready [OF kinv_keyboard [OF s1(2) b(1)]])
    with s1(1) b(1) have "keyboard_handler v s = Some s3" by (simp add: keyboard_handler_def)
    with b(2) h1 handler_mem(2) [OF s3] handler_buffer(2) [OF s3]
    show "\<exists>s'. keyboard_handler v s = Some s' \<and> cb_rep (keyboard_buffer s') (q @ [key_of v]) \<and> cur s' = cur s \<and> mem s' = mem s"
      by simp
  next
    fix v :: Byte assume v: "v AND 0x80 = 0"
    obtain s3 where s3: "sys_to_user_ready s1 = Some s3" by (rule kinv_sys_to_user_ready [OF s1(2)])
    with s1(1) v have "keyboard_handler v s = Some s3" by (simp add: keyboard_handler_def keyboard_routine_def)
    with handler_buffer(1) [OF s1(1)] handler_buffer(2) [OF s3]
    show "\<exists>s'. keyboard_handler v s = Some s' \<and> keyboard_buffer s' = keyboard_buffer s" by simp
  next
    fix c assume c: "in_own s c"
    then have c0: "c \<noteq> 0" by (auto simp: in_own_def page_of_def)
    have st: "\<exists>s'. store_user [x] c (s\<lparr>keyboard_buffer := b\<rparr>) = Some s' \<and> keyboard_buffer s' = b
        \<and> reads (mem s') (cur s) c = Some x" if "cb_wf b" for x b
    proof -
      let ?s = "s\<lparr>keyboard_buffer := b\<rparr>"
      have k': "kinv ?s F R P" by (rule kinv_frame [OF k, of _ "ram (mem s)"]) (simp_all add: that)
      have own: "\<forall>i < length [x]. in_own ?s (c + word_of_nat i)" using c by (simp add: in_own_def cur_task_def current_def)
      have "length [x] < 2 ^ 32" by simp
      from store_user_own [OF k' this own] obtain r where r: "store_user [x] c ?s = Some (?s\<lparr>mem := (mem ?s)\<lparr>ram := r\<rparr>\<rparr>)"
        "reads ((mem s)\<lparr>ram := r\<rparr>) (cur s) c = Some x" by auto
      then show ?thesis by (intro exI [of _ "?s\<lparr>mem := (mem ?s)\<lparr>ram := r\<rparr>\<rparr>"]) simp
    qed
    show "\<exists>s'. sys_get_key c s = Some (if q = [] then - ENOINP else 1, s')
        \<and> cb_rep (keyboard_buffer s') (tl q) \<and> reads (mem s') (cur s) c = Some (if q = [] then 0 else hd q)"
    proof (cases q)
      case Nil
      with kb.get_Nil assms(2) have g: "circular_read (keyboard_buffer s) = Some (- ENOINP, 0, keyboard_buffer s)" by auto
      from st [OF kinvD(9) [OF k], of 0] obtain s' where "store_user [0] c s = Some s'" "keyboard_buffer s' = keyboard_buffer s"
        "reads (mem s') (cur s) c = Some 0" by auto
      with g c0 Nil assms(2) show ?thesis by (intro exI [of _ s']) (simp add: sys_get_key_def Let_def)
    next
      case (Cons x q')
      with kb.get_Cons assms(2) obtain b where g: "circular_read (keyboard_buffer s) = Some (1, x, b)" "cb_rep b q'" by blast
      from st [OF circular_read_wf [OF kinvD(9) [OF k] g(1)], of x] obtain s' where
        "store_user [x] c (s\<lparr>keyboard_buffer := b\<rparr>) = Some s'" "keyboard_buffer s' = b" "reads (mem s') (cur s) c = Some x" by blast
      with g c0 Cons show ?thesis by (intro exI [of _ s']) (simp add: sys_get_key_def Let_def)
    qed
  }
qed


theorem keys_fifo_witness:
  "\<exists>s s' s''. reachable (\<lambda>_ d. d) s \<and> keyboard_handler 0x90 s = Some s' \<and> cb_rep (keyboard_buffer s') [0x71]
    \<and> sys_get_key 0x108000 s = Some (- ENOINP, s'') \<and> reads (mem s'') 8 0x108000 = Some 0"
proof -
  obtain s0 where s0: "reachable (\<lambda>_ d. d) s0" "kinv s0 [7, 6, 5, 4, 3, 2, 1, 0] [] []" "cur s0 = 8"
    "brk (cur_task s0) = L_HEAP_START" by (rule booted_alone [of "\<lambda>_ d. d"])
  obtain s where s: "reachable (\<lambda>_ d. d) s" "cb_rep (keyboard_buffer s) []" "cur s = cur s0"
    "brk (cur_task s) = brk (cur_task s0)" by (rule fflush_step [OF s0(1,2)])
  have v: "(0x90 :: Byte) AND 0x80 \<noteq> 0" "(0x90 :: Byte) AND 0x7f \<noteq> 98" and l: "length [] < 8" by simp_all
  have "key_of 0x90 = 0x71" by (simp add: key_of_def char_map_def)
  moreover have "in_own s 0x108000" using data_in_own [of 0 s] by simp
  ultimately show ?thesis
    using keys_fifo [OF s(1,2)] v s(1,3) s0(3) by fastforce
qed

section \<open>Statistics\<close>

lemma get_task_from_cases:
  assumes "i \<le> 10"
  shows "case get_task_from i s pid of None \<Rightarrow> (\<forall>t. i \<le> t \<and> t < 10 \<longrightarrow> PID (tasks s t) \<noteq> pid)
    | Some t \<Rightarrow> i \<le> t \<and> t < 10 \<and> PID (tasks s t) = pid \<and> (\<forall>u. i \<le> u \<and> u < t \<longrightarrow> PID (tasks s u) \<noteq> pid)"
  using assms
proof (induction "10 - i" arbitrary: i)
  case 0
  then show ?case by (subst get_task_from.simps) auto
next
  case (Suc n)
  then have "n = 10 - Suc i" "Suc i \<le> 10" by simp_all
  note IH = Suc.hyps(1) [OF this]
  show ?case
  proof (cases "PID (tasks s i) = pid")
    case True
    then show ?thesis using Suc.hyps(2) by (subst get_task_from.simps) auto
  next
    case False
    have le: "i \<le> t \<longleftrightarrow> t = i \<or> Suc i \<le> t" for t by auto
    show ?thesis
      using IH Suc.hyps(2) False by (subst get_task_from.simps) (auto simp: le split: option.splits)
  qed
qed




section \<open>The frame rate\<close>

text \<open>A number of calls of \<^verbatim>\<open>put_screen\<close> in a row, with their results.\<close>

fun put_screens :: "DWord \<Rightarrow> nat \<Rightarrow> kernel \<Rightarrow> (DWord list \<times> kernel) option" where
  "put_screens a 0 s = Some ([], s)"
| "put_screens a (Suc n) s = do {
     (r, s) \<leftarrow> sys_put_screen a s;
     (rs, s) \<leftarrow> put_screens a n s;
     Some (r # rs, s) }"




end
