(* ===== verification/Zeos_Libc.thy ===== *)
theory Zeos_Libc
  imports Zeos_Boot
begin

text \<open>
  The C library of the user programs, \<^verbatim>\<open>zeOS/libc.c\<close>: conversion of numbers, string length, error messages,
  the scenario buffer on the heap; and the ends of the wrappers of \<^verbatim>\<open>wrapper.S\<close>.
\<close>

section \<open>Strings and numbers\<close>

text \<open>\<^verbatim>\<open>strlen\<close>, whose name HOL has for another function; an array without a null character is overrun.\<close>

function strlen_from :: "nat \<Rightarrow> Byte list \<Rightarrow> int option" where
  "strlen_from i a =
     (if i < length a then (if a ! i \<noteq> 0 then strlen_from (Suc i) a else Some (int i)) else None)"
  by pat_completeness auto
termination
  by (relation "measure (\<lambda>(i, a). length a - i)") auto

declare strlen_from.simps [simp del]

definition c_strlen :: "Byte list \<Rightarrow> int option" where
  "c_strlen a = strlen_from 0 a"

text \<open>The two loops of \<^verbatim>\<open>itoa\<close>: digits from the last to the first, then the reversal in place.\<close>

function itoa_digits :: "int \<Rightarrow> int \<Rightarrow> Byte list \<Rightarrow> (int \<times> Byte list) option" where
  "itoa_digits a i b =
     (if a > 0 then do {
        b \<leftarrow> arr_set b i (word_of_int (a mod 10) + 0x30);
        itoa_digits (a div 10) (i + 1) b }
      else Some (i, b))"
  by pat_completeness auto
termination
  by (relation "measure (\<lambda>(a, i, b). nat a)") auto

function itoa_swap :: "int \<Rightarrow> int \<Rightarrow> Byte list \<Rightarrow> Byte list option" where
  "itoa_swap i1 i b =
     (if i1 < i div 2 then do {
        c \<leftarrow> arr_get b i1;
        d \<leftarrow> arr_get b (i - i1 - 1);
        b \<leftarrow> arr_set b i1 d;
        b \<leftarrow> arr_set b (i - i1 - 1) c;
        itoa_swap (i1 + 1) i b }
      else Some b)"
  by pat_completeness auto
termination
  by (relation "measure (\<lambda>(i1, i, b). nat (i div 2 - i1))") auto

declare itoa_digits.simps [simp del] itoa_swap.simps [simp del]

definition itoa :: "DWord \<Rightarrow> Byte list \<Rightarrow> Byte list option" where
  "itoa a b =
    (if a = 0 then do { b \<leftarrow> arr_set b 0 0x30; arr_set b 1 0 }
     else do {
       (i, b) \<leftarrow> itoa_digits (sint a) 0 b;
       b \<leftarrow> itoa_swap 0 i b;
       arr_set b i 0 })"

section \<open>Error messages\<close>

text \<open>The table of messages, indexed by \<^verbatim>\<open>errno - 1\<close>.\<close>

definition etos :: "string list" where
  "etos = [
  ''Operation not permitted'',
  ''No such file or directory'',
  ''No such process'',
  ''Interrupted system call'',
  ''Input/output error'',
  ''No such device or address'',
  ''Argument list too long'',
  ''Exec format error'',
  ''Bad file descriptor'',
  ''No child processes'',
  ''Resource temporarily unavailable'',
  ''Cannot allocate memory'',
  ''Permission denied'',
  ''Bad address'',
  ''Block device required'',
  ''Device or resource busy'',
  ''File exists'',
  ''Invalid cross-device link'',
  ''No such device'',
  ''Not a directory'',
  ''Is a directory'',
  ''Invalid argument'',
  ''Too many open files in system'',
  ''Too many open files'',
  ''Inappropriate ioctl for device'',
  ''Text file busy'',
  ''File too large'',
  ''No space left on device'',
  ''Illegal seek'',
  ''Read-only file system'',
  ''Too many links'',
  ''Broken pipe'',
  ''Numerical argument out of domain'',
  ''Numerical result out of range'',
  ''Resource deadlock avoided'',
  ''File name too long'',
  ''No locks available'',
  ''Function not implemented'',
  ''Directory not empty'',
  ''Too many levels of symbolic links'',
  ''Resource temporarily unavailable'',
  ''No message of desired type'',
  ''Identifier removed'',
  ''Channel number out of range'',
  ''Level 2 not synchronized'',
  ''Level 3 halted'',
  ''Level 3 reset'',
  ''Link number out of range'',
  ''Protocol driver not attached'',
  ''No CSI structure available'',
  ''Level 2 halted'',
  ''Invalid exchange'',
  ''Invalid request descriptor'',
  ''Exchange full'',
  ''No input value on keyboard buffer'',
  ''Invalid request code'',
  ''Invalid slot'',
  ''Resource deadlock avoided'',
  ''Bad font file format'',
  ''Device not a stream'',
  ''No data available'',
  ''Timer expired'',
  ''Out of streams resources'',
  ''Machine is not on the network'',
  ''Package not installed'',
  ''Object is remote'',
  ''Link has been severed'',
  ''Advertise error'',
  ''Srmount error'',
  ''Communication error on send'',
  ''Protocol error'',
  ''Multihop attempted'',
  ''RFS specific error'',
  ''Bad message'',
  ''Value too large for defined data type'',
  ''Name not unique on network'',
  ''File descriptor in bad state'',
  ''Remote address changed'',
  ''Can not access a needed shared library'',
  ''Accessing a corrupted shared library'',
  ''.lib section in a.out corrupted'',
  ''Attempting to link in too many shared libraries'',
  ''Cannot exec a shared library directly'',
  ''Invalid or incomplete multibyte or wide character'',
  ''Interrupted system call should be restarted'',
  ''Streams pipe error'',
  ''Too many users'',
  ''Socket operation on non-socket'',
  ''Destination address required'',
  ''Message too long'',
  ''Protocol wrong type for socket'',
  ''Protocol not available'',
  ''Protocol not supported'',
  ''Socket type not supported'',
  ''Operation not supported'',
  ''Protocol family not supported'',
  ''Address family not supported by protocol'',
  ''Address already in use'',
  ''Cannot assign requested address'',
  ''Network is down'',
  ''Network is unreachable'',
  ''Network dropped connection on reset'',
  ''Software caused connection abort'',
  ''Connection reset by peer'',
  ''No buffer space available'',
  ''Transport endpoint is already connected'',
  ''Transport endpoint is not connected'',
  ''Cannot send after transport endpoint shutdown'',
  ''Too many references: cannot splice'',
  ''Connection timed out'',
  ''Connection refused'',
  ''Host is down'',
  ''No route to host'',
  ''Operation already in progress'',
  ''Operation now in progress'',
  ''Stale file handle'',
  ''Structure needs cleaning'',
  ''Not a XENIX named type file'',
  ''No XENIX semaphores available'',
  ''Is a named type file'',
  ''Remote I/O error'',
  ''Disk quota exceeded'',
  ''No medium found'',
  ''Wrong medium type'',
  ''Operation canceled'',
  ''Required key not available'',
  ''Key has expired'',
  ''Key has been revoked'',
  ''Key was rejected by service'',
  ''Owner died'',
  ''State not recoverable'',
  ''Operation not possible due to RF-kill'',
  ''Memory page has hardware error'',
  ''Operation not supported'']"

text \<open>
  The end of the wrappers in \<^verbatim>\<open>wrapper.S\<close>: a negative result becomes \<^verbatim>\<open>errno\<close> and \<open>-1\<close>. The pair is \<^verbatim>\<open>errno\<close> and the
  value returned. The one of \<^verbatim>\<open>sbrk\<close>, whose results are addresses, looks for \<open>-1\<close> only; the one of \<^verbatim>\<open>exit\<close> ends at
  the trap.
\<close>

definition syscall_result :: "DWord \<Rightarrow> DWord \<Rightarrow> DWord \<times> DWord" where
  "syscall_result errno eax = (if sint eax \<ge> 0 then (errno, eax) else (- eax, -1))"

definition sbrk_result :: "DWord \<Rightarrow> DWord \<Rightarrow> DWord \<times> DWord" where
  "sbrk_result errno eax = (if eax \<noteq> -1 then (errno, eax) else (12, eax))"

text \<open>The text \<^verbatim>\<open>perror\<close> hands to \<^verbatim>\<open>write\<close>, with its length; \<open>len\<close> is the string length function.\<close>

definition perror :: "DWord \<Rightarrow> (Byte list \<times> int) option" where
  "perror errno =
    (if sint errno > 133 \<or> sint errno < 1 then Some (cstr ''Unknown Error'', 13)
     else do {
       buff \<leftarrow> arr_get (map cstr etos) (sint errno - 1);
       n \<leftarrow> c_strlen buff;
       Some (buff, n) })"

section \<open>The scenario buffer\<close>

text \<open>The increments \<^verbatim>\<open>get_scenario\<close> and \<^verbatim>\<open>del_scenario\<close> pass to \<^verbatim>\<open>sbrk\<close>, through the handler.\<close>

definition get_scenario :: "nat \<Rightarrow> kernel \<Rightarrow> (DWord option \<times> kernel) option" where
  "get_scenario fp s = system_call_handler fp 19 (25 * 80) 0 0 s"

definition del_scenario :: "nat \<Rightarrow> kernel \<Rightarrow> (DWord option \<times> kernel) option" where
  "del_scenario fp s = system_call_handler fp 19 ((- 1) * 25 * 80) 0 0 s"


section \<open>Decimal notation\<close>

text \<open>The reference: the digits of a number by division, and the number a string of digits denotes.\<close>

fun decimal :: "nat \<Rightarrow> Byte list" where
  "decimal n = (if n < 10 then [word_of_nat n + 0x30] else decimal (n div 10) @ [word_of_nat (n mod 10) + 0x30])"

declare decimal.simps [simp del]

definition digits_value :: "Byte list \<Rightarrow> nat" where
  "digits_value ds = foldl (\<lambda>v d. 10 * v + unat (d - 0x30)) 0 ds"

lemma digit_value: "n < 10 \<Longrightarrow> unat ((word_of_nat n + 0x30 :: Byte) - 0x30) = n"
  by (simp add: unat_of_nat take_bit_eq_mod)

lemma decimal_value: "digits_value (decimal n) = n"
proof (induction n rule: decimal.induct)
  case (1 n)
  have "n mod 10 < 10" by simp
  with 1 digit_value [of n] digit_value [of "n mod 10"] show ?case
    by (subst decimal.simps) (simp add: digits_value_def del: add_diff_cancel_right')
qed

lemma digit_range: "n < 10 \<Longrightarrow> 0x30 \<le> (word_of_nat n + 0x30 :: Byte) \<and> (word_of_nat n + 0x30 :: Byte) \<le> 0x39"
proof -
  assume "n < 10"
  then have "n \<in> {0,1,2,3,4,5,6,7,8,9}" by auto
  then show ?thesis by (elim insertE emptyE) simp_all
qed

lemma decimal_digits: "d \<in> set (decimal n) \<Longrightarrow> 0x30 \<le> d \<and> d \<le> 0x39"
proof (induction n rule: decimal.induct)
  case (1 n)
  then show ?case by (subst (asm) (2) decimal.simps) (auto simp: digit_range split: if_splits)
qed

lemma itoa_digits_run:
  assumes "0 < n" and "i + length (decimal n) \<le> length b"
  shows "itoa_digits (int n) (int i) b = Some (int (i + length (decimal n)),
    take i b @ rev (decimal n) @ drop (i + length (decimal n)) b)"
  using assms
proof (induction n arbitrary: i b rule: less_induct)
  case (less n)
  let ?d = "word_of_nat (n mod 10) + 0x30 :: Byte"
  have dn: "decimal n = (if n < 10 then [] else decimal (n div 10)) @ [?d]" by (subst decimal.simps) simp
  have i: "i < length b" using less.prems(2) dn by simp
  have d: "(word_of_int (int n mod 10) + 0x30 :: Byte) = ?d"
    by (metis of_int_of_nat_eq of_nat_numeral zmod_int)
  have step: "itoa_digits (int n) (int i) b = itoa_digits (int (n div 10)) (int (Suc i)) (b[i := ?d])"
    using less.prems(1) i d by (subst itoa_digits.simps) (simp add: zdiv_int add.commute)
  have tk: "take (Suc i) (b[i := ?d]) = take i b @ [?d]" using i by (simp add: take_Suc_conv_app_nth)
  show ?case
  proof (cases "n < 10")
    case True
    then have "itoa_digits (int (n div 10)) (int (Suc i)) (b[i := ?d]) = Some (int (Suc i), b[i := ?d])"
      by (subst itoa_digits.simps) simp
    moreover have "b[i := ?d] = take i b @ [?d] @ drop (Suc i) b" using i by (simp add: upd_conv_take_nth_drop)
    ultimately show ?thesis using step dn True by simp
  next
    case False
    then have "itoa_digits (int (n div 10)) (int (Suc i)) (b[i := ?d]) = Some (int (Suc i + length (decimal (n div 10))),
        take (Suc i) (b[i := ?d]) @ rev (decimal (n div 10)) @ drop (Suc i + length (decimal (n div 10))) (b[i := ?d]))"
      using less.prems(2) dn by (intro less.IH) simp_all
    then show ?thesis using step dn False tk by (simp add: add.commute)
  qed
qed

definition half_reversed :: "nat \<Rightarrow> nat \<Rightarrow> Byte list \<Rightarrow> Byte list" where
  "half_reversed n k b = map (\<lambda>j. if j < n \<and> (j < k \<or> n - k \<le> j) then b ! (n - 1 - j) else b ! j) [0..<length b]"

lemma itoa_swap_run:
  assumes "n \<le> length b" and "2 * k \<le> n"
  shows "itoa_swap (int k) (int n) (half_reversed n k b) = Some (rev (take n b) @ drop n b)"
  using assms(2)
proof (induction "n div 2 - k" arbitrary: k)
  case 0
  then have k: "k = n div 2" by simp
  have "half_reversed n k b = rev (take n b) @ drop n b"
  proof (rule nth_equalityI)
    fix j assume j: "j < length (half_reversed n k b)"
    then have jb: "j < length b" by (simp add: half_reversed_def)
    have mid: "n - 1 - j = j" if "j < n" "\<not> j < k" "\<not> n - k \<le> j"
    proof -
      have "n = 2 * k \<or> n = 2 * k + 1" unfolding k by presburger
      with that show ?thesis by auto
    qed
    then show "half_reversed n k b ! j = (rev (take n b) @ drop n b) ! j"
      using jb assms(1) mid by (cases "j < n") (auto simp: half_reversed_def nth_append rev_nth)
  qed (use assms(1) in \<open>simp add: half_reversed_def\<close>)
  then show ?case using k by (subst itoa_swap.simps) (simp add: zdiv_int)
next
  case (Suc d)
  then have k: "k < n div 2" by simp
  then have kn: "k < n - k - 1" "n - k - 1 < n" "n - Suc k = n - k - 1" by linarith+
  let ?b = "half_reversed n k b"
  have len: "length ?b = length b" by (simp add: half_reversed_def)
  have at: "?b ! k = b ! k" "?b ! (n - k - 1) = b ! (n - k - 1)"
  proof -
    have c: "k < length b" "n - k - 1 < length b" "\<not> n - k \<le> k" "\<not> n - k \<le> n - k - 1" "\<not> n - k - 1 < k"
      using kn assms(1) by linarith+
    then show "?b ! k = b ! k" "?b ! (n - k - 1) = b ! (n - k - 1)"
      unfolding half_reversed_def by (simp_all del: not_le)
  qed
  have nxt: "?b[k := b ! (n - k - 1), n - k - 1 := b ! k] = half_reversed n (Suc k) b"
  proof (rule nth_equalityI)
    fix j assume "j < length (?b[k := b ! (n - k - 1), n - k - 1 := b ! k])"
    then have jb: "j < length b" by (simp add: half_reversed_def)
    consider "j = k" | "j = n - k - 1" | "j \<noteq> k" "j \<noteq> n - k - 1" by blast
    then show "?b[k := b ! (n - k - 1), n - k - 1 := b ! k] ! j = half_reversed n (Suc k) b ! j"
    proof cases
      case 3
      then have "(j < k \<or> n - k \<le> j) = (j < Suc k \<or> n - Suc k \<le> j)" if "j < n" using kn that by linarith
      with 3 jb show ?thesis by (auto simp: half_reversed_def)
    next
      case 1
      have c: "k < n" "k < length b" "k \<noteq> n - k - 1" "n - 1 - k = n - k - 1" using kn jb 1 by linarith+
      then have "half_reversed n (Suc k) b ! k = b ! (n - k - 1)" unfolding half_reversed_def by simp
      with c 1 len show ?thesis by simp
    next
      case 2
      have c: "n - k - 1 < n" "n - k - 1 < length b" "n - Suc k \<le> n - k - 1" "n - 1 - (n - k - 1) = k"
        using kn jb 2 by linarith+
      then have "half_reversed n (Suc k) b ! (n - k - 1) = b ! k"
        unfolding half_reversed_def by (simp only: nth_map_upt diff_zero add_0 c simp_thms if_True)
      with c 2 len show ?thesis by simp
    qed
  qed (simp add: half_reversed_def)
  have i: "int n - int k - 1 = int (n - k - 1)" using kn by linarith
  have "itoa_swap (int k) (int n) ?b = itoa_swap (int (Suc k)) (int n) (?b[k := b ! (n - k - 1), n - k - 1 := b ! k])"
  proof -
    have c: "int k < int n div 2" "k < length ?b" "n - k - 1 < length ?b" using k kn(1,2) len assms(1) by linarith+
    have "arr_get ?b (int k) = Some (b ! k)" "arr_get ?b (int n - int k - 1) = Some (b ! (n - k - 1))"
      using c at unfolding i by (simp_all only: arr_get_in)
    moreover have "arr_set ?b (int k) (b ! (n - k - 1)) = Some (?b[k := b ! (n - k - 1)])"
      "arr_set (?b[k := b ! (n - k - 1)]) (int n - int k - 1) (b ! k) = Some (?b[k := b ! (n - k - 1), n - k - 1 := b ! k])"
      unfolding i using c by (simp_all only: arr_set_in length_list_update)
    moreover have "int k + 1 = int (Suc k)" by simp
    ultimately show ?thesis using c(1) by (subst itoa_swap.simps) (simp only: if_True bind_Some_run)
  qed
  also have "\<dots> = Some (rev (take n b) @ drop n b)"
    unfolding nxt
  proof (rule Suc.hyps(1))
    show "d = n div 2 - Suc k" using Suc.hyps(2) by linarith
    show "2 * Suc k \<le> n" using k by presburger
  qed
  finally show ?case .
qed

lemma half_reversed_0: "half_reversed n 0 b = b"
  by (rule nth_equalityI) (auto simp: half_reversed_def)

lemma itoa_run:
  assumes "0 < sint a" and "length (decimal (nat (sint a))) < length b"
  shows "itoa a b = Some (decimal (nat (sint a)) @ 0 # drop (Suc (length (decimal (nat (sint a))))) b)"
proof -
  let ?d = "decimal (nat (sint a))"
  have a: "a \<noteq> 0" using assms(1) by auto
  have "itoa_digits (int (nat (sint a))) (int 0) b = Some (int (0 + length ?d), take 0 b @ rev ?d @ drop (0 + length ?d) b)"
    by (rule itoa_digits_run) (use assms in simp_all)
  then have d: "itoa_digits (sint a) 0 b = Some (int (length ?d), rev ?d @ drop (length ?d) b)" using assms(1) by simp
  have "itoa_swap (int 0) (int (length ?d)) (half_reversed (length ?d) 0 (rev ?d @ drop (length ?d) b))
      = Some (rev (take (length ?d) (rev ?d @ drop (length ?d) b)) @ drop (length ?d) (rev ?d @ drop (length ?d) b))"
    by (rule itoa_swap_run) simp_all
  then have "itoa_swap 0 (int (length ?d)) (rev ?d @ drop (length ?d) b) = Some (?d @ drop (length ?d) b)"
    by (simp add: half_reversed_0)
  with a d assms(2) show ?thesis
    by (simp add: itoa_def list_update_append Cons_nth_drop_Suc [symmetric])
qed

lemma strlen_run:
  assumes "0 \<notin> set cs"
  shows "c_strlen (cs @ 0 # junk) = Some (int (length cs))"
proof -
  have "strlen_from i (cs @ 0 # junk) = Some (int (length cs))" if "i \<le> length cs" for i
    using that
  proof (induction "length cs - i" arbitrary: i)
    case 0
    then show ?case by (subst strlen_from.simps) (simp add: nth_append)
  next
    case (Suc k)
    then have "i < length cs" "cs ! i \<noteq> 0" using assms by (auto simp: in_set_conv_nth)
    with Suc show ?case by (subst strlen_from.simps) (simp add: nth_append)
  qed
  from this [of 0] show ?thesis by (simp add: c_strlen_def)
qed

text \<open>
  C40. \<^verbatim>\<open>itoa\<close> writes a number that is not negative in decimal, with a final null, and nothing behind it; the
  length \<^verbatim>\<open>strlen\<close> finds is the number of digits, and the digits denote the number.
\<close>

theorem itoa_correct:
  assumes "0 \<le> sint a" and "length (decimal (nat (sint a))) < length b"
  shows "\<exists>r. itoa a b = Some r \<and> r = decimal (nat (sint a)) @ 0 # drop (Suc (length (decimal (nat (sint a))))) b
    \<and> c_strlen r = Some (int (length (decimal (nat (sint a)))))
    \<and> int (digits_value (decimal (nat (sint a)))) = sint a"
proof -
  let ?d = "decimal (nat (sint a))"
  have nz: "0 \<notin> set ?d" using decimal_digits [of 0 "nat (sint a)"] by auto
  have "itoa a b = Some (?d @ 0 # drop (Suc (length ?d)) b)"
  proof (cases "a = 0")
    case True
    have d: "decimal 0 = [0x30]" by (subst decimal.simps) simp
    obtain x y zs where "b = x # y # zs" using assms(2) True d by (cases b rule: remdups_adj.cases) auto
    with True d show ?thesis by (simp add: itoa_def arr_set_def)
  next
    case False
    then have "0 < sint a" using assms(1) by (metis order_le_less signed_0 signed_word_eqI)
    then show ?thesis using itoa_run assms(2) by blast
  qed
  then show ?thesis using strlen_run [OF nz] decimal_value assms(1) by simp
qed

theorem itoa_correct_witness:
  "\<exists>r. itoa 1042 (replicate 8 0xff) = Some r \<and> r = [0x31, 0x30, 0x34, 0x32, 0, 0xff, 0xff, 0xff] \<and> c_strlen r = Some 4"
proof -
  have d: "decimal 1042 = [0x31, 0x30, 0x34, 0x32]" by (simp add: decimal.simps)
  have n: "nat (sint (1042 :: DWord)) = 1042" by simp
  from itoa_correct [of 1042 "replicate 8 0xff", unfolded n d] show ?thesis by (simp add: eval_nat_numeral)
qed

text \<open>
  A negative number comes out as the empty string: no sign, no digits.
\<close>

theorem itoa_negative:
  assumes "sint a < 0" and "b \<noteq> []"
  shows "itoa a b = Some (0 # tl b)"
proof -
  from assms obtain x xs where b: "b = x # xs" by (cases b) auto
  have "a \<noteq> 0" using assms(1) by auto
  moreover have "itoa_digits (sint a) 0 b = Some (0, b)" using assms(1) by (subst itoa_digits.simps) simp
  moreover have "itoa_swap 0 0 b = Some b" by (subst itoa_swap.simps) simp
  ultimately show ?thesis by (simp add: itoa_def arr_set_def b)
qed

theorem itoa_negative_witness: "itoa (- 5) [1, 2, 3] = Some [0, 2, 3]"
  using itoa_negative [of "- 5" "[1, 2, 3]"] by simp

section \<open>Messages\<close>

lemma etos_length: "length etos = 134"
  by (simp add: etos_def)

lemma etos_text: "m \<in> set etos \<Longrightarrow> CHR 0x00 \<notin> set m"
proof -
  have "list_all (\<lambda>m. list_all (\<lambda>c. c \<noteq> CHR 0x00) m) etos" by code_simp
  then show "m \<in> set etos \<Longrightarrow> CHR 0x00 \<notin> set m" by (auto simp: list_all_iff)
qed

lemma byte_of_char: "(of_char c :: Byte) = 0 \<longleftrightarrow> c = CHR 0x00"
proof (cases c)
  case (Char b0 b1 b2 b3 b4 b5 b6 b7)
  then show ?thesis
    by (cases b0; cases b1; cases b2; cases b3; cases b4; cases b5; cases b6; cases b7) simp_all
qed

text \<open>
  For the error numbers 1 to 133 \<^verbatim>\<open>perror\<close> writes the message of the table, never outside the table, and exactly as
  long as it is; for all others it writes the default message.
\<close>

theorem perror_message:
  "perror e = (if 1 \<le> sint e \<and> sint e \<le> 133
     then Some (cstr (etos ! nat (sint e - 1)), int (length (etos ! nat (sint e - 1))))
     else Some (cstr ''Unknown Error'', 13))"
proof (cases "1 \<le> sint e \<and> sint e \<le> 133")
  case True
  define k where "k = nat (sint e - 1)"
  have k: "k < length etos" "sint e - 1 = int k"
    using True unfolding etos_length k_def by (simp_all add: nat_less_iff)
  have "0 \<notin> set (map of_char (etos ! k) :: Byte list)"
    using etos_text [OF nth_mem [OF k(1)]] byte_of_char by (auto simp: image_iff)
  from strlen_run [OF this, of "[]"] have "c_strlen (cstr (etos ! k)) = Some (int (length (etos ! k)))"
    by (simp add: cstr_def)
  moreover have "arr_get (map cstr etos) (sint e - 1) = Some (cstr (etos ! k))"
    unfolding k(2) using k(1) by (simp add: arr_get_def)
  ultimately have "perror e = Some (cstr (etos ! k), int (length (etos ! k)))" using True by (simp add: perror_def)
  then show ?thesis using True by (simp add: k_def)
qed (auto simp: perror_def)

text \<open>
  The messages of the errors the kernel returns: ESRCH, EBADF, EAGAIN, ENOMEM, EACCES, EFAULT, EINVAL, EDOM,
  ENOSYS, ENOINP.
\<close>

theorem kernel_error_messages:
  "map (\<lambda>n. etos ! (n - 1)) [ESRCH, 9, EAGAIN, ENOMEM, 13, EFAULT, EINVAL, EDOM, ENOSYS, ENOINP]
   = [''No such process'', ''Bad file descriptor'', ''Resource temporarily unavailable'', ''Cannot allocate memory'',
      ''Permission denied'', ''Bad address'', ''Invalid argument'', ''Numerical argument out of domain'',
      ''Function not implemented'', ''No input value on keyboard buffer'']"
  by code_simp

text \<open>
  A wrapper passes a result that is not negative through and leaves \<^verbatim>\<open>errno\<close>; every error number \<open>n\<close>
  the kernel returns as \<open>-n\<close> comes out as \<open>-1\<close> with \<^verbatim>\<open>errno\<close> equal to \<open>n\<close>.
\<close>

theorem wrapper_errno:
  assumes "0 < n" and "n < 2 ^ 31"
  shows "syscall_result e (- (word_of_nat n)) = (word_of_nat n, -1)
    \<and> syscall_result e (word_of_nat n) = (e, word_of_nat n)"
proof -
  have w: "sint (word_of_nat n :: DWord) = int n"
    using assms sint_small [of "word_of_nat n"] by (simp add: unat_of_nat take_bit_eq_mod)
  have "sint (- (word_of_nat n :: DWord)) = - int n"
  proof -
    have "sint (word_of_int (- int n) :: DWord) = - int n"
    proof -
      have "signed_take_bit (LENGTH(32) - Suc 0) (- int n) = - int n"
        using assms by (intro signed_take_bit_int_eq_self) simp_all
      then show ?thesis by (simp only: signed_of_int of_int_eq_id id_apply)
    qed
    then show ?thesis by simp
  qed
  with w assms show ?thesis by (simp add: syscall_result_def)
qed

theorem wrapper_errno_witness: "syscall_result 7 (- 12) = (12, -1) \<and> syscall_result 7 12 = (7, 12)"
  using wrapper_errno [of 12 7] by simp

end
