(* ===== verification/Zeos_Wrapper.thy ===== *)
theory Zeos_Wrapper
  imports Zeos_Libc Zeos_Reach
begin

text \<open>
  The system call wrappers of \<^verbatim>\<open>wrapper.S\<close>, instruction by instruction, on the user's registers and stack, and the entry and exit
  code of \<^verbatim>\<open>syscall_handler_sysenter\<close> in \<^verbatim>\<open>entry.S\<close>. What happens between entry and exit, the service routine and whatever
  other processes run meanwhile, is a parameter: a function from the registers with number and arguments and the user's memory
  to the result in \<^verbatim>\<open>%eax\<close>, what \<^verbatim>\<open>RESTORE_ALL\<close> finds in the slots of \<^verbatim>\<open>%ebx\<close>, \<^verbatim>\<open>%ecx\<close> and \<^verbatim>\<open>%edx\<close>, which are also the parameters of
  the service routine and so its to change, and the memory.
\<close>

section \<open>Registers and stack of a process\<close>

text \<open>The stack is a memory of words at word addresses.\<close>

record ustate =
  u_eax :: DWord
  u_ebx :: DWord
  u_ecx :: DWord
  u_edx :: DWord
  u_ebp :: DWord
  u_esp :: DWord
  u_eip :: DWord
  u_mem :: "DWord \<Rightarrow> DWord"
  u_errno :: DWord

type_synonym service =
  "DWord \<Rightarrow> DWord \<Rightarrow> DWord \<Rightarrow> DWord \<Rightarrow> (DWord \<Rightarrow> DWord) \<Rightarrow> (DWord \<times> DWord \<times> DWord \<times> DWord) \<times> (DWord \<Rightarrow> DWord)"

definition pushl :: "DWord \<Rightarrow> ustate \<Rightarrow> ustate" where
  "pushl v u = u\<lparr>u_esp := u_esp u - 4, u_mem := (u_mem u)(u_esp u - 4 := v)\<rparr>"

definition popl :: "(DWord \<Rightarrow> ustate \<Rightarrow> ustate) \<Rightarrow> ustate \<Rightarrow> ustate" where
  "popl set_reg u = set_reg (u_mem u (u_esp u)) (u\<lparr>u_esp := u_esp u + 4\<rparr>)"

abbreviation (input) "to_ebx \<equiv> \<lambda>v u. u\<lparr>u_ebx := v\<rparr>"
abbreviation (input) "to_ecx \<equiv> \<lambda>v u. u\<lparr>u_ecx := v\<rparr>"
abbreviation (input) "to_edx \<equiv> \<lambda>v u. u\<lparr>u_edx := v\<rparr>"
abbreviation (input) "to_ebp \<equiv> \<lambda>v u. u\<lparr>u_ebp := v\<rparr>"
abbreviation (input) "to_eip \<equiv> \<lambda>v u. u\<lparr>u_eip := v\<rparr>"

section \<open>Into the kernel and back\<close>

definition int80 :: "service \<Rightarrow> ustate \<Rightarrow> ustate" where
  "int80 serve u =
    (let ((a, b, c, d), m) = serve (u_eax u) (u_ebx u) (u_ecx u) (u_edx u) (u_mem u)
     in u\<lparr>u_eax := a, u_ebx := b, u_ecx := c, u_edx := d, u_mem := m\<rparr>)"

text \<open>
  \<^verbatim>\<open>sysenter\<close>: the handler takes the return address from \<^verbatim>\<open>4(%ebp)\<close> and the stack from \<^verbatim>\<open>%ebp\<close>; \<^verbatim>\<open>sysexit\<close> loads \<^verbatim>\<open>%eip\<close> from \<^verbatim>\<open>%edx\<close>
  and \<^verbatim>\<open>%esp\<close> from \<^verbatim>\<open>%ecx\<close>.
\<close>

definition sysenter :: "service \<Rightarrow> ustate \<Rightarrow> ustate" where
  "sysenter serve u =
    (let stk = u_ebp u; ret = u_mem u (u_ebp u + 4);
         ((a, b, c, d), m) = serve (u_eax u) (u_ebx u) (u_ecx u) (u_edx u) (u_mem u);
         u = u\<lparr>u_eax := a, u_ebx := b, u_ecx := c, u_edx := d, u_mem := m\<rparr>;
         u = u\<lparr>u_edx := ret\<rparr>; u = u\<lparr>u_ecx := stk\<rparr>
     in u\<lparr>u_eip := u_edx u, u_esp := u_ecx u\<rparr>)"

section \<open>The wrappers\<close>

definition set_result :: "(DWord \<Rightarrow> DWord \<Rightarrow> DWord \<times> DWord) \<Rightarrow> ustate \<Rightarrow> ustate" where
  "set_result f u = (let (e, a) = f (u_errno u) (u_eax u) in u\<lparr>u_errno := e, u_eax := a\<rparr>)"

fun run :: "(ustate \<Rightarrow> ustate) list \<Rightarrow> ustate \<Rightarrow> ustate" where
  "run [] u = u"
| "run (i # is) u = run is (i u)"

text \<open>Arguments into \<^verbatim>\<open>%ebx\<close>, which is saved before, and \<^verbatim>\<open>%ecx\<close>.\<close>

definition load_args :: "nat \<Rightarrow> (ustate \<Rightarrow> ustate) list" where
  "load_args nargs =
    (if nargs = 0 then []
     else [\<lambda>u. pushl (u_ebx u) u, \<lambda>u. u\<lparr>u_ebx := u_mem u (u_ebp u + 8)\<rparr>]
          @ (if nargs = 1 then [] else [\<lambda>u. u\<lparr>u_ecx := u_mem u (u_ebp u + 12)\<rparr>]))"

text \<open>
  The shape of the wrappers that use \<^verbatim>\<open>sysenter\<close>: number, arguments and the code behind the return label, at address \<open>ret\<close>, are
  what they differ in. Arriving anywhere else is not a behaviour of the wrapper.
\<close>

definition by_sysenter :: "DWord \<Rightarrow> nat \<Rightarrow> (ustate \<Rightarrow> ustate) \<Rightarrow> service \<Rightarrow> DWord \<Rightarrow> ustate \<Rightarrow> ustate option" where
  "by_sysenter number nargs finish serve ret u =
    (let u = run ([\<lambda>u. pushl (u_ebp u) u,
                   \<lambda>u. u\<lparr>u_ebp := u_esp u\<rparr>,
                   \<lambda>u. u\<lparr>u_eax := number\<rparr>,
                   \<lambda>u. pushl (u_ecx u) u,
                   \<lambda>u. pushl (u_edx u) u]
                  @ load_args nargs @
                  [pushl ret,
                   \<lambda>u. pushl (u_ebp u) u,
                   \<lambda>u. u\<lparr>u_ebp := u_esp u\<rparr>,
                   sysenter serve]) u
     in if u_eip u = ret then
          Some (run ([popl to_ebp,
                      \<lambda>u. u\<lparr>u_esp := u_esp u + 4\<rparr>]
                     @ (if nargs = 0 then [] else [popl to_ebx]) @
                     [popl to_edx,
                      popl to_ecx,
                      finish,
                      popl to_ebp,
                      popl to_eip]) u)
        else None)"

definition w_write :: "service \<Rightarrow> DWord \<Rightarrow> ustate \<Rightarrow> ustate option" where
  "w_write serve ret u = Some (run
     [\<lambda>u. pushl (u_ebp u) u,
      \<lambda>u. u\<lparr>u_ebp := u_esp u\<rparr>,
      \<lambda>u. pushl (u_ebx u) u,
      \<lambda>u. u\<lparr>u_ebx := u_mem u (u_ebp u + 8)\<rparr>,
      \<lambda>u. u\<lparr>u_ecx := u_mem u (u_ebp u + 12)\<rparr>,
      \<lambda>u. u\<lparr>u_edx := u_mem u (u_ebp u + 16)\<rparr>,
      \<lambda>u. u\<lparr>u_eax := 4\<rparr>,
      int80 serve,
      set_result syscall_result,
      popl to_ebx,
      popl to_ebp,
      popl to_eip] u)"

definition w_gettime :: "service \<Rightarrow> DWord \<Rightarrow> ustate \<Rightarrow> ustate option" where
  "w_gettime = by_sysenter 10 0 (set_result syscall_result)"

definition w_getpid :: "service \<Rightarrow> DWord \<Rightarrow> ustate \<Rightarrow> ustate option" where
  "w_getpid = by_sysenter 20 0 (set_result syscall_result)"

definition w_fork :: "service \<Rightarrow> DWord \<Rightarrow> ustate \<Rightarrow> ustate option" where
  "w_fork = by_sysenter 2 0 (set_result syscall_result)"

definition w_exit :: "service \<Rightarrow> DWord \<Rightarrow> ustate \<Rightarrow> ustate option" where
  "w_exit = by_sysenter 1 0 id"

definition w_get_stats :: "service \<Rightarrow> DWord \<Rightarrow> ustate \<Rightarrow> ustate option" where
  "w_get_stats = by_sysenter 35 2 (set_result syscall_result)"

definition w_fflush :: "service \<Rightarrow> DWord \<Rightarrow> ustate \<Rightarrow> ustate option" where
  "w_fflush = by_sysenter 18 2 (set_result syscall_result)"

definition w_get_key :: "service \<Rightarrow> DWord \<Rightarrow> ustate \<Rightarrow> ustate option" where
  "w_get_key = by_sysenter 15 1 (set_result syscall_result)"

definition w_put_screen :: "service \<Rightarrow> DWord \<Rightarrow> ustate \<Rightarrow> ustate option" where
  "w_put_screen = by_sysenter 16 1 (set_result syscall_result)"

definition w_set_fps :: "service \<Rightarrow> DWord \<Rightarrow> ustate \<Rightarrow> ustate option" where
  "w_set_fps = by_sysenter 17 1 (set_result syscall_result)"

definition w_sbrk :: "service \<Rightarrow> DWord \<Rightarrow> ustate \<Rightarrow> ustate option" where
  "w_sbrk = by_sysenter 19 1 (set_result sbrk_result)"

section \<open>The calling convention\<close>

text \<open>The words below the stack pointer that a wrapper uses; no service routine writes them, or the return address.\<close>

definition frame_words :: "DWord \<Rightarrow> DWord set" where
  "frame_words sp = {sp - 4, sp - 8, sp - 12, sp - 16, sp - 20, sp - 24}"

definition leaves_frame :: "DWord \<Rightarrow> service \<Rightarrow> bool" where
  "leaves_frame sp serve \<longleftrightarrow> (\<forall>n b c d m. \<forall>x \<in> insert sp (frame_words sp). snd (serve n b c d m) x = m x)"

text \<open>A service routine without parameters leaves the saved \<^verbatim>\<open>%ebx\<close> alone, as C functions do with words that are not theirs.\<close>

definition keeps_ebx :: "DWord \<Rightarrow> service \<Rightarrow> bool" where
  "keeps_ebx n serve \<longleftrightarrow> (\<forall>b c d m. fst (snd (fst (serve n b c d m))) = b)"

text \<open>
  A C function of \<open>nargs\<close> arguments that makes the call \<open>number\<close>: it passes its arguments to the service routine, the words above
  the stack pointer as the caller pushed them, with memory as it was but for words below the stack pointer; it returns to its
  caller with stack, \<^verbatim>\<open>%ebp\<close> and \<^verbatim>\<open>%ebx\<close> as they were, with result and \<^verbatim>\<open>errno\<close> as \<open>result\<close> makes them of \<^verbatim>\<open>%eax\<close>, and with the memory
  the service routine left.
\<close>

definition wrapper_of :: "DWord \<Rightarrow> nat \<Rightarrow> (DWord \<Rightarrow> DWord \<Rightarrow> DWord \<times> DWord)
    \<Rightarrow> (service \<Rightarrow> DWord \<Rightarrow> ustate \<Rightarrow> ustate option) \<Rightarrow> service \<Rightarrow> DWord \<Rightarrow> ustate \<Rightarrow> bool" where
  "wrapper_of number nargs result w serve ret u \<longleftrightarrow> (\<exists>u' m a b c d m'. w serve ret u = Some u'
     \<and> (\<forall>x. x \<notin> frame_words (u_esp u) \<longrightarrow> m x = u_mem u x)
     \<and> serve number (if nargs \<ge> 1 then u_mem u (u_esp u + 4) else u_ebx u)
         (if nargs \<ge> 2 then u_mem u (u_esp u + 8) else u_ecx u)
         (if nargs \<ge> 3 then u_mem u (u_esp u + 12) else u_edx u) m = ((a, b, c, d), m')
     \<and> u_eip u' = u_mem u (u_esp u) \<and> u_esp u' = u_esp u + 4 \<and> u_ebp u' = u_ebp u \<and> u_ebx u' = u_ebx u
     \<and> (u_errno u', u_eax u') = result (u_errno u) a \<and> u_mem u' = m')"

lemma leaves_frameD:
  assumes "leaves_frame sp serve" and "serve n b c d m = (r, m')"
  shows "m' sp = m sp" "m' (sp - 4) = m (sp - 4)" "m' (sp - 8) = m (sp - 8)" "m' (sp - 12) = m (sp - 12)"
    "m' (sp - 16) = m (sp - 16)" "m' (sp - 20) = m (sp - 20)" "m' (sp - 24) = m (sp - 24)"
proof -
  have "m' x = m x" if "x \<in> insert sp (frame_words sp)" for x
    using assms that unfolding leaves_frame_def by (metis snd_conv)
  then show "m' sp = m sp" "m' (sp - 4) = m (sp - 4)" "m' (sp - 8) = m (sp - 8)" "m' (sp - 12) = m (sp - 12)"
    "m' (sp - 16) = m (sp - 16)" "m' (sp - 20) = m (sp - 20)" "m' (sp - 24) = m (sp - 24)"
    by (simp_all add: frame_words_def)
qed

lemma set_result_eq: "set_result f u = u\<lparr>u_errno := fst (f (u_errno u) (u_eax u)), u_eax := snd (f (u_errno u) (u_eax u))\<rparr>"
  by (simp add: set_result_def case_prod_unfold Let_def)

lemmas asm_defs = pushl_def popl_def load_args_def int80_def sysenter_def set_result_eq Let_def

lemma wrapper_ofI:
  assumes "w serve ret u = Some u'" and "\<And>x. x \<notin> frame_words (u_esp u) \<Longrightarrow> m x = u_mem u x"
    and "serve number (if nargs \<ge> 1 then u_mem u (u_esp u + 4) else u_ebx u)
         (if nargs \<ge> 2 then u_mem u (u_esp u + 8) else u_ecx u)
         (if nargs \<ge> 3 then u_mem u (u_esp u + 12) else u_edx u) m = ((a, b, c, d), m')"
    and "u_eip u' = u_mem u (u_esp u)" "u_esp u' = u_esp u + 4" "u_ebp u' = u_ebp u" "u_ebx u' = u_ebx u"
    and "(u_errno u', u_eax u') = result (u_errno u) a" "u_mem u' = m'"
  shows "wrapper_of number nargs result w serve ret u"
  unfolding wrapper_of_def using assms by blast

text \<open>The wrappers run symbolically, without arguments and with one or two.\<close>

lemma by_sysenter_none:
  assumes fr: "leaves_frame (u_esp u) serve" and bx: "keeps_ebx number serve"
    and fin: "\<And>v. finish v = v\<lparr>u_errno := fst (result (u_errno v) (u_eax v)), u_eax := snd (result (u_errno v) (u_eax v))\<rparr>"
    and s: "serve number (u_ebx u) (u_ecx u) (u_edx u) ((u_mem u)(u_esp u - 4 := u_ebp u, u_esp u - 8 := u_ecx u,
      u_esp u - 12 := u_edx u, u_esp u - 16 := ret, u_esp u - 20 := u_esp u - 4)) = ((a, b, c, d), m')"
  shows "by_sysenter number 0 finish serve ret u = Some (u\<lparr>u_mem := m', u_errno := fst (result (u_errno u) a),
      u_eax := snd (result (u_errno u) a), u_esp := u_esp u + 4, u_eip := u_mem u (u_esp u)\<rparr>)"
proof -
  have b: "b = u_ebx u" using bx [unfolded keeps_ebx_def, rule_format, of "u_ebx u"] s by (metis fst_conv snd_conv)
  show ?thesis using s leaves_frameD [OF fr, OF s] by (simp add: asm_defs by_sysenter_def fin b)
qed

lemma by_sysenter_args:
  assumes fr: "leaves_frame (u_esp u) serve" and n: "nargs = 1 \<or> nargs = 2"
    and fin: "\<And>v. finish v = v\<lparr>u_errno := fst (result (u_errno v) (u_eax v)), u_eax := snd (result (u_errno v) (u_eax v))\<rparr>"
    and s: "serve number (u_mem u (4 + u_esp u)) (if nargs = 1 then u_ecx u else u_mem u (8 + u_esp u)) (u_edx u)
      ((u_mem u)(u_esp u - 4 := u_ebp u, u_esp u - 8 := u_ecx u, u_esp u - 12 := u_edx u, u_esp u - 16 := u_ebx u,
        u_esp u - 20 := ret, u_esp u - 24 := u_esp u - 4)) = ((a, b, c, d), m')"
  shows "by_sysenter number nargs finish serve ret u = Some (u\<lparr>u_mem := m', u_errno := fst (result (u_errno u) a),
      u_eax := snd (result (u_errno u) a), u_esp := u_esp u + 4, u_eip := u_mem u (u_esp u)\<rparr>)"
  using n s leaves_frameD [OF fr, OF s] by (elim disjE) (simp_all add: asm_defs by_sysenter_def fin)

lemma by_sysenter_wrapper:
  assumes fr: "leaves_frame (u_esp u) serve" and nargs: "nargs \<le> 2" and bx: "nargs = 0 \<Longrightarrow> keeps_ebx number serve"
    and fin: "\<And>v. finish v = v\<lparr>u_errno := fst (result (u_errno v) (u_eax v)), u_eax := snd (result (u_errno v) (u_eax v))\<rparr>"
  shows "wrapper_of number nargs result (by_sysenter number nargs finish) serve ret u"
proof (cases "nargs = 0")
  case True
  define m where "m = (u_mem u)(u_esp u - 4 := u_ebp u, u_esp u - 8 := u_ecx u,
      u_esp u - 12 := u_edx u, u_esp u - 16 := ret, u_esp u - 20 := u_esp u - 4)"
  obtain a b c d m' where s: "serve number (u_ebx u) (u_ecx u) (u_edx u) m = ((a, b, c, d), m')" by (metis prod.exhaust)
  have f: "m x = u_mem u x" if "x \<notin> frame_words (u_esp u)" for x using that by (simp add: m_def frame_words_def)
  note w = by_sysenter_none [OF fr bx [OF True], of finish result, OF fin, OF s [unfolded m_def]]
  show ?thesis unfolding True
    by (rule wrapper_ofI [where m = m and a = a and b = b and c = c and d = d and m' = m'], rule w) (use s f in simp_all)
next
  case False
  define m where "m = (u_mem u)(u_esp u - 4 := u_ebp u, u_esp u - 8 := u_ecx u, u_esp u - 12 := u_edx u, u_esp u - 16 := u_ebx u,
        u_esp u - 20 := ret, u_esp u - 24 := u_esp u - 4)"
  obtain a b c d m' where s: "serve number (u_mem u (4 + u_esp u)) (if nargs = 1 then u_ecx u else u_mem u (8 + u_esp u))
      (u_edx u) m = ((a, b, c, d), m')" by (metis prod.exhaust)
  have f: "m x = u_mem u x" if "x \<notin> frame_words (u_esp u)" for x using that by (simp add: m_def frame_words_def)
  have n: "nargs = 1 \<or> nargs = 2" using False nargs by linarith
  note w = by_sysenter_args [OF fr n, of finish result, OF fin, OF s [unfolded m_def]]
  show ?thesis
    by (rule wrapper_ofI [where m = m and a = a and b = b and c = c and d = d and m' = m'], rule w)
      (use s f n in \<open>auto simp: add.commute\<close>)
qed

lemma write_wrapper:
  assumes fr: "leaves_frame (u_esp u) serve"
  shows "wrapper_of 4 3 syscall_result w_write serve ret u"
proof -
  define m where "m = (u_mem u)(u_esp u - 4 := u_ebp u, u_esp u - 8 := u_ebx u)"
  obtain a b c d m' where s: "serve 4 (u_mem u (4 + u_esp u)) (u_mem u (8 + u_esp u)) (u_mem u (12 + u_esp u)) m
      = ((a, b, c, d), m')" by (metis prod.exhaust)
  have f: "m x = u_mem u x" if "x \<notin> frame_words (u_esp u)" for x using that by (simp add: m_def frame_words_def)
  have w: "w_write serve ret u = Some (u\<lparr>u_ecx := c, u_edx := d, u_mem := m', u_errno := fst (syscall_result (u_errno u) a),
      u_eax := snd (syscall_result (u_errno u) a), u_esp := u_esp u + 4, u_eip := u_mem u (u_esp u)\<rparr>)"
    using s leaves_frameD [OF fr, OF s] by (simp add: asm_defs w_write_def m_def)
  show ?thesis
    by (rule wrapper_ofI [where m = m and a = a and b = b and c = c and d = d and m' = m'], rule w)
      (use s f in \<open>simp_all add: add.commute\<close>)
qed

text \<open>
  C34. Every wrapper is a C function by the calling convention of the processor: it hands its number and arguments to the
  service routine and comes back to its caller, not merely to the return label, with the stack, \<^verbatim>\<open>%ebp\<close> and \<^verbatim>\<open>%ebx\<close> as they
  were, although \<^verbatim>\<open>sysexit\<close> takes the stack and the return address from registers and the routine may overwrite the slots of its
  parameters. A negative result becomes -1 with \<^verbatim>\<open>errno\<close> set; \<^verbatim>\<open>sbrk\<close> passes -1 on and sets \<^verbatim>\<open>ENOMEM\<close>, \<^verbatim>\<open>exit\<close> passes everything
  on. It holds for service routines that leave the wrapper's words of the stack alone and, when they have no
  parameters, the saved \<^verbatim>\<open>%ebx\<close>.
\<close>
theorem wrappers_obey_convention:
  assumes "leaves_frame (u_esp u) serve" and "\<forall>n \<in> {1, 2, 10, 20}. keeps_ebx n serve"
  shows "wrapper_of 4 3 syscall_result w_write serve ret u \<and> wrapper_of 10 0 syscall_result w_gettime serve ret u
    \<and> wrapper_of 20 0 syscall_result w_getpid serve ret u \<and> wrapper_of 2 0 syscall_result w_fork serve ret u
    \<and> wrapper_of 1 0 Pair w_exit serve ret u \<and> wrapper_of 35 2 syscall_result w_get_stats serve ret u
    \<and> wrapper_of 18 2 syscall_result w_fflush serve ret u \<and> wrapper_of 15 1 syscall_result w_get_key serve ret u
    \<and> wrapper_of 16 1 syscall_result w_put_screen serve ret u \<and> wrapper_of 17 1 syscall_result w_set_fps serve ret u
    \<and> wrapper_of 19 1 sbrk_result w_sbrk serve ret u"
  using assms(2) unfolding w_gettime_def w_getpid_def w_fork_def w_exit_def w_get_stats_def w_fflush_def w_get_key_def
    w_put_screen_def w_set_fps_def w_sbrk_def
  by (intro conjI write_wrapper by_sysenter_wrapper assms(1) set_result_eq) simp_all

text \<open>The service of the kernel model in a state, for calls that do not touch the user's memory.\<close>

definition kernel_service :: "kernel \<Rightarrow> service" where
  "kernel_service s n b c d m = (case system_call_handler 0 n b c d s of
     Some (Some r, s') \<Rightarrow> ((r, b, c, d), m) | _ \<Rightarrow> ((n, b, c, d), m))"

definition blank_user :: ustate where
  "blank_user = \<lparr>u_eax = 7, u_ebx = 8, u_ecx = 9, u_edx = 10, u_ebp = 0x11BFF0, u_esp = 0x11BFE0, u_eip = 0x100100,
     u_mem = (\<lambda>x. if x = 0x11BFE0 then 0x100040 else 0), u_errno = 0\<rparr>"

lemma kernel_service_ok: "leaves_frame sp (kernel_service s)" "keeps_ebx n (kernel_service s)"
  by (auto simp: leaves_frame_def keeps_ebx_def kernel_service_def split: option.splits)

text \<open>The first process asks for its number: \<^verbatim>\<open>getpid\<close> returns 1 to the caller, with the registers in place.\<close>

theorem wrappers_obey_convention_witness:
  "\<exists>s u'. zeos_main id [] 0x7E3B blank_kernel = Some s \<and> w_getpid (kernel_service s) 0x100120 blank_user = Some u'
    \<and> u_eax u' = 1 \<and> u_eip u' = 0x100040 \<and> u_esp u' = 0x11BFE4 \<and> u_ebx u' = 8"
proof -
  obtain s where s: "reachable (\<lambda>_ d. d) s" "zeos_main id [] 0x7E3B blank_kernel = Some s"
    "kinv s [7, 6, 5, 4, 3, 2, 1, 0] [] []" "PID (cur_task s) = 1" by (rule booted_alone [of "\<lambda>_ d. d"])
  obtain s1 where s1: "user_to_sys s = Some s1" "kinv s1 [7, 6, 5, 4, 3, 2, 1, 0] [] []" by (rule kinv_user_to_sys [OF s(3)])
  obtain s2 where s2: "sys_to_user_ready s1 = Some s2" by (rule kinv_sys_to_user_ready [OF s1(2)])
  have "PID (cur_task s1) = 1" using s1(1) s(4) by (auto simp: user_to_sys_run cur_task_def current_def kstat_def)
  then have h: "system_call_handler 0 20 b c d s = Some (Some 1, s2)" for b c d
    using s1(1) s2 by (simp add: system_call_handler_def MAX_SYSCALL_def sys_call_def sys_getpid_def)
  have "wrapper_of 20 0 syscall_result w_getpid (kernel_service s) 0x100120 blank_user"
    using wrappers_obey_convention [of blank_user "kernel_service s" "0x100120"] by (simp add: kernel_service_ok)
  then show ?thesis
    using s(2) unfolding wrapper_of_def by (auto simp: kernel_service_def h syscall_result_def blank_user_def)
qed

end
