(* ===== verification/Zeos_Build.thy ===== *)
theory Zeos_Build
  imports Zeos_Prelude
begin

text \<open>
  The image builder \<^verbatim>\<open>zeOS/build.c\<close>, which runs on the development machine: it joins the boot sector, the
  system and the user program into the disk image the boot sector loads, and writes the sizes the boot code
  and \<^verbatim>\<open>main\<close> read into it. Files are parameters: an argument is the contents of the file it names, or
  \<^term>\<open>None\<close> when the file cannot be opened.
\<close>

section \<open>Files\<close>

text \<open>
  A file is its bytes. \<^verbatim>\<open>read\<close> returns what is left, up to the size asked for; \<^verbatim>\<open>write\<close>, \<^verbatim>\<open>fstat\<close> and
  \<^verbatim>\<open>lseek\<close> succeed. \<open>patch\<close> is \<^verbatim>\<open>lseek\<close> and \<^verbatim>\<open>write\<close>: the bytes at an offset are replaced, and behind
  the end of the file they are added.
\<close>

definition patch :: "nat \<Rightarrow> Byte list \<Rightarrow> Byte list \<Rightarrow> Byte list" where
  "patch off bs img = take off img @ bs @ drop (off + length bs) img"

text \<open>The calls of \<^verbatim>\<open>die\<close> that can be reached when the system calls on open files succeed.\<close>

datatype build_error =
    Usage | UnableToOpen | NoHeader | NonMinix | IllegalData | IllegalBss | IllegalSymbols
  | NotABootBlock | NoBootFlag | UnexpectedEOF

text \<open>The \<open>k\<close>-th 32-bit word of a buffer, little endian: \<^verbatim>\<open>lb[k]\<close>.\<close>

definition u32_at :: "Byte list \<Rightarrow> nat \<Rightarrow> DWord" where
  "u32_at b k = ucast (b ! (4 * k)) OR push_bit 8 (ucast (b ! (4 * k + 1))) OR push_bit 16 (ucast (b ! (4 * k + 2)))
     OR push_bit 24 (ucast (b ! (4 * k + 3)))"

section \<open>The image builder\<close>

definition hdr :: "Byte list" where
  "hdr = [0x01, 0x03, 0x10, 0x04, 0x20, 0x00, 0x00, 0x00]"

text \<open>\<^verbatim>\<open>minix_open\<close>: checks the 32-byte header; the result is what is left of the file.\<close>

definition minix_open :: "Byte list option \<Rightarrow> build_error + Byte list" where
  "minix_open name =
    (case name of
       None \<Rightarrow> Inl UnableToOpen
     | Some bytes \<Rightarrow>
         let buf = take 32 bytes in
         if length buf \<noteq> 32 then Inl NoHeader
         else if take 8 buf \<noteq> hdr \<or> u32_at buf 5 \<noteq> 0 then Inl NonMinix
         else if u32_at buf 3 \<noteq> 0 then Inl IllegalData
         else if u32_at buf 4 \<noteq> 0 then Inl IllegalBss
         else if u32_at buf 7 \<noteq> 0 then Inl IllegalSymbols
         else Inr (drop 32 bytes))"

text \<open>
  The copy loops of \<^verbatim>\<open>main\<close>: \<open>sz\<close> bytes in chunks of at most the 1024 bytes of the buffer. The size counts
  in 32 bits, so only the low 32 bits of the size \<^verbatim>\<open>fstat\<close> reports are copied.
\<close>

function copy_file :: "DWord \<Rightarrow> Byte list \<Rightarrow> Byte list \<Rightarrow> build_error + Byte list" where
  "copy_file sz src img =
     (if sz > 0 then
        let l = (if sz > 1024 then 1024 else sz) in
        if length (take (unat l) src) \<noteq> unat l then Inl UnexpectedEOF
        else copy_file (sz - l) (drop (unat l) src) (img @ take (unat l) src)
      else Inr img)"
  by pat_completeness auto
termination
proof (relation "measure (\<lambda>(sz, src, img). unat sz)")
  show "wf (measure (\<lambda>(sz :: DWord, src :: Byte list, img :: Byte list). unat sz))" by simp
next
  fix sz l :: DWord and src img :: "Byte list"
  assume "sz > 0" and l: "l = (if sz > 1024 then 1024 else sz)"
  then have "0 < l" "l \<le> sz" by (auto simp: word_le_def word_less_def)
  then show "((sz - l, drop (unat l) src, img @ take (unat l) src), (sz, src, img))
      \<in> measure (\<lambda>(sz, src, img). unat sz)"
    by (simp add: unat_sub word_less_nat_alt word_le_nat_alt)
qed

declare copy_file.simps [simp del]

text \<open>The bytes of a size field: its low 24 bits, and 0.\<close>

definition size_bytes :: "DWord \<Rightarrow> Byte list" where
  "size_bytes n = [ucast (n AND 0xff), ucast (drop_bit 8 n AND 0xff), ucast (drop_bit 16 n AND 0xff), 0]"

text \<open>The boot sector: 512 bytes with the boot flag, in which the root device is cleared.\<close>

definition boot_sector :: "Byte list option \<Rightarrow> build_error + Byte list" where
  "boot_sector name =
    (case minix_open name of
       Inl e \<Rightarrow> Inl e
     | Inr left \<Rightarrow>
         let buf = take 1024 left in
         if length buf \<noteq> 512 then Inl NotABootBlock
         else if buf ! 510 \<noteq> 0x55 \<or> buf ! 511 \<noteq> 0xaa then Inl NoBootFlag
         else Inr (buf[508 := 0, 509 := 0]))"

text \<open>A program behind it, with its size.\<close>

definition append_program :: "Byte list option \<Rightarrow> Byte list \<Rightarrow> build_error + DWord \<times> Byte list" where
  "append_program name img =
    (case name of
       None \<Rightarrow> Inl UnableToOpen
     | Some prog \<Rightarrow>
         let sz = word_of_nat (length prog) in
         (case copy_file sz prog img of Inl e \<Rightarrow> Inl e | Inr img \<Rightarrow> Inr (sz, img)))"

definition size_fields :: "DWord \<Rightarrow> DWord \<Rightarrow> Byte list \<Rightarrow> Byte list" where
  "size_fields sys_size usr_size img =
    (let im_size = (sys_size + usr_size + 15) div 16;
         img = patch 500 [ucast (im_size AND 0xff), ucast (drop_bit 8 im_size AND 0xff)] img;
         img = patch 512 (size_bytes sys_size) img;
         img = patch 516 (size_bytes usr_size) img
     in patch 520 (size_bytes 0x7E3B) img)"

text \<open>\<^verbatim>\<open>main\<close>, on the arguments after the program's name: the image, or the error it dies with.\<close>

definition build_main :: "Byte list option list \<Rightarrow> build_error + Byte list" where
  "build_main argv =
    (case argv of
       [bootsect, system, user] \<Rightarrow>
         (case boot_sector bootsect of
            Inl e \<Rightarrow> Inl e
          | Inr img \<Rightarrow>
              (case append_program system img of
                 Inl e \<Rightarrow> Inl e
               | Inr (sys_size, img) \<Rightarrow>
                   (case append_program user img of
                      Inl e \<Rightarrow> Inl e
                    | Inr (usr_size, img) \<Rightarrow> Inr (size_fields sys_size usr_size img))))
     | _ \<Rightarrow> Inl Usage)"

section \<open>What the image contains\<close>

lemma copy_file_run:
  "unat sz \<le> length src \<Longrightarrow> copy_file sz src img = Inr (img @ take (unat sz) src)"
proof (induction sz src img rule: copy_file.induct)
  case (1 sz src img)
  show ?case
  proof (cases "sz = 0")
    case True
    then show ?thesis by (subst copy_file.simps) simp
  next
    case False
    define l where "l = (if sz > 1024 then 1024 else sz)"
    have pos: "sz > 0" using False by (simp add: word_neq_0_conv)
    have l: "l \<le> sz" by (simp add: l_def order_less_imp_le)
    then have u: "unat (sz - l) = unat sz - unat l" "unat l \<le> unat sz" by (simp_all add: unat_sub word_le_nat_alt)
    have len: "length (take (unat l) src) = unat l" using 1 (2) u (2) by simp
    have "copy_file (sz - l) (drop (unat l) src) (img @ take (unat l) src)
        = Inr ((img @ take (unat l) src) @ take (unat (sz - l)) (drop (unat l) src))"
      using "1.IH" [OF pos l_def] len 1 (2) u by simp
    then show ?thesis
      using pos len u take_add [of "unat l" "unat sz - unat l" src]
      by (subst copy_file.simps) (simp add: Let_def flip: l_def)
  qed
qed

lemma append_program_run:
  "append_program (Some prog) img = Inr (word_of_nat (length prog), img @ take (length prog mod 2 ^ 32) prog)"
  by (simp add: append_program_def Let_def unat_of_nat copy_file_run)

lemma patch_length: "off + length bs \<le> length img \<Longrightarrow> length (patch off bs img) = length img"
  by (simp add: patch_def)

lemma patch_nth:
  "off + length bs \<le> length img \<Longrightarrow> i < length img \<Longrightarrow>
   patch off bs img ! i = (if off \<le> i \<and> i < off + length bs then bs ! (i - off) else img ! i)"
  by (auto simp: patch_def nth_append not_le not_less)

lemma u32_size_bytes:
  assumes "n < 2 ^ 24" and "\<forall>j < 4. b ! (4 * k + j) = size_bytes (word_of_nat n) ! j"
  shows "u32_at b k = word_of_nat n"
proof -
  define w where "w = (word_of_nat n :: DWord)"
  have "take_bit 24 w = w"
    unfolding w_def take_bit_of_nat using assms(1) by (subst take_bit_nat_eq_self) simp_all
  then have hi: "bit w i \<Longrightarrow> i < 24" for i by (metis bit_take_bit_iff)
  have m: "(0xff :: DWord) = mask 8" by (simp add: mask_eq_exp_minus_1)
  have b: "b ! (4 * k) = ucast (w AND mask 8)" "b ! (4 * k + 1) = ucast (drop_bit 8 w AND mask 8)"
    "b ! (4 * k + 2) = ucast (drop_bit 16 w AND mask 8)" "b ! (4 * k + 3) = 0"
    using assms(2) [rule_format, of 0] assms(2) [rule_format, of 1] assms(2) [rule_format, of 2] assms(2) [rule_format, of 3]
    by (simp_all add: size_bytes_def w_def m numeral_2_eq_2 numeral_3_eq_3)
  have "u32_at b k = w"
  proof (rule bit_word_eqI)
    fix i assume i: "i < LENGTH(32)"
    consider "i < 8" | "8 \<le> i" "i < 16" | "16 \<le> i" "i < 24" | "24 \<le> i" by linarith
    then show "bit (u32_at b k) i = bit w i"
      unfolding u32_at_def b using i hi [of i] by cases (auto simp: bit_simps)
  qed
  then show ?thesis by (simp add: w_def)
qed


lemma size_bytes_length [simp]: "length (size_bytes n) = 4"
  by (simp add: size_bytes_def)

lemma size_fields_length: "524 \<le> length img \<Longrightarrow> length (size_fields m n img) = length img"
  by (simp add: size_fields_def Let_def patch_length)

lemma nth_pair: "500 \<le> i \<Longrightarrow> i < 502 \<Longrightarrow> [x, y] ! (i - 500) = (if i = (500 :: nat) then x else y)"
  by (auto simp: nth_Cons')

lemma size_fields_nth:
  assumes "524 \<le> length img" and "i < length img"
  shows "size_fields m n img ! i =
    (if 520 \<le> i \<and> i < 524 then size_bytes 0x7E3B ! (i - 520)
     else if 516 \<le> i \<and> i < 520 then size_bytes n ! (i - 516)
     else if 512 \<le> i \<and> i < 516 then size_bytes m ! (i - 512)
     else if i = 500 then ucast ((m + n + 15) div 16 AND 0xff)
     else if i = 501 then ucast (drop_bit 8 ((m + n + 15) div 16) AND 0xff)
     else img ! i)"
  unfolding size_fields_def Let_def using assms
  by (simp add: patch_nth patch_length nth_pair)

lemma size_fields_words:
  assumes "524 \<le> length img" and "m < 2 ^ 24" and "n < 2 ^ 24"
  shows "u32_at (size_fields (word_of_nat m) (word_of_nat n) img) 128 = word_of_nat m"
    and "u32_at (size_fields (word_of_nat m) (word_of_nat n) img) 129 = word_of_nat n"
    and "u32_at (size_fields (word_of_nat m) (word_of_nat n) img) 130 = 0x7E3B"
proof -
  let ?i = "size_fields (word_of_nat m) (word_of_nat n) img"
  show "u32_at ?i 128 = word_of_nat m"
    by (rule u32_size_bytes [OF assms(2)]) (use assms(1) in \<open>auto simp: size_fields_nth\<close>)
  show "u32_at ?i 129 = word_of_nat n"
    by (rule u32_size_bytes [OF assms(3)]) (use assms(1) in \<open>auto simp: size_fields_nth\<close>)
  have "u32_at ?i 130 = word_of_nat 0x7E3B"
    by (rule u32_size_bytes) (use assms(1) in \<open>auto simp: size_fields_nth\<close>)
  then show "u32_at ?i 130 = 0x7E3B" by simp
qed

text \<open>The boot sectors that pass the checks.\<close>

definition good_boot :: "Byte list \<Rightarrow> bool" where
  "good_boot b \<longleftrightarrow> length b = 544 \<and> take 8 b = hdr \<and> u32_at b 3 = 0 \<and> u32_at b 4 = 0 \<and> u32_at b 5 = 0
     \<and> u32_at b 7 = 0 \<and> b ! 542 = 0x55 \<and> b ! 543 = 0xaa"

lemma u32_at_take: "4 * k + 3 < n \<Longrightarrow> u32_at (take n b) k = u32_at b k"
  by (simp add: u32_at_def)

lemma boot_sector_good:
  "good_boot b \<Longrightarrow> boot_sector (Some b) = Inr ((drop 32 b) [508 := 0, 509 := 0])"
  by (simp add: boot_sector_def minix_open_def good_boot_def Let_def u32_at_take)

lemma boot_sector_Inr:
  assumes "boot_sector f = Inr img"
  obtains b where "f = Some b" "good_boot b"
proof (cases f)
  case None
  then show ?thesis using assms by (simp add: boot_sector_def minix_open_def)
next
  case (Some b)
  have "good_boot b"
    using assms
    by (auto simp: Some boot_sector_def minix_open_def good_boot_def Let_def u32_at_take min_def split: if_splits)
  then show ?thesis using that Some by blast
qed

text \<open>
  C39. The image builder succeeds exactly on three readable files of which the first is a boot block: the
  Minix header without data, bss and symbols, 512 bytes, and the boot flag in the last two of them. Nothing
  is checked of the other two.
\<close>
theorem build_accepts:
  "(\<exists>img. build_main argv = Inr img) \<longleftrightarrow>
   (\<exists>b sys usr. argv = [Some b, Some sys, Some usr] \<and> good_boot b)"
proof
  assume "\<exists>img. build_main argv = Inr img"
  then obtain img where img: "build_main argv = Inr img" ..
  then obtain f g h where a: "argv = [f, g, h]" by (auto simp: build_main_def split: list.splits)
  obtain i1 where b: "boot_sector f = Inr i1" using img by (auto simp: a build_main_def split: sum.splits)
  then obtain b where f: "f = Some b" "good_boot b" by (rule boot_sector_Inr)
  moreover have "g \<noteq> None" using img b by (cases g) (auto simp: a build_main_def append_program_def)
  then obtain sys where g: "g = Some sys" by blast
  moreover have "h \<noteq> None" using img b
    by (cases h) (auto simp: a build_main_def g append_program_run, simp add: append_program_def)
  ultimately show "\<exists>b sys usr. argv = [Some b, Some sys, Some usr] \<and> good_boot b" using a by blast
next
  assume "\<exists>b sys usr. argv = [Some b, Some sys, Some usr] \<and> good_boot b"
  then show "\<exists>img. build_main argv = Inr img"
    by (auto simp: build_main_def boot_sector_good append_program_run)
qed

lemma paragraphs:
  assumes "m < 2 ^ 24" and "n < 2 ^ 24"
  shows "(word_of_nat m + word_of_nat n + 15) div 16 = (word_of_nat ((m + n + 15) div 16) :: DWord)"
proof -
  have "unat (word_of_nat (m + n + 15) :: DWord) = m + n + 15" 
    by (simp only: unsigned_of_nat, subst take_bit_nat_eq_self) (use assms in simp_all)
  then have "unat ((word_of_nat (m + n + 15) :: DWord) div 16) = (m + n + 15) div 16" by (simp add: unat_div)
  then have "(word_of_nat (m + n + 15) :: DWord) div 16 = word_of_nat ((m + n + 15) div 16)"
    by (metis of_nat_unat ucast_id)
  then show ?thesis by simp
qed

lemma low_byte: "(ucast (word_of_nat q AND 0xff :: DWord) :: Byte) = word_of_nat q"
proof -
  have m: "(0xff :: DWord) = mask 8" by (simp add: mask_eq_exp_minus_1)
  show ?thesis unfolding m by (rule bit_word_eqI) (auto simp: bit_simps)
qed

lemma second_byte: "(ucast (drop_bit 8 (word_of_nat q) AND 0xff :: DWord) :: Byte) = word_of_nat (q div 256)"
proof -
  have m: "(0xff :: DWord) = mask 8" by (simp add: mask_eq_exp_minus_1)
  have d: "q div 256 = drop_bit 8 q" by (simp add: drop_bit_eq_div)
  show ?thesis unfolding m d by (rule bit_word_eqI) (auto simp: bit_simps)
qed

text \<open>
  C23. The image of a system and a user program of less than 16 megabytes: the boot sector, without its header;
  behind it the system and the user program, whole and in this order, but for the twelve bytes at the start
  of the system in which the sizes of both and the mark \<^verbatim>\<open>0x7E3B\<close> stand, where \<^verbatim>\<open>main\<close> of the kernel
  reads them. The boot sector is changed only in the root device, which is cleared, and in the size of the
  image in 16-byte paragraphs, of which it holds the low 16 bits.
\<close>
theorem build_image:
  assumes "good_boot b" and "12 \<le> length sys" and "length sys < 2 ^ 24" and "length usr < 2 ^ 24"
  shows "\<exists>img. build_main [Some b, Some sys, Some usr] = Inr img
    \<and> length img = 512 + length sys + length usr
    \<and> u32_at img 128 = word_of_nat (length sys) \<and> u32_at img 129 = word_of_nat (length usr)
    \<and> u32_at img 130 = 0x7E3B
    \<and> (\<forall>i < 512. i \<notin> {500, 501, 508, 509} \<longrightarrow> img ! i = b ! (32 + i))
    \<and> img ! 500 = word_of_nat ((length sys + length usr + 15) div 16)
    \<and> img ! 501 = word_of_nat ((length sys + length usr + 15) div 16 div 256)
    \<and> img ! 508 = 0 \<and> img ! 509 = 0
    \<and> drop 12 (take (length sys) (drop 512 img)) = drop 12 sys
    \<and> drop (512 + length sys) img = usr"
proof -
  define boot where "boot = (drop 32 b) [508 := 0, 509 := 0]"
  define i0 where "i0 = boot @ sys @ usr"
  define img where "img = size_fields (word_of_nat (length sys)) (word_of_nat (length usr)) i0"
  have boot: "length boot = 512" using assms(1) by (simp add: boot_def good_boot_def)
  have i0: "length i0 = 512 + length sys + length usr" by (simp add: i0_def boot)
  then have big: "524 \<le> length i0" using assms(2) by simp
  have run: "build_main [Some b, Some sys, Some usr] = Inr img"
    using assms by (simp add: build_main_def boot_sector_good append_program_run img_def i0_def boot_def)
  have len: "length img = length i0" by (simp add: img_def size_fields_length big)
  have n: "img ! i = i0 ! i" if "i < length i0" "i \<notin> {500, 501}" "i < 512 \<or> 524 \<le> i" for i
    using that by (auto simp: img_def size_fields_nth big)
  define q where "q = (length sys + length usr + 15) div 16"
  have p: "(word_of_nat (length sys) + word_of_nat (length usr) + 15) div 16 = (word_of_nat q :: DWord)"
    using paragraphs [of "length sys" "length usr"] assms by (simp add: q_def)
  have q: "img ! 500 = word_of_nat q" "img ! 501 = word_of_nat (q div 256)"
    by (simp_all add: img_def size_fields_nth big p low_byte second_byte less_le_trans [OF _ big])
  have head: "img ! i = b ! (32 + i)" if "i < 512" "i \<notin> {500, 501, 508, 509}" for i
    using that n [of i] assms(1) by (simp add: i0 i0_def nth_append boot) (simp add: boot_def good_boot_def)
  have root: "img ! 508 = 0" "img ! 509 = 0"
    using n [of 508] n [of 509] assms(1)
    by (simp_all add: i0) (simp_all add: i0_def nth_append boot, simp_all add: boot_def good_boot_def)
  have body: "drop 524 img = drop 524 i0"
    by (rule nth_equalityI) (simp_all add: len n)
  have "drop 12 (take (length sys) (drop 512 img)) = take (length sys - 12) (drop 524 img)"
    by (simp add: drop_take)
  also have "\<dots> = drop 12 sys" using assms(2) by (simp add: body) (simp add: i0_def boot)
  finally have sys: "drop 12 (take (length sys) (drop 512 img)) = drop 12 sys" .
  have "drop (512 + length sys) img = drop (length sys - 12) (drop 524 img)" using assms(2) by simp
  also have "\<dots> = usr" using assms(2) by (simp add: body) (simp add: i0_def boot)
  finally have usr: "drop (512 + length sys) img = usr" .
  show ?thesis
    using run len i0 head q root sys usr size_fields_words [OF big assms(3,4)]
    by (auto simp: q_def simp flip: img_def)
qed


text \<open>A boot block whose code is all zeros.\<close>

definition plain_boot :: "Byte list" where
  "plain_boot = hdr @ replicate 534 0 @ [0x55, 0xaa]"

lemma plain_boot_good: "good_boot plain_boot"
  by (simp add: good_boot_def plain_boot_def hdr_def u32_at_def nth_append)

theorem build_image_witness:
  "\<exists>img. build_main [Some plain_boot, Some (replicate 40 0x90), Some [0xc3]] = Inr img \<and> length img = 553
    \<and> u32_at img 128 = 40 \<and> u32_at img 129 = 1 \<and> drop 552 img = [0xc3]"
  using build_image [OF plain_boot_good, of "replicate 40 0x90" "[0xc3]"] by auto

end
