(* ===== verification/Zeos_Disk.thy ===== *)
theory Zeos_Disk
  imports Zeos_Reach Zeos_Build
begin

text \<open>
  From the files on the developer's machine to the first process: the image that \<^verbatim>\<open>build.c\<close> writes, read by \<^verbatim>\<open>main\<close> of the
  kernel through the three words at its start.
\<close>

text \<open>
  The boot sector puts what follows it on the disk at \<^verbatim>\<open>KERNEL_START\<close>; the pointers \<^verbatim>\<open>p_sys_size\<close>, \<^verbatim>\<open>p_usr_size\<close> and \<^verbatim>\<open>p_rdtr\<close> lead
  to the first three words there, and the user program is the block of the second size behind the first.
\<close>

definition boot_from :: "(idt \<Rightarrow> idt) \<Rightarrow> Byte list \<Rightarrow> kernel \<Rightarrow> kernel option" where
  "boot_from set_handlers disk s =
    (let kernel_start = drop 512 disk;
         p_sys_size = u32_at kernel_start 0;
         p_usr_size = u32_at kernel_start 1;
         p_rdtr = u32_at kernel_start 2
     in zeos_main set_handlers (take (unat p_usr_size) (drop (unat p_sys_size) kernel_start)) p_rdtr s)"

lemma u32_at_drop: "512 \<le> length disk \<Longrightarrow> u32_at (drop 512 disk) i = u32_at disk (128 + i)"
  by (simp add: u32_at_def)



end
