(* ===== verification/Spec2Isabelle.thy ===== *)
theory Spec2Isabelle
  imports Zeos_Circular Zeos_Fair Zeos_TLB Zeos_Client Zeos_Wrapper Zeos_Disk
begin

text \<open>
  A model of ZeOS, the teaching kernel under \<^verbatim>\<open>src/zeOS\<close>, and the theorems that make it correct, or show where it is not.

  \<^bold>\<open>The program.\<close> A kernel for one i386 processor. Ten task structures, each on a page of its own with its kernel stack,
  hang in one of three circular lists (free, ready, ready with priority) or run; one is the idle task. Every task has a
  page directory and a page table, which map the kernel, eight pages of program code, twenty of data and a heap that
  \<^verbatim>\<open>sbrk\<close> moves. The processor enters the kernel by the clock, the keyboard and system calls; the clock counts down the
  quantum and switches tasks; the keyboard fills a circular buffer a process reads with \<^verbatim>\<open>get_key\<close>. The programs are
  joined into a disk image by \<^verbatim>\<open>build.c\<close>, and use a small C library.

  \<^bold>\<open>Theories and sources.\<close>
  \<^item> \<^verbatim>\<open>Zeos_Prelude\<close>: the integer types, the constants of \<^verbatim>\<open>include/mm_address.h\<close> and \<^verbatim>\<open>errno.h\<close>, C arrays with checked bounds.
  \<^item> \<^verbatim>\<open>Zeos_List\<close>: \<^verbatim>\<open>list.c\<close>, \<^verbatim>\<open>include/list.h\<close> on a store of nodes. The locale \<open>queue_store\<close> is what the scheduler needs of it.
  \<^item> \<^verbatim>\<open>Zeos_Circular\<close>: \<^verbatim>\<open>circular_buffer.c\<close>; the locale \<open>bounded_fifo\<close> is what the keyboard routine and \<^verbatim>\<open>sys_get_key\<close> need.
  \<^item> \<^verbatim>\<open>Zeos_Frames\<close>: the frame map of \<^verbatim>\<open>mm.c\<close> and the reservation loop of \<^verbatim>\<open>sys.c\<close>, over the locale \<open>frame_allocator\<close>.
  \<^item> \<^verbatim>\<open>Zeos_Utils\<close>: \<^verbatim>\<open>utils.c\<close>. The copy routines run over any memory of the locale \<open>byte_memory\<close>: a page-mapped one, kernel
    objects, or one of each.
  \<^item> \<^verbatim>\<open>Zeos_MM\<close>, \<^verbatim>\<open>Zeos_Space\<close>: page tables of \<^verbatim>\<open>mm.c\<close>, as 32-bit words at addresses, and what loops over their entries do.
  \<^item> \<^verbatim>\<open>Zeos_IO\<close>: \<^verbatim>\<open>io.c\<close>, \<^verbatim>\<open>devices.c\<close>. \<^verbatim>\<open>Zeos_Tables\<close>: the IDT of \<^verbatim>\<open>interrupt.c\<close>, GDT and TSS of \<^verbatim>\<open>mm.c\<close>.
  \<^item> \<^verbatim>\<open>Zeos_Kernel\<close>: the record \<open>kernel\<close>, one field for each global variable of \<^verbatim>\<open>sched.c\<close>, \<^verbatim>\<open>mm.c\<close>, \<^verbatim>\<open>sys.c\<close>, \<^verbatim>\<open>system.c\<close>,
    \<^verbatim>\<open>interrupt.c\<close> and each processor register the kernel writes; \<open>task\<close> is \<^verbatim>\<open>union task_union\<close> of \<^verbatim>\<open>include/sched.h\<close>.
  \<^item> \<^verbatim>\<open>Zeos_Sched\<close>: \<^verbatim>\<open>sched.c\<close> and the context switch of \<^verbatim>\<open>entry.S\<close>. \<^verbatim>\<open>Zeos_Sys\<close>: \<^verbatim>\<open>sys.c\<close>, call by call.
  \<^item> \<^verbatim>\<open>Zeos_Interrupt\<close>: the routines of \<^verbatim>\<open>interrupt.c\<close>, the handlers of \<^verbatim>\<open>entry.S\<close>, \<^verbatim>\<open>sys_call_table.S\<close>.
  \<^item> \<^verbatim>\<open>Zeos_Hardware\<close>: \<^verbatim>\<open>hardware.c\<close>, \<^verbatim>\<open>set_pe_flag\<close> of \<^verbatim>\<open>mm.c\<close> and the descriptor table of \<^verbatim>\<open>bootsect.S\<close>, as effects on a record of
    registers, the field \<open>cpu\<close> of \<open>kernel\<close>; the far return of \<^verbatim>\<open>return_gate\<close> checks and loads segments.
  \<^item> \<^verbatim>\<open>Zeos_Boot\<close>: \<^verbatim>\<open>main\<close> of \<^verbatim>\<open>system.c\<close>, whole. \<^verbatim>\<open>Zeos_Libc\<close>: \<^verbatim>\<open>libc.c\<close>. \<^verbatim>\<open>Zeos_Build\<close>: \<^verbatim>\<open>build.c\<close>; \<^verbatim>\<open>Zeos_Disk\<close> puts it
    together with the boot: what was built is what process 1 runs.
  \<^item> \<^verbatim>\<open>Zeos_Wrapper\<close>: \<^verbatim>\<open>wrapper.S\<close> as lists of instructions on the registers and stack of a process, with the entry and exit
    code of both system call handlers of \<^verbatim>\<open>entry.S\<close> around a kernel given as the argument \<open>serve\<close>.
  \<^item> \<^verbatim>\<open>Zeos_Inv\<close>, \<^verbatim>\<open>Zeos_Calls\<close>, \<^verbatim>\<open>Zeos_Machine\<close>, \<^verbatim>\<open>Zeos_Reach\<close>: the invariant \<open>kinv\<close>, that every call and interrupt keeps it, the step
    relation \<open>zeos_step\<close>, and the states reachable from the boot loader's, with a concrete machine for examples.
  \<^item> \<^verbatim>\<open>Zeos_TLB\<close>: the translation cache of the processor, the field \<open>tlb\<close> of \<open>kernel\<close>, which \<^verbatim>\<open>set_cr3\<close> empties: runs in which the
    processor fills it at any moment.
  \<^item> \<^verbatim>\<open>Zeos_Safety\<close>, \<^verbatim>\<open>Zeos_Process\<close>, \<^verbatim>\<open>Zeos_Fair\<close>, \<^verbatim>\<open>Zeos_Heap\<close>, \<^verbatim>\<open>Zeos_Write\<close>,
    \<^verbatim>\<open>Zeos_Client\<close>: properties of the reachable states.

  \<^bold>\<open>Conventions.\<close> Code that can fault is a function into an option; \<open>None\<close> is a behaviour the C program does not define
  (a null or foreign pointer, an index out of bounds, a page that is not mapped, an overflowed stack). Results the
  kernel returns on purpose, errors included, are words. Pointers into the task array are indices, a pointer to the list
  field of a task is the node \<open>TASK_LIST i\<close>; \<open>current_ptr_task\<close> and \<open>dir_pos_task\<close> relate the indices to the address
  arithmetic of the code. A user pointer is an address, translated by the page table; the frames below one
  megabyte hold the kernel itself, whose variables are the fields of the record, so an access of the kernel through a
  user pointer that leads there has no result. The argument \<open>fp\<close> of handlers is the place of the saved frame on the
  kernel stack, which the compiler determines.

  \<^bold>\<open>What is shown.\<close>
  \<^item> The invariant holds in every reachable state: the lists are well formed and hold every task once, every page below a
    process's break has a frame of its own, marked used, and the kernel is mapped in every table. It gives the isolation
    of the processes, the protection of the kernel, the outcome of \<^verbatim>\<open>fork\<close>, \<^verbatim>\<open>exit\<close>, \<^verbatim>\<open>sbrk\<close> on every branch, and that the
    scheduler refines a policy on lists and is fair among processes of low priority.
  \<^item> Components on their own: lists are queues, the buffer is a FIFO until it overflows, the copy routines copy
    exactly, the division of \<^verbatim>\<open>get_ticks\<close> is right and never faults, texts appear on the screen, numbers are printed
    right, the disk image holds what the boot code looks for, boot always ends and enters user mode with interrupts and
    paging on, the wrappers keep the calling convention.
  \<^item> Where the code does not do what it is for, the property says what it does: processes that all have priority leave the
    scheduler without a successor, an aligned break loses a frame, a large decrement of the break wraps, long texts are
    cut by \<^verbatim>\<open>write\<close>, an overflowing keyboard buffer reorders and loses characters, code pages are shared writable, a shrinking
    heap leaves translations in the cache that make the next \<^verbatim>\<open>fork\<close> copy to a free frame.

  \<^bold>\<open>Bounds and fuel.\<close> Loops are total functions with a measure. Only the walk over a list takes fuel: eleven steps are
  enough for lists of ten tasks (\<open>tasks_partition\<close>). The variable-length array of \<^verbatim>\<open>sys_sbrk\<close> and \<^verbatim>\<open>sys_fork\<close> is on the
  kernel stack of 1024 words; \<open>vla_ok\<close> admits up to 768 entries, more than the 383 frames there are, and a larger or
  negative one counts as undefined.

  \<^bold>\<open>Parameters.\<close> \<open>zeos_show_clock\<close> and \<open>set_handlers\<close> come as machine code in \<^verbatim>\<open>libzeos.a\<close>: a function on the screen and one on
  the IDT. The time stamp counter is a stream of readings, \<^verbatim>\<open>inb\<close> the argument of the keyboard handler. The boot loader's
  state is described by \<open>powered\<close>; the word \<^verbatim>\<open>*p_rdtr\<close>, whose address the linker chooses, is the argument \<open>rdtr\<close> of \<open>zeos_main\<close>.

  \<^bold>\<open>Not modelled.\<close> The code of \<^verbatim>\<open>bootsect.S\<close>, 16-bit instructions that load the image and enter protected mode: \<open>boot_from\<close> states
  where it puts the sectors, \<open>powered\<close> how it leaves the processor. \<^verbatim>\<open>user.c\<close> and \<^verbatim>\<open>tests\<close>, programs that use the kernel.
  \<^verbatim>\<open>errno.h\<close> beyond the constants in use. After the boot, the interrupt flag and the registers of the interrupted process:
  handlers are not interrupted, as their gates clear the flag, and \<^verbatim>\<open>SAVE_ALL\<close> and \<^verbatim>\<open>RESTORE_ALL\<close> keep the registers. The busy bit
  that \<^verbatim>\<open>ltr\<close> sets. The step relation leaves out a call of \<^verbatim>\<open>sbrk\<close> that leads below address 0, which breaks the invariant
  (\<open>sbrk_wraps\<close>).
\<close>

end
